(* ===== verification/Spr_Prelude.thy ===== *)
theory Spr_Prelude
  imports Main "HOL-Library.Word" "HOL-Library.Monad_Syntax"
begin

text \<open>
  Shared vocabulary of the development: the machine types of the 64-bit (LP64) build that
  is modelled, the status codes of \<^verbatim>\<open>include/spr_errno.h\<close>, and the
  generic facts about words, options and lists that the component theories use.

  A C function that may run into undefined behaviour (a null or dangling dereference, an
  index outside an array) or may not return is a HOL function into an \<open>option\<close>:
  \<open>None\<close> stands for "no defined result", \<open>Some\<close> carries the returned value and the
  new memory. Status codes and null results are ordinary values inside \<open>Some\<close>.
\<close>

unbundle bit_operations_syntax

section \<open>Machine types\<close>

type_synonym addr = "64 word"
type_synonym size = "64 word"
type_synonym byte = "8 word"
type_synonym err = int
type_synonym tid = nat

abbreviation (input) NULL :: addr where "NULL \<equiv> 0"

named_theorems spr_frame \<open>which parts of the memory an operation leaves unchanged\<close>
named_theorems spr_size \<open>values of the sizeof constants\<close>

section \<open>Status codes (include/spr_errno.h)\<close>

definition SPR_OK :: err where "SPR_OK = 0"
definition SPR_FAILED :: err where "SPR_FAILED = -1"
definition SPR_BUSY :: err where "SPR_BUSY = -2"
definition SPR_DONE :: err where "SPR_DONE = -3"
definition SPR_ABORT :: err where "SPR_ABORT = -4"
definition SPR_DECLINED :: err where "SPR_DECLINED = -5"
definition SPR_NOT_FOUND :: err where "SPR_NOT_FOUND = -6"

definition SPR_ERROR_DOMAIN_BASE :: err where "SPR_ERROR_DOMAIN_BASE = 20000"
definition SPR_ERRSPACE_SIZE :: err where "SPR_ERRSPACE_SIZE = 100"

definition SPR_ERROR_DOMAIN :: "err \<Rightarrow> err" where
  "SPR_ERROR_DOMAIN domain = SPR_ERROR_DOMAIN_BASE + domain * SPR_ERRSPACE_SIZE"

definition SPR_ERR_FILESYS :: err where "SPR_ERR_FILESYS = SPR_ERROR_DOMAIN 1"
definition SPR_ERR_FILESYS_ABS_PATH :: err where
  "SPR_ERR_FILESYS_ABS_PATH = SPR_ERR_FILESYS + 1"
definition SPR_ERR_FILESYS_LONG_PATH :: err where
  "SPR_ERR_FILESYS_LONG_PATH = SPR_ERR_FILESYS + 2"

lemmas spr_codes = SPR_OK_def SPR_FAILED_def SPR_BUSY_def SPR_DONE_def SPR_ABORT_def
  SPR_DECLINED_def SPR_NOT_FOUND_def SPR_ERROR_DOMAIN_BASE_def SPR_ERRSPACE_SIZE_def
  SPR_ERROR_DOMAIN_def SPR_ERR_FILESYS_def SPR_ERR_FILESYS_ABS_PATH_def
  SPR_ERR_FILESYS_LONG_PATH_def

section \<open>Words\<close>

lemma unat_add_exact:
  fixes a b :: "'a::len word"
  assumes "unat a + unat b < 2 ^ LENGTH('a)"
  shows "unat (a + b) = unat a + unat b"
  using assms by (simp add: unat_word_ariths)

lemma unat_mult_exact:
  fixes a b :: "'a::len word"
  assumes "unat a * unat b < 2 ^ LENGTH('a)"
  shows "unat (a * b) = unat a * unat b"
  using assms by (simp add: unat_word_ariths)

lemma unat_diff_exact:
  fixes a b :: "'a::len word"
  assumes "unat b \<le> unat a"
  shows "unat (a - b) = unat a - unat b"
  using assms by (simp add: unat_sub word_le_nat_alt)

lemma unat_of_nat_exact:
  assumes "n < 2 ^ LENGTH('a::len)"
  shows "unat (of_nat n :: 'a word) = n"
  using assms by (simp add: unat_of_nat take_bit_nat_eq_self)

lemma and_single_bit: "x AND 2 ^ i = (if x AND 2 ^ i \<noteq> 0 then 2 ^ i else 0)" for x :: "'a::len word"
  by (auto simp: and_exp_eq_0_iff_not_bit intro!: bit_word_eqI simp: bit_simps)

text \<open>The alignment macro clears the low three bits of a word; on naturals that is
  rounding down to a multiple of eight.\<close>

lemma and_not_mask_shift: "x AND NOT (mask k) = push_bit k (drop_bit k x)" for x :: "'a::len word"
  by (rule bit_word_eqI) (auto simp: bit_simps)

lemma and_not_7: "x AND NOT 7 = x div 8 * 8" for x :: "64 word"
proof -
  have "(7::64 word) = mask 3" by (simp add: mask_eq_exp_minus_1)
  then show ?thesis
    by (simp only: and_not_mask_shift) (simp add: push_bit_eq_mult drop_bit_eq_div)
qed

lemma unat_and_not_7: "unat (x AND NOT 7) = unat x div 8 * 8" for x :: "64 word"
proof -
  have "unat x < 2 ^ 64" using unsigned_less [of x] by simp
  then have "unat x div 8 * 8 < 2 ^ 64" by (meson div_times_less_eq_dividend le_less_trans)
  then show ?thesis
    unfolding and_not_7 by (subst unat_mult_exact) (simp_all add: unat_div)
qed

section \<open>Options\<close>

lemma bind_SomeD: "Option.bind x f = Some z \<Longrightarrow> \<exists>y. x = Some y \<and> f y = Some z"
  by (cases x) auto

section \<open>Linked chains\<close>

text \<open>
  The list of objects reached from an address by following a link field until null. A
  chain is finite and never meets the same object twice, so a loop over it ends.
\<close>

primrec chain :: "(addr \<Rightarrow> addr) \<Rightarrow> addr \<Rightarrow> addr list \<Rightarrow> bool" where
  "chain nx a [] \<longleftrightarrow> a = NULL"
| "chain nx a (x # xs) \<longleftrightarrow> x = a \<and> a \<noteq> NULL \<and> chain nx (nx a) xs"

lemma chain_NULL [simp]: "chain nx 0 xs \<longleftrightarrow> xs = []"
  by (cases xs) auto

lemma chain_nonnull: "a \<noteq> NULL \<Longrightarrow> chain nx a xs \<longleftrightarrow> (\<exists>ys. xs = a # ys \<and> chain nx (nx a) ys)"
  by (cases xs) auto

lemma chain_deterministic: "chain nx a xs \<Longrightarrow> chain nx a ys \<Longrightarrow> xs = ys"
proof (induction xs arbitrary: a ys)
  case (Cons x xs)
  then show ?case by (cases ys) auto
qed (auto simp: chain_NULL)

lemma chain_nonzero: "chain nx a xs \<Longrightarrow> x \<in> set xs \<Longrightarrow> x \<noteq> NULL"
  by (induction xs arbitrary: a) auto

lemma chain_suffix: "chain nx a (ys @ x # zs) \<Longrightarrow> chain nx (nx x) zs"
  by (induction ys arbitrary: a) auto

lemma chain_distinct: "chain nx a xs \<Longrightarrow> distinct xs"
proof (induction xs arbitrary: a)
  case (Cons x xs)
  have "x \<notin> set xs"
  proof
    assume "x \<in> set xs"
    then obtain us vs where split: "xs = us @ x # vs" by (auto dest: split_list)
    from Cons.prems split have "chain nx (nx x) (us @ x # vs)" by auto
    moreover from this have "chain nx (nx x) vs" by (rule chain_suffix)
    ultimately have "us @ x # vs = vs" by (rule chain_deterministic)
    then have "length (us @ x # vs) = length vs" by (rule arg_cong)
    then show False by simp
  qed
  with Cons show ?case by auto
qed simp

lemma chain_cong: "(\<And>x. x \<in> set xs \<Longrightarrow> nx x = ny x) \<Longrightarrow> chain nx a xs = chain ny a xs"
  by (induction xs arbitrary: a) auto

lemma chain_update_other: "y \<notin> set xs \<Longrightarrow> chain (nx(y := v)) a xs = chain nx a xs"
  by (rule chain_cong) auto

text \<open>A first-fit search answers the address found, or null.\<close>

definition or_null :: "addr option \<Rightarrow> addr" where
  "or_null r = (case r of None \<Rightarrow> NULL | Some x \<Rightarrow> x)"

lemma or_null_simps [simp]: "or_null None = NULL" "or_null (Some x) = x"
  by (simp_all add: or_null_def)

end
