(* ===== verification/Spr_Memory.thy ===== *)
theory Spr_Memory
  imports Spr_Prelude
begin

text \<open>
  The process memory the library works on, the build configuration, and the operations of
  \<^verbatim>\<open>lib/memory/spr_memory.c\<close>.

  The memory is typed by structure: for every C structure of the library there is one map
  from base addresses to records whose fields are the structure's fields, in the order of
  the C declaration. The maps are total, so a field that was never written holds some
  arbitrary value, as fresh or recycled C memory does. \<open>blocks\<close> is the list of live
  blocks obtained from \<open>malloc\<close> or \<open>mmap\<close>; an access to a structure is defined only if
  its address is not null and, when \<open>strict_mem\<close> is set, lies in a live block. This is the
  memory of the C standard and of \<open>munmap\<close>. Without \<open>strict_mem\<close> released memory would stay
  readable with its old content, which no documentation promises: only a statement that something goes
  wrong even then (\<open>destroyed_child_is_destroyed_again\<close>) is made for it, and no guarantee of the
  development rests on it.
\<close>

section \<open>Structures\<close>

text \<open>\<open>spr_cleanup_handler_t\<close>: \<open>spr_free\<close> itself, which \<open>spr_palloc\<close> registers,
  or a function of the client, named by a number.\<close>

datatype handler = H_spr_free | H_user nat

text \<open>\<open>struct spr_memnode_s\<close>, \<open>struct spr_cleanup_node_s\<close> and
  \<open>struct spr_pool_s\<close> of \<^verbatim>\<open>lib/memory/spr_pool.c\<close>.\<close>

record memnode =
  mn_next :: addr
  mn_begin :: addr
  mn_first_avail :: addr
  mn_size :: size
  mn_size_avail :: size
  mn_dealloc_size :: size

record cleanup_node =
  cn_next :: addr
  cn_data :: addr
  cn_handler :: handler

record pool =
  pl_nodes :: "nat \<Rightarrow> addr"
  pl_parent :: addr
  pl_brother :: addr
  pl_child :: addr
  pl_cleanups :: addr
  pl_free_cleanups :: addr
  pl_mutex :: addr
  pl_owner :: tid

text \<open>\<open>spr_list_node_s\<close> and \<open>spr_list_s\<close> of \<^verbatim>\<open>include/spr_list.h\<close>, and
  \<open>spr_array_s\<close> of \<^verbatim>\<open>include/spr_array.h\<close>.\<close>

record list_node =
  ln_next :: addr
  ln_prev :: addr
  ln_data :: addr

record slist =
  sl_pool :: addr
  sl_head :: addr
  sl_tail :: addr
  sl_free_nodes :: addr
  sl_size :: size
  sl_capacity :: size

record sarray =
  ar_data :: addr
  ar_size :: size
  ar_n_total :: size
  ar_n_current :: size

text \<open>The state of a POSIX mutex: its type, its process sharing, its owner and the number
  of locks the owner holds (more than one only for a recursive mutex).\<close>

record pthread_mutex =
  mx_recursive :: bool
  mx_shared :: bool
  mx_owner :: "tid option"
  mx_count :: nat

definition zero_memnode :: memnode where
  "zero_memnode = \<lparr>mn_next = NULL, mn_begin = NULL, mn_first_avail = NULL,
     mn_size = 0, mn_size_avail = 0, mn_dealloc_size = 0\<rparr>"

definition zero_cleanup_node :: cleanup_node where
  "zero_cleanup_node = \<lparr>cn_next = NULL, cn_data = NULL, cn_handler = H_user 0\<rparr>"

definition zero_pool :: pool where
  "zero_pool = \<lparr>pl_nodes = (\<lambda>_. NULL), pl_parent = NULL, pl_brother = NULL,
     pl_child = NULL, pl_cleanups = NULL, pl_free_cleanups = NULL, pl_mutex = NULL,
     pl_owner = 0\<rparr>"

definition zero_list_node :: list_node where
  "zero_list_node = \<lparr>ln_next = NULL, ln_prev = NULL, ln_data = NULL\<rparr>"

definition zero_slist :: slist where
  "zero_slist = \<lparr>sl_pool = NULL, sl_head = NULL, sl_tail = NULL, sl_free_nodes = NULL,
     sl_size = 0, sl_capacity = 0\<rparr>"

definition zero_sarray :: sarray where
  "zero_sarray = \<lparr>ar_data = NULL, ar_size = 0, ar_n_total = 0, ar_n_current = 0\<rparr>"

definition zero_mutex :: pthread_mutex where
  "zero_mutex = \<lparr>mx_recursive = False, mx_shared = False, mx_owner = None, mx_count = 0\<rparr>"

section \<open>Memory and environment\<close>

record mem =
  blocks :: "(addr \<times> size) list"
  memory_counter :: size
  errno :: err
  bytes :: "addr \<Rightarrow> byte"
  mnodes :: "addr \<Rightarrow> memnode"
  pools :: "addr \<Rightarrow> pool"
  cnodes :: "addr \<Rightarrow> cleanup_node"
  mutexes :: "addr \<Rightarrow> pthread_mutex"
  lists :: "addr \<Rightarrow> slist"
  lnodes :: "addr \<Rightarrow> list_node"
  arrays :: "addr \<Rightarrow> sarray"
  calls :: "(handler \<times> addr) list"

text \<open>The calls of the POSIX thread library whose return codes the environment decides.\<close>

datatype pth_call = Mutexattr_init | Mutexattr_setpshared | Mutexattr_settype | Mutex_init

text \<open>
  The environment: the build options (\<^verbatim>\<open>cmake/spr_options.cmake\<close>), what
  \<open>sysconf(_SC_PAGESIZE)\<close> answers where it exists, the calling thread, the return codes of
  the thread library, and the system allocator: from the live blocks and a size it gives
  the address of a new block, or null.
\<close>

record env =
  sc_pagesize :: "size option"
  thread_safety :: bool
  uses_mmap :: bool
  strict_mem :: bool
  sys_alloc :: "(addr \<times> size) list \<Rightarrow> size \<Rightarrow> addr"
  current_thread :: tid
  pth_rc :: "pth_call \<Rightarrow> int"

definition ENOMEM :: err where "ENOMEM = 12"

section \<open>Access to structures\<close>

definition in_range :: "addr \<Rightarrow> size \<Rightarrow> addr \<Rightarrow> bool" where
  "in_range a n x \<longleftrightarrow> unat a \<le> unat x \<and> unat x < unat a + unat n"

definition accessible :: "env \<Rightarrow> (addr \<times> size) list \<Rightarrow> addr \<Rightarrow> bool" where
  "accessible e bs a \<longleftrightarrow> a \<noteq> NULL \<and>
     (strict_mem e \<longrightarrow> list_ex (\<lambda>(b, n). in_range b n a) bs)"

lemma accessible_thread [simp]: "accessible (e\<lparr>current_thread := t\<rparr>) bs x = accessible e bs x"
  by (simp add: accessible_def)

definition load_node :: "env \<Rightarrow> addr \<Rightarrow> mem \<Rightarrow> memnode option" where
  "load_node e a m = (if accessible e (blocks m) a then Some (mnodes m a) else None)"

definition upd_node :: "env \<Rightarrow> addr \<Rightarrow> (memnode \<Rightarrow> memnode) \<Rightarrow> mem \<Rightarrow> mem option" where
  "upd_node e a f m = (if accessible e (blocks m) a
     then Some (m\<lparr>mnodes := (mnodes m)(a := f (mnodes m a))\<rparr>) else None)"

definition load_pool :: "env \<Rightarrow> addr \<Rightarrow> mem \<Rightarrow> pool option" where
  "load_pool e a m = (if accessible e (blocks m) a then Some (pools m a) else None)"

definition upd_pool :: "env \<Rightarrow> addr \<Rightarrow> (pool \<Rightarrow> pool) \<Rightarrow> mem \<Rightarrow> mem option" where
  "upd_pool e a f m = (if accessible e (blocks m) a
     then Some (m\<lparr>pools := (pools m)(a := f (pools m a))\<rparr>) else None)"

definition load_cnode :: "env \<Rightarrow> addr \<Rightarrow> mem \<Rightarrow> cleanup_node option" where
  "load_cnode e a m = (if accessible e (blocks m) a then Some (cnodes m a) else None)"

definition upd_cnode ::
  "env \<Rightarrow> addr \<Rightarrow> (cleanup_node \<Rightarrow> cleanup_node) \<Rightarrow> mem \<Rightarrow> mem option" where
  "upd_cnode e a f m = (if accessible e (blocks m) a
     then Some (m\<lparr>cnodes := (cnodes m)(a := f (cnodes m a))\<rparr>) else None)"

definition load_list :: "env \<Rightarrow> addr \<Rightarrow> mem \<Rightarrow> slist option" where
  "load_list e a m = (if accessible e (blocks m) a then Some (lists m a) else None)"

definition upd_list :: "env \<Rightarrow> addr \<Rightarrow> (slist \<Rightarrow> slist) \<Rightarrow> mem \<Rightarrow> mem option" where
  "upd_list e a f m = (if accessible e (blocks m) a
     then Some (m\<lparr>lists := (lists m)(a := f (lists m a))\<rparr>) else None)"

definition load_lnode :: "env \<Rightarrow> addr \<Rightarrow> mem \<Rightarrow> list_node option" where
  "load_lnode e a m = (if accessible e (blocks m) a then Some (lnodes m a) else None)"

definition upd_lnode ::
  "env \<Rightarrow> addr \<Rightarrow> (list_node \<Rightarrow> list_node) \<Rightarrow> mem \<Rightarrow> mem option" where
  "upd_lnode e a f m = (if accessible e (blocks m) a
     then Some (m\<lparr>lnodes := (lnodes m)(a := f (lnodes m a))\<rparr>) else None)"

definition load_array :: "env \<Rightarrow> addr \<Rightarrow> mem \<Rightarrow> sarray option" where
  "load_array e a m = (if accessible e (blocks m) a then Some (arrays m a) else None)"

definition upd_array :: "env \<Rightarrow> addr \<Rightarrow> (sarray \<Rightarrow> sarray) \<Rightarrow> mem \<Rightarrow> mem option" where
  "upd_array e a f m = (if accessible e (blocks m) a
     then Some (m\<lparr>arrays := (arrays m)(a := f (arrays m a))\<rparr>) else None)"

lemmas mem_access = load_node_def upd_node_def load_pool_def upd_pool_def load_cnode_def
  upd_cnode_def load_list_def upd_list_def load_lnode_def upd_lnode_def load_array_def
  upd_array_def

section \<open>Alignment, raw memory (include/spr_memory.h)\<close>

definition SPR_ALIGN_SIZE :: size where "SPR_ALIGN_SIZE = 8"

definition spr_align :: "size \<Rightarrow> size \<Rightarrow> size" where
  "spr_align p b = (p + (b - 1)) AND NOT (b - 1)"

definition spr_align_default :: "size \<Rightarrow> size" where
  "spr_align_default p = spr_align p SPR_ALIGN_SIZE"

text \<open>\<open>memset(buf, 0, n)\<close>: every byte of the range and every structure that starts in it
  becomes zero. The library only clears whole structures.\<close>

definition spr_memzero :: "addr \<Rightarrow> size \<Rightarrow> mem \<Rightarrow> mem" where
  "spr_memzero a n m = m\<lparr>
     bytes := (\<lambda>x. if in_range a n x then 0 else bytes m x),
     mnodes := (\<lambda>x. if in_range a n x then zero_memnode else mnodes m x),
     pools := (\<lambda>x. if in_range a n x then zero_pool else pools m x),
     cnodes := (\<lambda>x. if in_range a n x then zero_cleanup_node else cnodes m x),
     mutexes := (\<lambda>x. if in_range a n x then zero_mutex else mutexes m x),
     lists := (\<lambda>x. if in_range a n x then zero_slist else lists m x),
     lnodes := (\<lambda>x. if in_range a n x then zero_list_node else lnodes m x),
     arrays := (\<lambda>x. if in_range a n x then zero_sarray else arrays m x)\<rparr>"

section \<open>Allocation (lib/memory/spr_memory.c)\<close>

definition spr_malloc :: "env \<Rightarrow> size \<Rightarrow> mem \<Rightarrow> addr \<times> mem" where
  "spr_malloc e n m =
     (let p = sys_alloc e (blocks m) n in
      if p \<noteq> NULL
      then (p, m\<lparr>blocks := (p, n) # blocks m, memory_counter := memory_counter m + n\<rparr>)
      else (NULL, m\<lparr>errno := ENOMEM\<rparr>))"

definition spr_calloc :: "env \<Rightarrow> size \<Rightarrow> mem \<Rightarrow> addr \<times> mem" where
  "spr_calloc e n m =
     (case spr_malloc e n m of (p, m) \<Rightarrow>
        if p = NULL then (p, m) else (p, spr_memzero p n m))"

definition spr_free :: "addr \<Rightarrow> mem \<Rightarrow> mem option" where
  "spr_free a m =
     (if a = NULL then Some m
      else if a \<in> fst ` set (blocks m)
      then Some (m\<lparr>blocks := filter (\<lambda>b. fst b \<noteq> a) (blocks m)\<rparr>)
      else None)"

definition spr_get_memory_counter :: "mem \<Rightarrow> size" where
  "spr_get_memory_counter m = memory_counter m"

definition spr_explicit_memzero :: "addr \<Rightarrow> size \<Rightarrow> mem \<Rightarrow> mem" where
  "spr_explicit_memzero a n m = spr_memzero a n m"

definition spr_get_page_size :: "env \<Rightarrow> size" where
  "spr_get_page_size e = (case sc_pagesize e of Some n \<Rightarrow> n | None \<Rightarrow> 4096)"

text \<open>The Windows branch, for the page size \<open>GetSystemInfo\<close> answers.\<close>

definition spr_get_page_size_win32 :: "32 word \<Rightarrow> size" where
  "spr_get_page_size_win32 dwPageSize = ucast dwPageSize"

text \<open>\<open>mmap\<close> of anonymous memory and \<open>munmap\<close>, which the pool uses in the mmap build.\<close>

definition sys_mmap :: "env \<Rightarrow> size \<Rightarrow> mem \<Rightarrow> addr \<times> mem" where
  "sys_mmap e n m =
     (let p = sys_alloc e (blocks m) n in
      if p \<noteq> NULL then (p, m\<lparr>blocks := (p, n) # blocks m\<rparr>)
      else (NULL, m\<lparr>errno := ENOMEM\<rparr>))"

definition sys_munmap :: "addr \<Rightarrow> size \<Rightarrow> mem \<Rightarrow> mem option" where
  "sys_munmap a n m =
     (if (a, n) \<in> set (blocks m)
      then Some (m\<lparr>blocks := filter (\<lambda>b. fst b \<noteq> a) (blocks m)\<rparr>)
      else None)"

end
