(* ===== verification/Spr_Mutex.thy ===== *)
theory Spr_Mutex
  imports Spr_Memory
begin

text \<open>
  \<^verbatim>\<open>lib/thread/spr_mutex.c\<close> (POSIX branch) over POSIX mutexes. The mutex calls of
  the thread library follow POSIX: they return an error number and leave \<open>errno\<close> alone.
  Locking a mutex another thread holds, or a non-recursive one the caller holds, does not
  return (\<open>None\<close>); unlocking a non-recursive mutex the caller does not hold is undefined.
\<close>

section \<open>Parameters (include/spr_mutex.h)\<close>

type_synonym bitfield = "32 word"

definition SPR_MUTEX_SHARED :: bitfield where "SPR_MUTEX_SHARED = 0x1"
definition SPR_MUTEX_PRIVATE :: bitfield where "SPR_MUTEX_PRIVATE = 0x2"
definition SPR_MUTEX_RECURSIVE :: bitfield where "SPR_MUTEX_RECURSIVE = 0x4"
definition SPR_MUTEX_NONRECURSIVE :: bitfield where "SPR_MUTEX_NONRECURSIVE = 0x8"
definition SPR_MUTEX_DEFAULT :: bitfield where "SPR_MUTEX_DEFAULT = 0x10"

lemmas mutex_params = SPR_MUTEX_SHARED_def SPR_MUTEX_PRIVATE_def SPR_MUTEX_RECURSIVE_def
  SPR_MUTEX_NONRECURSIVE_def SPR_MUTEX_DEFAULT_def

text \<open>\<^verbatim>\<open>include/spr_bitfield.h\<close>: set, unset and test of bits.\<close>

definition spr_bit_set :: "bitfield \<Rightarrow> bitfield \<Rightarrow> bitfield" where
  "spr_bit_set x b = x OR b"

definition spr_bit_unset :: "bitfield \<Rightarrow> bitfield \<Rightarrow> bitfield" where
  "spr_bit_unset x b = x AND NOT b"

definition spr_bit_is_set :: "bitfield \<Rightarrow> bitfield \<Rightarrow> bool" where
  "spr_bit_is_set x b \<longleftrightarrow> x AND b \<noteq> 0"

section \<open>The POSIX calls\<close>

definition EPERM :: int where "EPERM = 1"
definition EBUSY :: int where "EBUSY = 16"

definition pthread_mutex_lock :: "env \<Rightarrow> addr \<Rightarrow> mem \<Rightarrow> (int \<times> mem) option" where
  "pthread_mutex_lock e a m =
     (if \<not> accessible e (blocks m) a then None
      else let x = mutexes m a in
        case mx_owner x of
          None \<Rightarrow> Some (0, m\<lparr>mutexes := (mutexes m)
            (a := x\<lparr>mx_owner := Some (current_thread e), mx_count := 1\<rparr>)\<rparr>)
        | Some t \<Rightarrow>
            if t = current_thread e \<and> mx_recursive x
            then Some (0, m\<lparr>mutexes := (mutexes m)(a := x\<lparr>mx_count := mx_count x + 1\<rparr>)\<rparr>)
            else None)"

definition pthread_mutex_trylock :: "env \<Rightarrow> addr \<Rightarrow> mem \<Rightarrow> (int \<times> mem) option" where
  "pthread_mutex_trylock e a m =
     (if \<not> accessible e (blocks m) a then None
      else let x = mutexes m a in
        case mx_owner x of
          None \<Rightarrow> Some (0, m\<lparr>mutexes := (mutexes m)
            (a := x\<lparr>mx_owner := Some (current_thread e), mx_count := 1\<rparr>)\<rparr>)
        | Some t \<Rightarrow>
            if t = current_thread e \<and> mx_recursive x
            then Some (0, m\<lparr>mutexes := (mutexes m)(a := x\<lparr>mx_count := mx_count x + 1\<rparr>)\<rparr>)
            else Some (EBUSY, m))"

definition pthread_mutex_unlock :: "env \<Rightarrow> addr \<Rightarrow> mem \<Rightarrow> (int \<times> mem) option" where
  "pthread_mutex_unlock e a m =
     (if \<not> accessible e (blocks m) a then None
      else let x = mutexes m a in
        if mx_owner x = Some (current_thread e)
        then Some (0, m\<lparr>mutexes := (mutexes m)
          (a := (if mx_count x \<le> 1 then x\<lparr>mx_owner := None, mx_count := 0\<rparr>
                 else x\<lparr>mx_count := mx_count x - 1\<rparr>))\<rparr>)
        else if mx_recursive x then Some (EPERM, m)
        else None)"

section \<open>The library's operations\<close>

text \<open>The attribute object, with the defaults of \<open>pthread_mutexattr_init\<close>.\<close>

record mutexattr =
  at_shared :: bool
  at_recursive :: bool

definition default_attr :: mutexattr where
  "default_attr = \<lparr>at_shared = False, at_recursive = False\<rparr>"

text \<open>The two attribute steps of \<open>spr_mutex_init\<close>; \<open>None\<close> when the call fails.\<close>

definition attr_pshared :: "env \<Rightarrow> bitfield \<Rightarrow> mutexattr \<Rightarrow> mutexattr option" where
  "attr_pshared e params attr =
     (if spr_bit_is_set params SPR_MUTEX_SHARED then
        if pth_rc e Mutexattr_setpshared \<noteq> 0 then None else Some (attr\<lparr>at_shared := True\<rparr>)
      else if spr_bit_is_set params SPR_MUTEX_PRIVATE then
        if pth_rc e Mutexattr_setpshared \<noteq> 0 then None else Some (attr\<lparr>at_shared := False\<rparr>)
      else Some attr)"

definition attr_settype :: "env \<Rightarrow> bitfield \<Rightarrow> mutexattr \<Rightarrow> mutexattr option" where
  "attr_settype e params attr =
     (if spr_bit_is_set params SPR_MUTEX_RECURSIVE then
        if pth_rc e Mutexattr_settype \<noteq> 0 then None else Some (attr\<lparr>at_recursive := True\<rparr>)
      else Some attr)"

definition spr_mutex_init :: "env \<Rightarrow> addr \<Rightarrow> bitfield \<Rightarrow> mem \<Rightarrow> (err \<times> mem) option" where
  "spr_mutex_init e mutex params m =
     (if pth_rc e Mutexattr_init \<noteq> 0 then Some (errno m, m)
      else case attr_pshared e params default_attr of
        None \<Rightarrow> Some (errno m, m)
      | Some attr \<Rightarrow>
         (case attr_settype e params attr of
            None \<Rightarrow> Some (errno m, m)
          | Some attr \<Rightarrow>
             if \<not> accessible e (blocks m) mutex then None
             else if pth_rc e Mutex_init \<noteq> 0 then Some (errno m, m)
             else Some (SPR_OK, m\<lparr>mutexes := (mutexes m)(mutex :=
               \<lparr>mx_recursive = at_recursive attr, mx_shared = at_shared attr,
                mx_owner = None, mx_count = 0\<rparr>)\<rparr>)))"

definition spr_mutex_lock :: "env \<Rightarrow> addr \<Rightarrow> mem \<Rightarrow> (err \<times> mem) option" where
  "spr_mutex_lock e mutex m = do {
     (rc, m) \<leftarrow> pthread_mutex_lock e mutex m;
     Some (if rc \<noteq> 0 then errno m else SPR_OK, m) }"

definition spr_mutex_trylock :: "env \<Rightarrow> addr \<Rightarrow> mem \<Rightarrow> (err \<times> mem) option" where
  "spr_mutex_trylock e mutex m = do {
     (rc, m) \<leftarrow> pthread_mutex_trylock e mutex m;
     Some (if rc \<noteq> 0 then SPR_BUSY else SPR_OK, m) }"

definition spr_mutex_unlock :: "env \<Rightarrow> addr \<Rightarrow> mem \<Rightarrow> (err \<times> mem) option" where
  "spr_mutex_unlock e mutex m = do {
     (rc, m) \<leftarrow> pthread_mutex_unlock e mutex m;
     Some (if rc \<noteq> 0 then errno m else SPR_OK, m) }"

text \<open>Destroying a locked mutex is undefined; afterwards the object has some content, \<open>junk\<close>.\<close>

definition spr_mutex_fini :: "env \<Rightarrow> pthread_mutex \<Rightarrow> addr \<Rightarrow> mem \<Rightarrow> mem option" where
  "spr_mutex_fini e junk mutex m =
     (if accessible e (blocks m) mutex \<and> mx_owner (mutexes m mutex) = None
      then Some (m\<lparr>mutexes := (mutexes m)(mutex := junk)\<rparr>) else None)"

lemmas mutex_defs = spr_mutex_lock_def spr_mutex_unlock_def spr_mutex_trylock_def
  pthread_mutex_lock_def pthread_mutex_unlock_def pthread_mutex_trylock_def

end
