(* ===== verification/Spr_Pool.thy ===== *)
theory Spr_Pool
  imports Spr_Mutex
begin

text \<open>
  \<^verbatim>\<open>lib/memory/spr_pool.c\<close>: the region allocator. A pool keeps its memory nodes in
  twenty slots by size in pages, hands out memory by moving a node's \<open>first_avail\<close>
  forward, runs registered cleanups, and forms a tree with its child pools. Every function
  below follows the C function of the same name, on the typed memory of
  \<^verbatim>\<open>Spr_Memory\<close>; the \<open>#if SPR_POOL_THREAD_SAFETY\<close> parts are guarded by the flag
  of the environment.
\<close>

section \<open>Sizes\<close>

definition SPR_MIN_ORDER :: nat where "SPR_MIN_ORDER = 1"
definition SPR_MIN_ALLOC :: size where "SPR_MIN_ALLOC = push_bit SPR_MIN_ORDER SPR_ALIGN_SIZE"
definition SPR_MAX_POOL_SLOT :: nat where "SPR_MAX_POOL_SLOT = 20"

text \<open>The sizes of the structures on the LP64 build: six words in a memnode, 23 pointers
  plus two cleanup pointers in a pool and two more words with thread safety, three words in
  a cleanup node, and the 40 bytes of a glibc mutex.\<close>

definition sizeof_memnode :: size where "sizeof_memnode = 48"
definition sizeof_cleanup_node :: size where "sizeof_cleanup_node = 24"
definition sizeof_pool :: "env \<Rightarrow> size" where
  "sizeof_pool e = (if thread_safety e then 216 else 200)"
definition sizeof_mutex :: size where "sizeof_mutex = 40"

definition SPR_SIZEOF_MEMNODE_T_ALIGN :: size where
  "SPR_SIZEOF_MEMNODE_T_ALIGN = spr_align_default sizeof_memnode"
definition SPR_SIZEOF_MEMPOOL_T_ALIGN :: "env \<Rightarrow> size" where
  "SPR_SIZEOF_MEMPOOL_T_ALIGN e = spr_align_default (sizeof_pool e)"
definition SPR_SIZEOF_MUTEX_T_ALIGN :: size where
  "SPR_SIZEOF_MUTEX_T_ALIGN = spr_align_default sizeof_mutex"

lemma size_constants [spr_size]:
  "SPR_SIZEOF_MEMNODE_T_ALIGN = 48"
  "SPR_SIZEOF_MEMPOOL_T_ALIGN e = (if thread_safety e then 216 else 200)"
  "SPR_SIZEOF_MUTEX_T_ALIGN = 40"
  "SPR_MIN_ALLOC = 16"
  by (simp_all add: SPR_SIZEOF_MEMNODE_T_ALIGN_def SPR_SIZEOF_MEMPOOL_T_ALIGN_def
    SPR_SIZEOF_MUTEX_T_ALIGN_def SPR_MIN_ALLOC_def SPR_MIN_ORDER_def spr_align_default_def
    spr_align_def SPR_ALIGN_SIZE_def sizeof_memnode_def sizeof_pool_def sizeof_mutex_def)

definition spr_align_allocation :: "size \<Rightarrow> size" where
  "spr_align_allocation n =
     (let align_size = spr_align_default n in
      if align_size < n then 0
      else if align_size < SPR_MIN_ALLOC then SPR_MIN_ALLOC
      else align_size)"

definition spr_get_npages :: "env \<Rightarrow> size \<Rightarrow> size" where
  "spr_get_npages e n =
     (let total_size = n + SPR_SIZEOF_MEMNODE_T_ALIGN in
      if total_size < spr_get_page_size e then 1
      else total_size div spr_get_page_size e + 1)"

section \<open>Memory nodes\<close>

definition spr_memnode_allocate :: "env \<Rightarrow> size \<Rightarrow> mem \<Rightarrow> (addr \<times> mem) option" where
  "spr_memnode_allocate e n m =
     (case (if uses_mmap e then sys_mmap e n m else spr_malloc e n m) of (a, m) \<Rightarrow>
       if a = NULL then Some (NULL, m)
       else do {
         m \<leftarrow> upd_node e a (\<lambda>_. \<lparr>mn_next = NULL,
           mn_begin = a + SPR_SIZEOF_MEMNODE_T_ALIGN,
           mn_first_avail = a + SPR_SIZEOF_MEMNODE_T_ALIGN,
           mn_size = n - SPR_SIZEOF_MEMNODE_T_ALIGN,
           mn_size_avail = n - SPR_SIZEOF_MEMNODE_T_ALIGN,
           mn_dealloc_size = n\<rparr>) m;
         Some (a, m) })"

definition spr_memnode_deallocate :: "env \<Rightarrow> addr \<Rightarrow> mem \<Rightarrow> mem option" where
  "spr_memnode_deallocate e node m =
     (if uses_mmap e
      then do { n \<leftarrow> load_node e node m; sys_munmap node (mn_dealloc_size n) m }
      else spr_free node m)"

section \<open>Locking\<close>

definition pool_lock :: "env \<Rightarrow> addr \<Rightarrow> mem \<Rightarrow> mem option" where
  "pool_lock e pool m =
     (if thread_safety e
      then do { p \<leftarrow> load_pool e pool m; (_, m) \<leftarrow> spr_mutex_lock e (pl_mutex p) m; Some m }
      else Some m)"

definition pool_unlock :: "env \<Rightarrow> addr \<Rightarrow> mem \<Rightarrow> mem option" where
  "pool_unlock e pool m =
     (if thread_safety e
      then do { p \<leftarrow> load_pool e pool m; (_, m) \<leftarrow> spr_mutex_unlock e (pl_mutex p) m; Some m }
      else Some m)"

section \<open>Creation\<close>

definition spr_pool_add_child :: "env \<Rightarrow> addr \<Rightarrow> addr \<Rightarrow> mem \<Rightarrow> mem option" where
  "spr_pool_add_child e parent new_child m = do {
     m \<leftarrow> upd_pool e new_child (pl_parent_update (\<lambda>_. parent)) m;
     p \<leftarrow> load_pool e parent m;
     if pl_child p \<noteq> NULL then do {
       let temp = pl_child p;
       m \<leftarrow> upd_pool e parent (pl_child_update (\<lambda>_. new_child)) m;
       upd_pool e new_child (pl_brother_update (\<lambda>_. temp)) m
     } else do {
       m \<leftarrow> upd_pool e parent (pl_child_update (\<lambda>_. new_child)) m;
       upd_pool e new_child (pl_brother_update (\<lambda>_. NULL)) m
     } }"

text \<open>The array \<open>nodes\<close> of a pool has twenty elements; another index is undefined.\<close>

definition get_slot :: "env \<Rightarrow> addr \<Rightarrow> nat \<Rightarrow> mem \<Rightarrow> addr option" where
  "get_slot e pool i m = do {
     p \<leftarrow> load_pool e pool m;
     if i < SPR_MAX_POOL_SLOT then Some (pl_nodes p i) else None }"

definition set_slot :: "env \<Rightarrow> addr \<Rightarrow> nat \<Rightarrow> addr \<Rightarrow> mem \<Rightarrow> mem option" where
  "set_slot e pool i a m =
     (if i < SPR_MAX_POOL_SLOT
      then upd_pool e pool (\<lambda>p. p\<lparr>pl_nodes := (pl_nodes p)(i := a)\<rparr>) m else None)"

text \<open>The part of \<open>spr_pool_create1\<close> between its two \<open>#if SPR_POOL_THREAD_SAFETY\<close>: a child
  shares its parent's mutex, a root pool carves one out of its node. The result is the
  status of \<open>spr_mutex_init\<close>.\<close>

definition create_mutex ::
  "env \<Rightarrow> addr \<Rightarrow> addr \<Rightarrow> addr \<Rightarrow> mem \<Rightarrow> (err \<times> mem) option" where
  "create_mutex e node pool parent m =
     (if \<not> thread_safety e then Some (SPR_OK, m)
      else if parent \<noteq> NULL then do {
        p \<leftarrow> load_pool e parent m;
        m \<leftarrow> upd_pool e pool
          (\<lambda>q. q\<lparr>pl_mutex := pl_mutex p, pl_owner := current_thread e\<rparr>) m;
        Some (SPR_OK, m) }
      else do {
        n \<leftarrow> load_node e node m;
        let mutex = mn_begin n;
        m \<leftarrow> upd_node e node (\<lambda>n. n\<lparr>mn_begin := mn_begin n + SPR_SIZEOF_MUTEX_T_ALIGN,
          mn_size := mn_size n - SPR_SIZEOF_MUTEX_T_ALIGN\<rparr>) m;
        (err, m) \<leftarrow> spr_mutex_init e mutex (SPR_MUTEX_SHARED OR SPR_MUTEX_RECURSIVE) m;
        if err \<noteq> SPR_OK then Some (err, m)
        else do {
          m \<leftarrow> upd_pool e pool
            (\<lambda>q. q\<lparr>pl_mutex := mutex, pl_owner := current_thread e\<rparr>) m;
          Some (SPR_OK, m) } })"

definition spr_pool_create1 ::
  "env \<Rightarrow> size \<Rightarrow> addr \<Rightarrow> mem \<Rightarrow> ((err + addr) \<times> mem) option" where
  "spr_pool_create1 e n parent m =
     (let align_size = spr_align_allocation n in
      if align_size = 0 then Some (Inl SPR_FAILED, m)
      else
        let align_size = align_size + SPR_SIZEOF_MEMPOOL_T_ALIGN e;
            npages = spr_get_npages e align_size;
            index = npages - 1 in
        if unat index > SPR_MAX_POOL_SLOT then Some (Inl SPR_FAILED, m)
        else do {
          (node, m) \<leftarrow> spr_memnode_allocate e (npages * spr_get_page_size e) m;
          if node = NULL then Some (Inl (errno m), m)
          else do {
            nd \<leftarrow> load_node e node m;
            let pool = mn_begin nd;
            let m = spr_memzero pool (sizeof_pool e) m;
            m \<leftarrow> upd_node e node (\<lambda>n. n\<lparr>mn_begin := mn_begin n + SPR_SIZEOF_MEMPOOL_T_ALIGN e,
              mn_size := mn_size n - SPR_SIZEOF_MEMPOOL_T_ALIGN e\<rparr>) m;
            (err, m) \<leftarrow> create_mutex e node pool parent m;
            if err \<noteq> SPR_OK then do {
              m \<leftarrow> spr_memnode_deallocate e node m;
              Some (Inl err, m) }
            else do {
              m \<leftarrow> upd_node e node (\<lambda>n. n\<lparr>mn_first_avail := mn_begin n,
                mn_size_avail := mn_size n\<rparr>) m;
              m \<leftarrow> set_slot e pool (unat index) node m;
              m \<leftarrow> upd_node e node (mn_next_update (\<lambda>_. NULL)) m;
              m \<leftarrow> (if parent \<noteq> NULL then spr_pool_add_child e parent pool m else Some m);
              Some (Inr pool, m) } } })"

definition spr_pool_create :: "env \<Rightarrow> size \<Rightarrow> addr \<Rightarrow> mem \<Rightarrow> (addr \<times> mem) option" where
  "spr_pool_create e n parent m = do {
     (r, m) \<leftarrow> spr_pool_create1 e n parent m;
     case r of Inl err \<Rightarrow> if err \<noteq> SPR_OK then Some (NULL, m) else None
     | Inr pool \<Rightarrow> Some (pool, m) }"

section \<open>Allocation\<close>

text \<open>The inner \<open>while\<close> of the search in \<open>spr_palloc\<close>: the first node of a slot with
  enough room, or null.\<close>

partial_function (option) find_node :: "env \<Rightarrow> addr \<Rightarrow> size \<Rightarrow> mem \<Rightarrow> addr option" where
  "find_node e node align_size m =
     (if node = NULL then Some NULL
      else do {
        n \<leftarrow> load_node e node m;
        if align_size \<le> mn_size_avail n then Some node
        else find_node e (mn_next n) align_size m })"

declare find_node.simps [code]

text \<open>The outer \<open>for\<close> over the slots from \<open>i\<close> up.\<close>

function find_slot :: "env \<Rightarrow> addr \<Rightarrow> nat \<Rightarrow> size \<Rightarrow> mem \<Rightarrow> addr option" where
  "find_slot e pool i align_size m =
     (if i < SPR_MAX_POOL_SLOT then do {
        a \<leftarrow> get_slot e pool i m;
        r \<leftarrow> find_node e a align_size m;
        if r \<noteq> NULL then Some r else find_slot e pool (Suc i) align_size m }
      else Some NULL)"
  by pat_completeness auto
termination
  by (relation "measure (\<lambda>(e, pool, i, n, m). SPR_MAX_POOL_SLOT - i)") auto

declare find_slot.simps [simp del]

text \<open>Handing out \<open>align_size\<close> bytes of a node.\<close>

definition take_from_node :: "env \<Rightarrow> addr \<Rightarrow> size \<Rightarrow> mem \<Rightarrow> (addr \<times> mem) option" where
  "take_from_node e node align_size m = do {
     n \<leftarrow> load_node e node m;
     m \<leftarrow> upd_node e node (\<lambda>n. n\<lparr>mn_size_avail := mn_size_avail n - align_size,
       mn_first_avail := mn_first_avail n + align_size\<rparr>) m;
     Some (mn_first_avail n, m) }"

text \<open>\<open>spr_palloc\<close> after the test for large requests, without the locking: the search,
  and a new node when the search fails. Null when no node could be allocated.\<close>

definition palloc_from_nodes ::
  "env \<Rightarrow> addr \<Rightarrow> size \<Rightarrow> size \<Rightarrow> mem \<Rightarrow> (addr \<times> mem) option" where
  "palloc_from_nodes e pool align_size npages m = do {
     node \<leftarrow> find_slot e pool (unat (npages - 1)) align_size m;
     if node \<noteq> NULL then take_from_node e node align_size m
     else do {
       (node, m) \<leftarrow> spr_memnode_allocate e (npages * spr_get_page_size e) m;
       if node = NULL then Some (NULL, m)
       else do {
         temp \<leftarrow> get_slot e pool (unat (npages - 1)) m;
         m \<leftarrow> set_slot e pool (unat (npages - 1)) node m;
         m \<leftarrow> upd_node e node (mn_next_update (\<lambda>_. temp)) m;
         take_from_node e node align_size m } } }"

text \<open>\<open>spr_palloc\<close> and \<open>spr_pool_cleanup_add1\<close> call each other: a large request is
  forwarded to \<open>malloc\<close> and registered for \<open>spr_free\<close>, which needs a cleanup node, which
  is a small request. The first argument bounds the depth of these calls: a large request
  needs three (palloc, cleanup_add, palloc of the cleanup node).\<close>

fun palloc_depth :: "nat \<Rightarrow> env \<Rightarrow> addr \<Rightarrow> size \<Rightarrow> mem \<Rightarrow> (addr \<times> mem) option"
and cleanup_add_depth ::
  "nat \<Rightarrow> env \<Rightarrow> addr \<Rightarrow> addr \<Rightarrow> handler \<Rightarrow> mem \<Rightarrow> mem option" where
  "palloc_depth 0 e pool n m = None"
| "palloc_depth (Suc d) e pool n m =
     (let align_size = spr_align_allocation n in
      if align_size = 0 then do { m \<leftarrow> pool_unlock e pool m; Some (NULL, m) }
      else
        let npages = spr_get_npages e align_size in
        if unat (npages - 1) > SPR_MAX_POOL_SLOT then
          (case spr_malloc e align_size m of (a, m) \<Rightarrow> do {
             m \<leftarrow> (if a \<noteq> NULL then cleanup_add_depth d e pool a H_spr_free m else Some m);
             m \<leftarrow> pool_unlock e pool m;
             Some (a, m) })
        else do {
          m \<leftarrow> pool_lock e pool m;
          (a, m) \<leftarrow> palloc_from_nodes e pool align_size npages m;
          m \<leftarrow> pool_unlock e pool m;
          Some (a, m) })"
| "cleanup_add_depth d e pool data h m = do {
     m \<leftarrow> pool_lock e pool m;
     p \<leftarrow> load_pool e pool m;
     (node, m) \<leftarrow>
       (if pl_free_cleanups p \<noteq> NULL then do {
          n \<leftarrow> load_cnode e (pl_free_cleanups p) m;
          m \<leftarrow> upd_pool e pool (pl_free_cleanups_update (\<lambda>_. cn_next n)) m;
          Some (pl_free_cleanups p, m) }
        else (case d of 0 \<Rightarrow> None | Suc d \<Rightarrow> palloc_depth d e pool sizeof_cleanup_node m));
     p \<leftarrow> load_pool e pool m;
     m \<leftarrow> upd_cnode e node (\<lambda>_. \<lparr>cn_next = pl_cleanups p, cn_data = data, cn_handler = h\<rparr>) m;
     m \<leftarrow> upd_pool e pool (pl_cleanups_update (\<lambda>_. node)) m;
     pool_unlock e pool m }"

definition spr_palloc :: "env \<Rightarrow> addr \<Rightarrow> size \<Rightarrow> mem \<Rightarrow> (addr \<times> mem) option" where
  "spr_palloc e pool n m = palloc_depth 3 e pool n m"

definition spr_pool_cleanup_add1 ::
  "env \<Rightarrow> addr \<Rightarrow> addr \<Rightarrow> handler \<Rightarrow> mem \<Rightarrow> mem option" where
  "spr_pool_cleanup_add1 e pool data h m = cleanup_add_depth 2 e pool data h m"

definition spr_pcalloc :: "env \<Rightarrow> addr \<Rightarrow> size \<Rightarrow> mem \<Rightarrow> (addr \<times> mem) option" where
  "spr_pcalloc e pool n m = do {
     (a, m) \<leftarrow> spr_palloc e pool n m;
     Some (a, if a \<noteq> NULL then spr_memzero a n m else m) }"

section \<open>Cleanups\<close>

text \<open>Calling a handler: \<open>spr_free\<close> releases its argument; the effect of a client's
  function lies outside the library and is recorded in \<open>calls\<close>.\<close>

definition call_handler :: "handler \<Rightarrow> addr \<Rightarrow> mem \<Rightarrow> mem option" where
  "call_handler h data m = do {
     m \<leftarrow> (case h of H_spr_free \<Rightarrow> spr_free data m | H_user _ \<Rightarrow> Some m);
     Some (m\<lparr>calls := calls m @ [(h, data)]\<rparr>) }"

partial_function (option) run_all_loop :: "env \<Rightarrow> addr \<Rightarrow> addr \<Rightarrow> mem \<Rightarrow> mem option" where
  "run_all_loop e pool temp1 m =
     (if temp1 = NULL then Some m
      else do {
        n \<leftarrow> load_cnode e temp1 m;
        m \<leftarrow> call_handler (cn_handler n) (cn_data n) m;
        p \<leftarrow> load_pool e pool m;
        m \<leftarrow> upd_cnode e temp1 (cn_next_update (\<lambda>_. pl_free_cleanups p)) m;
        m \<leftarrow> upd_pool e pool (pl_free_cleanups_update (\<lambda>_. temp1)) m;
        run_all_loop e pool (cn_next n) m })"

declare run_all_loop.simps [code]

definition spr_pool_cleanup_run_all :: "env \<Rightarrow> addr \<Rightarrow> mem \<Rightarrow> mem option" where
  "spr_pool_cleanup_run_all e pool m = do {
     p \<leftarrow> load_pool e pool m;
     m \<leftarrow> run_all_loop e pool (pl_cleanups p) m;
     upd_pool e pool (pl_cleanups_update (\<lambda>_. NULL)) m }"

text \<open>The search loop of \<open>spr_pool_cleanup_run1\<close> and \<open>spr_pool_cleanup_remove1\<close>: the
  first node with this data and handler, or null, and the node before it.\<close>

partial_function (option) find_cleanup ::
  "env \<Rightarrow> addr \<Rightarrow> addr \<Rightarrow> addr \<Rightarrow> handler \<Rightarrow> mem \<Rightarrow> (addr \<times> addr) option" where
  "find_cleanup e node prev data h m =
     (if node = NULL then Some (NULL, prev)
      else do {
        n \<leftarrow> load_cnode e node m;
        if cn_data n = data \<and> cn_handler n = h then Some (node, prev)
        else find_cleanup e (cn_next n) node data h m })"

declare find_cleanup.simps [code]

text \<open>Their common tail: unlink the node and reserve it on the free list.\<close>

definition unlink_cleanup :: "env \<Rightarrow> addr \<Rightarrow> addr \<Rightarrow> addr \<Rightarrow> mem \<Rightarrow> mem option" where
  "unlink_cleanup e pool node prev m = do {
     p \<leftarrow> load_pool e pool m;
     n \<leftarrow> load_cnode e node m;
     m \<leftarrow> (if pl_cleanups p = node
            then upd_pool e pool (pl_cleanups_update (\<lambda>_. cn_next n)) m
            else upd_cnode e prev (cn_next_update (\<lambda>_. cn_next n)) m);
     p \<leftarrow> load_pool e pool m;
     m \<leftarrow> upd_cnode e node (cn_next_update (\<lambda>_. pl_free_cleanups p)) m;
     upd_pool e pool (pl_free_cleanups_update (\<lambda>_. node)) m }"

definition spr_pool_cleanup_run1 ::
  "env \<Rightarrow> addr \<Rightarrow> addr \<Rightarrow> handler \<Rightarrow> mem \<Rightarrow> mem option" where
  "spr_pool_cleanup_run1 e pool data h m = do {
     p \<leftarrow> load_pool e pool m;
     m \<leftarrow> pool_lock e pool m;
     (node, prev) \<leftarrow> find_cleanup e (pl_cleanups p) NULL data h m;
     if node = NULL then Some m
     else do {
       n \<leftarrow> load_cnode e node m;
       m \<leftarrow> call_handler (cn_handler n) (cn_data n) m;
       m \<leftarrow> unlink_cleanup e pool node prev m;
       pool_unlock e pool m } }"

definition spr_pool_cleanup_remove1 ::
  "env \<Rightarrow> addr \<Rightarrow> addr \<Rightarrow> handler \<Rightarrow> mem \<Rightarrow> mem option" where
  "spr_pool_cleanup_remove1 e pool data h m = do {
     p \<leftarrow> load_pool e pool m;
     m \<leftarrow> pool_lock e pool m;
     (node, prev) \<leftarrow> find_cleanup e (pl_cleanups p) NULL data h m;
     if node = NULL then Some m
     else do {
       m \<leftarrow> unlink_cleanup e pool node prev m;
       pool_unlock e pool m } }"

section \<open>Sizes of a pool\<close>

text \<open>The three size functions are the same two loops with a different summand.\<close>

partial_function (option) sum_nodes ::
  "env \<Rightarrow> (memnode \<Rightarrow> size) \<Rightarrow> addr \<Rightarrow> size \<Rightarrow> mem \<Rightarrow> size option" where
  "sum_nodes e g node acc m =
     (if node = NULL then Some acc
      else do {
        n \<leftarrow> load_node e node m;
        sum_nodes e g (mn_next n) (acc + g n) m })"

declare sum_nodes.simps [code]

function sum_slots ::
  "env \<Rightarrow> (nat \<Rightarrow> memnode \<Rightarrow> size) \<Rightarrow> addr \<Rightarrow> nat \<Rightarrow> size \<Rightarrow> mem \<Rightarrow> size option" where
  "sum_slots e g pool i acc m =
     (if i < SPR_MAX_POOL_SLOT then do {
        a \<leftarrow> get_slot e pool i m;
        acc \<leftarrow> sum_nodes e (g i) a acc m;
        sum_slots e g pool (Suc i) acc m }
      else Some acc)"
  by pat_completeness auto
termination
  by (relation "measure (\<lambda>(e, g, pool, i, acc, m). SPR_MAX_POOL_SLOT - i)") auto

declare sum_slots.simps [simp del]

definition spr_pool_get_size :: "env \<Rightarrow> addr \<Rightarrow> mem \<Rightarrow> size option" where
  "spr_pool_get_size e pool m = sum_slots e (\<lambda>i n. mn_size n) pool 0 0 m"

definition spr_pool_get_free_size :: "env \<Rightarrow> addr \<Rightarrow> mem \<Rightarrow> size option" where
  "spr_pool_get_free_size e pool m = sum_slots e (\<lambda>i n. mn_size_avail n) pool 0 0 m"

definition spr_pool_get_total_size :: "env \<Rightarrow> addr \<Rightarrow> mem \<Rightarrow> size option" where
  "spr_pool_get_total_size e pool m =
     sum_slots e (\<lambda>i n. spr_get_page_size e * (of_nat i + 1)) pool 0 0 m"

section \<open>Clearing and destroying\<close>

partial_function (option) reset_nodes :: "env \<Rightarrow> addr \<Rightarrow> mem \<Rightarrow> mem option" where
  "reset_nodes e node m =
     (if node = NULL then Some m
      else do {
        m \<leftarrow> upd_node e node (\<lambda>n. n\<lparr>mn_first_avail := mn_begin n, mn_size_avail := mn_size n\<rparr>) m;
        n \<leftarrow> load_node e node m;
        reset_nodes e (mn_next n) m })"

declare reset_nodes.simps [code]

function reset_slots :: "env \<Rightarrow> addr \<Rightarrow> nat \<Rightarrow> mem \<Rightarrow> mem option" where
  "reset_slots e pool i m =
     (if i < SPR_MAX_POOL_SLOT then do {
        a \<leftarrow> get_slot e pool i m;
        m \<leftarrow> reset_nodes e a m;
        reset_slots e pool (Suc i) m }
      else Some m)"
  by pat_completeness auto
termination
  by (relation "measure (\<lambda>(e, pool, i, m). SPR_MAX_POOL_SLOT - i)") auto

declare reset_slots.simps [simp del]

text \<open>The guard of \<open>spr_pool_clear\<close> and \<open>spr_pool_destroy\<close>: with thread safety only
  the thread that created the pool may clear or destroy it.\<close>

definition not_owner :: "env \<Rightarrow> pool \<Rightarrow> bool" where
  "not_owner e p \<longleftrightarrow> thread_safety e \<and> pl_owner p \<noteq> current_thread e"

text \<open>The first argument bounds the calls: one unit for every pool of the tree and one for
  every step along a list of brothers.\<close>

fun clear_depth :: "nat \<Rightarrow> env \<Rightarrow> addr \<Rightarrow> mem \<Rightarrow> mem option"
and clear_children :: "nat \<Rightarrow> env \<Rightarrow> addr \<Rightarrow> mem \<Rightarrow> mem option" where
  "clear_depth 0 e pool m = None"
| "clear_depth (Suc d) e pool m = do {
     p \<leftarrow> load_pool e pool m;
     if not_owner e p then Some m
     else do {
       m \<leftarrow> pool_lock e pool m;
       m \<leftarrow> spr_pool_cleanup_run_all e pool m;
       p \<leftarrow> load_pool e pool m;
       m \<leftarrow> clear_children d e (pl_child p) m;
       m \<leftarrow> reset_slots e pool 0 m;
       pool_unlock e pool m } }"
| "clear_children 0 e temp1 m = None"
| "clear_children (Suc d) e temp1 m =
     (if temp1 = NULL then Some m
      else do {
        p \<leftarrow> load_pool e temp1 m;
        m \<leftarrow> clear_depth d e temp1 m;
        clear_children d e (pl_brother p) m })"

definition spr_pool_clear :: "nat \<Rightarrow> env \<Rightarrow> addr \<Rightarrow> mem \<Rightarrow> mem option" where
  "spr_pool_clear fuel e pool m = clear_depth fuel e pool m"

partial_function (option) dealloc_nodes :: "env \<Rightarrow> addr \<Rightarrow> mem \<Rightarrow> mem option" where
  "dealloc_nodes e node m =
     (if node = NULL then Some m
      else do {
        n \<leftarrow> load_node e node m;
        m \<leftarrow> spr_memnode_deallocate e node m;
        dealloc_nodes e (mn_next n) m })"

declare dealloc_nodes.simps [code]

function dealloc_slots :: "env \<Rightarrow> addr \<Rightarrow> nat \<Rightarrow> mem \<Rightarrow> mem option" where
  "dealloc_slots e pool i m =
     (if i < SPR_MAX_POOL_SLOT then do {
        a \<leftarrow> get_slot e pool i m;
        m \<leftarrow> dealloc_nodes e a m;
        dealloc_slots e pool (Suc i) m }
      else Some m)"
  by pat_completeness auto
termination
  by (relation "measure (\<lambda>(e, pool, i, m). SPR_MAX_POOL_SLOT - i)") auto

declare dealloc_slots.simps [simp del]

fun destroy_depth :: "nat \<Rightarrow> env \<Rightarrow> addr \<Rightarrow> mem \<Rightarrow> mem option"
and destroy_children :: "nat \<Rightarrow> env \<Rightarrow> addr \<Rightarrow> mem \<Rightarrow> mem option" where
  "destroy_depth 0 e pool m = None"
| "destroy_depth (Suc d) e pool m = do {
     p \<leftarrow> load_pool e pool m;
     if not_owner e p then Some m
     else do {
       m \<leftarrow> spr_pool_cleanup_run_all e pool m;
       p \<leftarrow> load_pool e pool m;
       m \<leftarrow> destroy_children d e (pl_child p) m;
       dealloc_slots e pool 0 m } }"
| "destroy_children 0 e temp1 m = None"
| "destroy_children (Suc d) e temp1 m =
     (if temp1 = NULL then Some m
      else do {
        p \<leftarrow> load_pool e temp1 m;
        m \<leftarrow> destroy_depth d e temp1 m;
        destroy_children d e (pl_brother p) m })"

definition spr_pool_destroy :: "nat \<Rightarrow> env \<Rightarrow> addr \<Rightarrow> mem \<Rightarrow> mem option" where
  "spr_pool_destroy fuel e pool m = destroy_depth fuel e pool m"

end
