(* ===== verification/Spr_Region.thy ===== *)
theory Spr_Region
  imports Spr_Memory
begin

text \<open>
  The interface between the pool and the components that allocate from it (lists, arrays,
  string copies): what a client may rely on when it asks a region for memory. The clients'
  lemmas are proved in the locale; \<^verbatim>\<open>Spr_Pool_Props\<close> interprets it on \<^verbatim>\<open>spr_palloc\<close>.
\<close>

definition region :: "addr \<Rightarrow> size \<Rightarrow> nat set" where
  "region a n = {unat a..<unat a + unat n}"

text \<open>The part of the memory that belongs to the clients of a region is untouched.\<close>

definition same_client_memory :: "mem \<Rightarrow> mem \<Rightarrow> bool" where
  "same_client_memory m m' \<longleftrightarrow> bytes m' = bytes m \<and> mutexes m' = mutexes m \<and>
     lists m' = lists m \<and> lnodes m' = lnodes m \<and> arrays m' = arrays m"

text \<open>A client that asks for several blocks in a row; it stops at the first failure.\<close>

fun alloc_seq ::
  "(size \<Rightarrow> mem \<Rightarrow> (addr \<times> mem) option) \<Rightarrow> size list \<Rightarrow> mem \<Rightarrow> ((addr \<times> size) list \<times> mem) option"
where
  "alloc_seq alloc [] m = Some ([], m)"
| "alloc_seq alloc (n # ns) m =
     (case alloc n m of
        None \<Rightarrow> None
      | Some (a, m) \<Rightarrow>
          if a = NULL then Some ([], m)
          else map_option (\<lambda>(bs, m). ((a, n) # bs, m)) (alloc_seq alloc ns m))"

locale region_allocator =
  fixes e :: env
    and alloc :: "size \<Rightarrow> mem \<Rightarrow> (addr \<times> mem) option"
    and inv :: "mem \<Rightarrow> nat set \<Rightarrow> bool"
    and request :: "size \<Rightarrow> bool"
  assumes alloc_spec: "inv m U \<Longrightarrow> request n \<Longrightarrow>
      \<exists>a m'. alloc n m = Some (a, m') \<and> same_client_memory m m' \<and> calls m' = calls m \<and>
        set (blocks m) \<subseteq> set (blocks m') \<and>
        (a = NULL \<and> errno m' \<noteq> 0 \<and> inv m' U \<or>
         a \<noteq> NULL \<and> 8 dvd unat a \<and> region a n \<inter> U = {} \<and>
           (\<exists>U'. inv m' U' \<and> U \<union> region a n \<subseteq> U'))"
    and inv_accessible: "inv m U \<Longrightarrow> unat a \<in> U \<Longrightarrow> accessible e (blocks m) a"
    and inv_bounded: "inv m U \<Longrightarrow> k \<in> U \<Longrightarrow> k < 2 ^ 64"
    and inv_lnodes: "inv (m\<lparr>lnodes := f\<rparr>) U = inv m U"
    and inv_lists: "inv (m\<lparr>lists := g\<rparr>) U = inv m U"
    and inv_arrays: "inv (m\<lparr>arrays := h\<rparr>) U = inv m U"
    and inv_bytes: "inv (m\<lparr>bytes := b\<rparr>) U = inv m U"
begin

lemma alloc_cases:
  assumes "inv m U" "request n"
  obtains (fail) m' where "alloc n m = Some (NULL, m')" "same_client_memory m m'"
      "errno m' \<noteq> 0" "inv m' U" "set (blocks m) \<subseteq> set (blocks m')" "calls m' = calls m"
  | (ok) a m' U' where "alloc n m = Some (a, m')" "same_client_memory m m'" "a \<noteq> NULL"
      "8 dvd unat a" "region a n \<inter> U = {}" "inv m' U'" "U \<union> region a n \<subseteq> U'" "set (blocks m) \<subseteq> set (blocks m')" "calls m' = calls m"
  using alloc_spec [OF assms] by metis

lemma alloc_seq_disjoint:
  assumes "inv m U" "\<forall>n \<in> set ns. request n"
  shows "\<exists>bs m'. alloc_seq alloc ns m = Some (bs, m') \<and> length bs \<le> length ns \<and>
    map snd bs = take (length bs) ns \<and>
    (\<forall>(a, n) \<in> set bs. a \<noteq> NULL \<and> 8 dvd unat a \<and> region a n \<inter> U = {}) \<and>
    sorted_wrt (\<lambda>(a, n) (b, k). region a n \<inter> region b k = {}) bs"
  using assms
proof (induction ns arbitrary: m U)
  case (Cons n ns)
  have "inv m U" "request n" using Cons.prems by simp_all
  then show ?case
  proof (cases rule: alloc_cases)
    case (ok a m' U')
    obtain bs m'' where bs: "alloc_seq alloc ns m' = Some (bs, m'')" "length bs \<le> length ns"
      "map snd bs = take (length bs) ns"
      "\<forall>(b, k) \<in> set bs. b \<noteq> NULL \<and> 8 dvd unat b \<and> region b k \<inter> U' = {}"
      "sorted_wrt (\<lambda>(a, n) (b, k). region a n \<inter> region b k = {}) bs"
      using Cons.IH [OF ok(6)] Cons.prems by auto
    have apart: "b \<noteq> NULL \<and> 8 dvd unat b \<and> region b k \<inter> U = {} \<and> region a n \<inter> region b k = {}"
      if "(b, k) \<in> set bs" for b k
      using bs(4) ok(7) that by fastforce
    have "alloc_seq alloc (n # ns) m = Some ((a, n) # bs, m'')" using ok(1,3) bs(1) by simp
    then show ?thesis
      using bs(2,3,5) apart ok(3,4,5)
      by (intro exI [of _ "(a, n) # bs"] exI [of _ m'']) auto
  qed auto
qed auto

end

end
