(* ===== verification/Spr_Pool_Inv.thy ===== *)
theory Spr_Pool_Inv
  imports Spr_Pool Spr_Region
begin

text \<open>
  The pool's invariant and the lemmas that carry its properties: the size computations,
  the searches as first fit over the abstract node lists, and what one allocation does to
  the invariant.
\<close>

section \<open>Size computations\<close>

lemma unat_align_default:
  assumes "unat n + 7 < 2 ^ 64"
  shows "unat (spr_align_default n) = (unat n + 7) div 8 * 8"
  using assms unfolding spr_align_default_def spr_align_def SPR_ALIGN_SIZE_def
  by (simp add: unat_and_not_7 [simplified] unat_add_exact)

lemma unat_align_default_wrap:
  assumes "2 ^ 64 \<le> unat n + 7"
  shows "unat (spr_align_default n) = 0"
proof -
  have "unat n < 2 ^ 64" using unsigned_less [of n] by simp
  then have "unat (n + 7) < 7"
    using assms by (simp add: unat_word_ariths mod_if, linarith)
  then show ?thesis
    unfolding spr_align_default_def spr_align_def SPR_ALIGN_SIZE_def
    by (simp add: unat_and_not_7 [simplified])
qed

text \<open>What \<^verbatim>\<open>spr_align_allocation\<close> computes, for every request.\<close>

lemma align_allocation_value:
  "unat (spr_align_allocation n) =
     (if 2 ^ 64 \<le> unat n + 7 then 0 else max 16 ((unat n + 7) div 8 * 8))"
proof (cases "2 ^ 64 \<le> unat n + 7")
  case True
  then have "spr_align_default n < n"
    using unat_align_default_wrap [OF True] by (simp add: word_less_nat_alt)
  with True show ?thesis by (simp add: spr_align_allocation_def Let_def)
next
  case False
  then have v: "unat (spr_align_default n) = (unat n + 7) div 8 * 8"
    by (simp add: unat_align_default)
  then have "\<not> spr_align_default n < n" unfolding word_less_nat_alt by presburger
  with v False show ?thesis
    by (auto simp: spr_align_allocation_def Let_def spr_size word_less_nat_alt)
qed

lemma unat_npages:
  assumes "unat n + 48 < 2 ^ 64" and "spr_get_page_size e \<noteq> 0" "spr_get_page_size e \<noteq> 1"
  shows "unat (spr_get_npages e n) = (unat n + 48) div unat (spr_get_page_size e) + 1"
proof -
  let ?p = "unat (spr_get_page_size e)"
  have u: "unat (n + 48) = unat n + 48" using assms(1) by (simp add: unat_add_exact)
  have p: "1 < ?p"
    using assms(2,3) by (metis One_nat_def less_one linorder_neqE_nat unat_eq_0 unat_1 unsigned_word_eqI)
  have "(unat n + 48) div ?p * 2 \<le> (unat n + 48) div ?p * ?p"
    using p by (intro mult_le_mono2) simp
  also have "\<dots> \<le> unat n + 48" by simp
  finally have "(unat n + 48) div ?p + 1 < 2 ^ 64" using assms(1) by simp
  moreover have "unat ((n + 48) div spr_get_page_size e) = (unat n + 48) div ?p"
    by (simp add: unat_div u)
  ultimately have "unat ((n + 48) div spr_get_page_size e + 1) = (unat n + 48) div ?p + 1"
    by (subst unat_add_exact) simp_all
  then show ?thesis
    by (simp add: spr_get_npages_def Let_def spr_size word_less_nat_alt u)
qed

section \<open>The system allocator and the environment\<close>

text \<open>Two blocks do not overlap; a list of live blocks is well formed.\<close>

fun apart :: "addr \<times> size \<Rightarrow> addr \<times> size \<Rightarrow> bool" where
  "apart (a, n) (b, k) \<longleftrightarrow> unat a + unat n \<le> unat b \<or> unat b + unat k \<le> unat a"

fun block_ok :: "addr \<times> size \<Rightarrow> bool" where
  "block_ok (a, n) \<longleftrightarrow> a \<noteq> NULL \<and> n \<noteq> 0 \<and> unat a + unat n < 2 ^ 64 \<and> 16 dvd unat a"

fun blocks_ok :: "(addr \<times> size) list \<Rightarrow> bool" where
  "blocks_ok [] \<longleftrightarrow> True"
| "blocks_ok (b # bs) \<longleftrightarrow> block_ok b \<and> list_all (apart b) bs \<and> blocks_ok bs"

text \<open>
  What the library relies on of \<^verbatim>\<open>malloc\<close> and \<^verbatim>\<open>mmap\<close>: a request either fails with null or
  gives a block that does not overlap a live one and is aligned for any object.
\<close>

definition alloc_ok :: "env \<Rightarrow> bool" where
  "alloc_ok e \<longleftrightarrow> (\<forall>bs n. blocks_ok bs \<longrightarrow> n \<noteq> 0 \<longrightarrow> sys_alloc e bs n \<noteq> NULL \<longrightarrow>
     blocks_ok ((sys_alloc e bs n, n) # bs))"

text \<open>A page is a multiple of eight, large enough for a node, a pool and a mutex, and small
  enough that the largest slot does not overflow.\<close>

definition page_ok :: "env \<Rightarrow> bool" where
  "page_ok e \<longleftrightarrow> 512 \<le> unat (spr_get_page_size e) \<and> unat (spr_get_page_size e) \<le> 2 ^ 32 \<and>
     8 dvd unat (spr_get_page_size e)"

section \<open>The invariant of a pool\<close>

text \<open>The memory of a node: inside its block, the header comes first, then whatever was
  carved out at creation, then \<^verbatim>\<open>[begin, first_avail)\<close> that was handed out, then
  \<^verbatim>\<open>size_avail\<close> free bytes up to the end of the block.\<close>

definition node_len :: "env \<Rightarrow> nat \<Rightarrow> size" where
  "node_len e i = spr_get_page_size e * of_nat (Suc i)"

definition node_ok :: "env \<Rightarrow> mem \<Rightarrow> nat \<Rightarrow> addr \<Rightarrow> bool" where
  "node_ok e m i a \<longleftrightarrow>
     (a, node_len e i) \<in> set (blocks m) \<and>
     mn_dealloc_size (mnodes m a) = node_len e i \<and>
     unat a + 48 \<le> unat (mn_begin (mnodes m a)) \<and>
     unat (mn_begin (mnodes m a)) \<le> unat (mn_first_avail (mnodes m a)) \<and>
     unat (mn_begin (mnodes m a)) + unat (mn_size (mnodes m a)) = unat a + unat (node_len e i) \<and>
     unat (mn_first_avail (mnodes m a)) + unat (mn_size_avail (mnodes m a))
       = unat a + unat (node_len e i) \<and>
     8 dvd unat (mn_begin (mnodes m a)) \<and> 8 dvd unat (mn_first_avail (mnodes m a))"

text \<open>The nodes of a pool, slot by slot.\<close>

type_synonym slots = "nat \<Rightarrow> addr list"

definition all_nodes :: "slots \<Rightarrow> addr list" where
  "all_nodes S = concat (map S [0..<SPR_MAX_POOL_SLOT])"

definition nodes_inv :: "env \<Rightarrow> mem \<Rightarrow> addr \<Rightarrow> slots \<Rightarrow> bool" where
  "nodes_inv e m pool S \<longleftrightarrow>
     (\<forall>i<SPR_MAX_POOL_SLOT. chain (\<lambda>a. mn_next (mnodes m a)) (pl_nodes (pools m pool) i) (S i) \<and>
        (\<forall>a \<in> set (S i). node_ok e m i a)) \<and>
     distinct (all_nodes S)"

text \<open>The addresses a pool has handed out, and the pool structure's own place: between the
  header and \<^verbatim>\<open>begin\<close> of one of its nodes.\<close>

definition handed_out :: "mem \<Rightarrow> addr \<Rightarrow> nat set" where
  "handed_out m a = {unat (mn_begin (mnodes m a))..<unat (mn_first_avail (mnodes m a))}"

definition used_by :: "mem \<Rightarrow> slots \<Rightarrow> nat set" where
  "used_by m S = (\<Union>a \<in> set (all_nodes S). handed_out m a)"

definition home_ok :: "env \<Rightarrow> mem \<Rightarrow> addr \<Rightarrow> slots \<Rightarrow> bool" where
  "home_ok e m pool S \<longleftrightarrow> (\<exists>h \<in> set (all_nodes S).
     unat h + 48 \<le> unat pool \<and>
     unat pool + unat (sizeof_pool e) \<le> unat (mn_begin (mnodes m h)))"

text \<open>The calling thread can take the pool's lock: the mutex is recursive and free, or
  already held by this thread.\<close>

definition lock_ok :: "env \<Rightarrow> mem \<Rightarrow> addr \<Rightarrow> bool" where
  "lock_ok e m pool \<longleftrightarrow> (thread_safety e \<longrightarrow>
     accessible e (blocks m) (pl_mutex (pools m pool)) \<and>
     mx_recursive (mutexes m (pl_mutex (pools m pool))) \<and>
     (mx_owner (mutexes m (pl_mutex (pools m pool))) = None \<and>
        mx_count (mutexes m (pl_mutex (pools m pool))) = 0 \<or>
      mx_owner (mutexes m (pl_mutex (pools m pool))) = Some (current_thread e) \<and>
        0 < mx_count (mutexes m (pl_mutex (pools m pool)))))"

text \<open>The cleanup nodes: the registered ones in the order they will run, and the reserved
  ones; all of them in memory the pool has handed out.\<close>

definition cleanups_inv :: "mem \<Rightarrow> addr \<Rightarrow> slots \<Rightarrow> addr list \<Rightarrow> addr list \<Rightarrow> bool" where
  "cleanups_inv m pool S cl fr \<longleftrightarrow>
     chain (\<lambda>a. cn_next (cnodes m a)) (pl_cleanups (pools m pool)) cl \<and>
     chain (\<lambda>a. cn_next (cnodes m a)) (pl_free_cleanups (pools m pool)) fr \<and>
     distinct (cl @ fr) \<and>
     (\<forall>c \<in> set (cl @ fr). {unat c..<unat c + 24} \<subseteq> used_by m S)"

definition pool_inv :: "env \<Rightarrow> mem \<Rightarrow> addr \<Rightarrow> slots \<Rightarrow> addr list \<Rightarrow> addr list \<Rightarrow> bool" where
  "pool_inv e m pool S cl fr \<longleftrightarrow>
     page_ok e \<and> alloc_ok e \<and> blocks_ok (blocks m) \<and> nodes_inv e m pool S \<and>
     home_ok e m pool S \<and> lock_ok e m pool \<and> cleanups_inv m pool S cl fr"

section \<open>Blocks and access\<close>

lemma blocks_okD: "blocks_ok bs \<Longrightarrow> b \<in> set bs \<Longrightarrow> block_ok b"
  by (induction bs) auto

lemma apart_sym: "apart b c \<longleftrightarrow> apart c b"
  by (cases b; cases c) auto

lemma blocks_ok_apart:
  "blocks_ok bs \<Longrightarrow> b \<in> set bs \<Longrightarrow> c \<in> set bs \<Longrightarrow> b \<noteq> c \<Longrightarrow> apart b c"
  by (induction bs) (auto simp: list_all_iff apart_sym)

lemma blocks_ok_fst_inj:
  assumes "blocks_ok bs" "(a, n) \<in> set bs" "(a, k) \<in> set bs"
  shows "n = k"
proof (rule ccontr)
  assume "n \<noteq> k"
  then have "apart (a, n) (a, k)" using blocks_ok_apart [OF assms] by simp
  moreover have "block_ok (a, n)" "block_ok (a, k)" using assms blocks_okD by blast+
  ultimately show False by (auto simp: unat_gt_0 [symmetric] simp del: unat_gt_0)
qed

lemma block_accessible:
  assumes "blocks_ok bs" "(b, n) \<in> set bs" "unat b \<le> unat a" "unat a < unat b + unat n"
  shows "accessible e bs a"
proof -
  have "b \<noteq> NULL" using blocks_okD [OF assms(1,2)] by simp
  then have "0 < unat b" by (simp add: unat_gt_0)
  then have "a \<noteq> NULL" using assms(3) by auto
  then show ?thesis
    using assms unfolding accessible_def in_range_def list_ex_iff by force
qed

lemma accessible_Cons: "accessible e bs a \<Longrightarrow> accessible e (b # bs) a"
  by (cases b) (auto simp: accessible_def)

lemma accessible_nonnull: "accessible e bs a \<Longrightarrow> a \<noteq> NULL"
  by (simp add: accessible_def)

section \<open>Consequences of the invariant\<close>

lemma set_all_nodes: "set (all_nodes S) = (\<Union>i<SPR_MAX_POOL_SLOT. set (S i))"
  by (auto simp: all_nodes_def)

lemma node_len_pos: "page_ok e \<Longrightarrow> i < 21 \<Longrightarrow>
    unat (node_len e i) = unat (spr_get_page_size e) * Suc i \<and> 512 \<le> unat (node_len e i)"
proof -
  assume p: "page_ok e" and i: "i < 21"
  have s: "unat (of_nat (Suc i) :: size) = Suc i"
    using i by (intro unat_of_nat_exact) simp
  have "unat (spr_get_page_size e) * Suc i \<le> 2 ^ 32 * 21"
    using p i by (intro mult_le_mono) (auto simp: page_ok_def)
  also have "\<dots> < (2::nat) ^ 64" by simp
  finally have "unat (node_len e i) = unat (spr_get_page_size e) * Suc i"
    unfolding node_len_def by (subst unat_mult_exact) (simp_all only: s, simp)
  moreover have "512 * 1 \<le> unat (spr_get_page_size e) * Suc i"
    using p by (intro mult_le_mono) (auto simp: page_ok_def)
  ultimately show ?thesis by simp
qed

lemma node_ok_accessible:
  assumes "blocks_ok (blocks m)" "page_ok e" "i < SPR_MAX_POOL_SLOT" "node_ok e m i a"
  shows "accessible e (blocks m) a"
proof -
  have "(a, node_len e i) \<in> set (blocks m)" using assms by (simp add: node_ok_def)
  moreover have "512 \<le> unat (node_len e i)"
    using node_len_pos [of e i, THEN conjunct2] assms by (simp add: SPR_MAX_POOL_SLOT_def)
  ultimately show ?thesis using assms(1) by (intro block_accessible) auto
qed

lemma nodes_inv_slot:
  "nodes_inv e m pool S \<Longrightarrow> a \<in> set (all_nodes S) \<Longrightarrow>
    \<exists>i<SPR_MAX_POOL_SLOT. a \<in> set (S i) \<and> node_ok e m i a"
  by (auto simp: nodes_inv_def set_all_nodes)

lemma in_node_accessible:
  assumes "blocks_ok (blocks m)" "node_ok e m i h"
    and "unat h \<le> unat a" "unat a < unat (mn_first_avail (mnodes m h))"
  shows "accessible e (blocks m) a"
proof (rule block_accessible [OF assms(1)])
  show "(h, node_len e i) \<in> set (blocks m)" using assms by (simp add: node_ok_def)
  show "unat a < unat h + unat (node_len e i)" using assms by (auto simp: node_ok_def)
qed (use assms in simp)

lemma pool_accessible:
  assumes "blocks_ok (blocks m)" "nodes_inv e m pool S" "home_ok e m pool S"
  shows "accessible e (blocks m) pool"
proof -
  obtain h where h: "h \<in> set (all_nodes S)" "unat h + 48 \<le> unat pool"
    "unat pool + unat (sizeof_pool e) \<le> unat (mn_begin (mnodes m h))"
    using assms(3) by (auto simp: home_ok_def)
  obtain i where i: "node_ok e m i h" using nodes_inv_slot [OF assms(2) h(1)] by auto
  have "0 < unat (sizeof_pool e)" by (simp add: sizeof_pool_def)
  moreover have "unat (mn_begin (mnodes m h)) \<le> unat (mn_first_avail (mnodes m h))"
    using i by (simp add: node_ok_def)
  ultimately show ?thesis using h by (intro in_node_accessible [OF assms(1) i]) auto
qed

lemma used_accessible:
  assumes "blocks_ok (blocks m)" "nodes_inv e m pool S" "unat a \<in> used_by m S"
  shows "accessible e (blocks m) a"
proof -
  obtain h where h: "h \<in> set (all_nodes S)" "unat a \<in> handed_out m h"
    using assms(3) by (auto simp: used_by_def)
  obtain i where i: "node_ok e m i h" using nodes_inv_slot [OF assms(2) h(1)] by auto
  then have "unat h \<le> unat (mn_begin (mnodes m h))" by (simp add: node_ok_def)
  then show ?thesis
    using h by (intro in_node_accessible [OF assms(1) i]) (auto simp: handed_out_def)
qed

lemma cleanup_accessible:
  assumes "blocks_ok (blocks m)" "nodes_inv e m pool S" "cleanups_inv m pool S cl fr"
    and "c \<in> set (cl @ fr)"
  shows "accessible e (blocks m) c"
proof (rule used_accessible [OF assms(1,2)])
  have "{unat c..<unat c + 24} \<subseteq> used_by m S" using assms by (simp add: cleanups_inv_def)
  then show "unat c \<in> used_by m S" by auto
qed

section \<open>The searches are first fit\<close>

lemma find_node_first_fit:
  assumes "chain (\<lambda>a. mn_next (mnodes m a)) a xs"
    and "\<forall>x \<in> set xs. accessible e (blocks m) x"
  shows "find_node e a n m = Some (or_null (find (\<lambda>x. n \<le> mn_size_avail (mnodes m x)) xs))"
  using assms
proof (induction xs arbitrary: a)
  case Nil
  then show ?case by (simp add: find_node.simps)
next
  case (Cons x xs)
  then show ?case by (simp add: find_node.simps [of e a] load_node_def)
qed

lemma find_append: "find P (xs @ ys) = (case find P xs of None \<Rightarrow> find P ys | Some x \<Rightarrow> Some x)"
  by (induction xs) auto

lemma or_null_find_0:
  assumes "\<forall>x \<in> set xs. x \<noteq> NULL"
  shows "or_null (find P xs) = NULL \<longleftrightarrow> find P xs = None"
  using assms by (induction xs) auto

lemma find_slot_first_fit:
  assumes "blocks_ok (blocks m)" "page_ok e" "nodes_inv e m pool S"
    and "accessible e (blocks m) pool" and "i \<le> SPR_MAX_POOL_SLOT"
  shows "find_slot e pool i n m = Some (or_null
    (find (\<lambda>x. n \<le> mn_size_avail (mnodes m x)) (concat (map S [i..<SPR_MAX_POOL_SLOT]))))"
  using assms(5)
proof (induction i rule: inc_induct)
  case base
  then show ?case by (simp add: find_slot.simps)
next
  case (step i)
  let ?P = "\<lambda>x. n \<le> mn_size_avail (mnodes m x)"
  have c: "chain (\<lambda>a. mn_next (mnodes m a)) (pl_nodes (pools m pool) i) (S i)"
    and acc: "\<forall>x \<in> set (S i). accessible e (blocks m) x"
    using assms(1-3) step.hyps by (auto simp: nodes_inv_def intro: node_ok_accessible)
  have nz: "\<forall>x \<in> set (S i). x \<noteq> NULL" using acc accessible_nonnull by blast
  have "[i..<SPR_MAX_POOL_SLOT] = i # [Suc i..<SPR_MAX_POOL_SLOT]"
    using step.hyps by (simp add: upt_rec)
  then show ?case
    using step find_node_first_fit [OF c acc, of n] or_null_find_0 [OF nz, of ?P] assms(4)
    by (subst find_slot.simps)
      (auto simp: get_slot_def load_pool_def find_append split: option.split)
qed

section \<open>Locking\<close>

text \<open>The mutex map while the calling thread holds the pool's lock once more.\<close>

definition locked :: "env \<Rightarrow> mem \<Rightarrow> addr \<Rightarrow> addr \<Rightarrow> pthread_mutex" where
  "locked e m pool =
     (if thread_safety e then
        (let a = pl_mutex (pools m pool); x = mutexes m a in
         (mutexes m)(a := x\<lparr>mx_owner := Some (current_thread e), mx_count := mx_count x + 1\<rparr>))
      else mutexes m)"

lemma pool_lock_ok:
  assumes "lock_ok e m pool" "accessible e (blocks m) pool"
  shows "pool_lock e pool m = Some (m\<lparr>mutexes := locked e m pool\<rparr>)"
proof (cases "thread_safety e")
  case True
  let ?x = "mutexes m (pl_mutex (pools m pool))"
  from assms True consider "mx_owner ?x = None" "mx_count ?x = 0"
    | "mx_owner ?x = Some (current_thread e)"
    by (auto simp: lock_ok_def)
  then show ?thesis
  proof cases
    case 1
    then show ?thesis using assms True
      by (simp add: pool_lock_def load_pool_def mutex_defs lock_ok_def locked_def Let_def)
  next
    case 2
    then show ?thesis using assms True
      by (cases ?x) (simp add: pool_lock_def load_pool_def mutex_defs lock_ok_def locked_def Let_def)
  qed
next
  case False
  then show ?thesis by (simp add: pool_lock_def locked_def)
qed

lemma pool_unlock_ok:
  assumes lock: "lock_ok e m pool" and held: "mutexes m' = locked e m pool"
    and same: "pl_mutex (pools m' pool) = pl_mutex (pools m pool)"
    and acc: "accessible e (blocks m') pool"
      "thread_safety e \<Longrightarrow> accessible e (blocks m') (pl_mutex (pools m pool))"
  shows "pool_unlock e pool m' = Some (m'\<lparr>mutexes := mutexes m\<rparr>)"
proof (cases "thread_safety e")
  case True
  let ?a = "pl_mutex (pools m pool)"
  let ?x = "mutexes m ?a"
  from lock True consider "mx_owner ?x = None" "mx_count ?x = 0"
    | "mx_owner ?x = Some (current_thread e)" "0 < mx_count ?x"
    by (auto simp: lock_ok_def)
  then show ?thesis
  proof cases
    case 1
    then show ?thesis using True held same acc
      by (cases ?x) (simp add: pool_unlock_def load_pool_def mutex_defs locked_def Let_def
        fun_upd_idem)
  next
    case 2
    then show ?thesis using True held same acc
      by (cases ?x) (simp add: pool_unlock_def load_pool_def mutex_defs locked_def Let_def
        fun_upd_idem)
  qed
next
  case False
  then show ?thesis using held by (simp add: pool_unlock_def locked_def)
qed

section \<open>New nodes\<close>

definition fresh_memnode :: "addr \<Rightarrow> size \<Rightarrow> memnode" where
  "fresh_memnode a n = \<lparr>mn_next = NULL, mn_begin = a + 48, mn_first_avail = a + 48,
     mn_size = n - 48, mn_size_avail = n - 48, mn_dealloc_size = n\<rparr>"

lemma memnode_allocate_cases:
  assumes "alloc_ok e" "blocks_ok (blocks m)" "512 \<le> unat n"
  obtains (fail) "spr_memnode_allocate e n m = Some (NULL, m\<lparr>errno := ENOMEM\<rparr>)"
      "sys_alloc e (blocks m) n = NULL"
  | (new) a c where "a \<noteq> NULL" "blocks_ok ((a, n) # blocks m)"
    "spr_memnode_allocate e n m = Some (a, m\<lparr>blocks := (a, n) # blocks m,
       memory_counter := c, mnodes := (mnodes m)(a := fresh_memnode a n)\<rparr>)"
    "sys_alloc e (blocks m) n \<noteq> NULL"
proof -
  let ?a = "sys_alloc e (blocks m) n"
  show thesis
  proof (cases "?a = NULL")
    case True
    then show thesis
      by (intro fail) (simp add: spr_memnode_allocate_def sys_mmap_def spr_malloc_def)
  next
    case False
    have "n \<noteq> 0" using assms(3) by auto
    then have ok: "blocks_ok ((?a, n) # blocks m)"
      using assms(1,2) False by (simp add: alloc_ok_def)
    have acc: "accessible e ((?a, n) # blocks m) ?a"
      using assms(3) by (intro block_accessible [OF ok]) auto
    let ?c = "if uses_mmap e then memory_counter m else memory_counter m + n"
    have "spr_memnode_allocate e n m = Some (?a, m\<lparr>blocks := (?a, n) # blocks m,
       memory_counter := ?c, mnodes := (mnodes m)(?a := fresh_memnode ?a n)\<rparr>)"
      using False acc by (simp add: spr_memnode_allocate_def sys_mmap_def spr_malloc_def
        upd_node_def fresh_memnode_def size_constants Let_def)
    with False ok show thesis by (intro new) simp_all
  qed
qed

lemma memnode_allocate_served:
  assumes "alloc_ok e" "blocks_ok (blocks m)" "512 \<le> unat n" "sys_alloc e (blocks m) n \<noteq> NULL"
  obtains (new) a c where "a \<noteq> NULL" "blocks_ok ((a, n) # blocks m)"
    "spr_memnode_allocate e n m = Some (a, m\<lparr>blocks := (a, n) # blocks m,
       memory_counter := c, mnodes := (mnodes m)(a := fresh_memnode a n)\<rparr>)"
proof (rule memnode_allocate_cases [OF assms(1-3)])
qed (use assms(4) new in simp_all)

lemma fresh_node_ok:
  assumes "page_ok e" "i < SPR_MAX_POOL_SLOT" "blocks_ok ((a, node_len e i) # bs)"
    and "mnodes m a = fresh_memnode a (node_len e i)" "(a, node_len e i) \<in> set (blocks m)"
  shows "node_ok e m i a"
proof -
  have len: "512 \<le> unat (node_len e i)" "8 dvd unat (node_len e i)"
    using node_len_pos [of e i] assms(1,2) by (auto simp: SPR_MAX_POOL_SLOT_def page_ok_def)
  have blk: "unat a + unat (node_len e i) < 2 ^ 64" "16 dvd unat a" using assms(3) by auto
  have "unat (a + 48) = unat a + 48" using len blk by (subst unat_add_exact) auto
  moreover have "unat (node_len e i - 48) = unat (node_len e i) - 48"
    using len by (subst unat_diff_exact) auto
  moreover have "8 dvd unat a + 48" using blk(2) by presburger
  ultimately show ?thesis
    using assms(4,5) len by (auto simp: node_ok_def fresh_memnode_def)
qed

lemma distinct_add_node:
  assumes "distinct (all_nodes S)" "a \<notin> set (all_nodes S)" "i < SPR_MAX_POOL_SLOT"
  shows "distinct (all_nodes (S(i := a # S i)))"
    "set (all_nodes (S(i := a # S i))) = insert a (set (all_nodes S))"
proof -
  let ?k = SPR_MAX_POOL_SLOT
  have split: "[0..<?k] = [0..<i] @ i # [Suc i..<?k]"
    using assms(3) by (metis le0 less_imp_le_nat upt_add_eq_append upt_conv_Cons le_add_diff_inverse)
  have lo: "map (S(i := x)) [0..<i] = map S [0..<i]" for x by simp
  have hi: "map (S(i := x)) [Suc i..<?k] = map S [Suc i..<?k]" for x by simp
  have new: "all_nodes (S(i := a # S i)) =
      concat (map S [0..<i]) @ a # S i @ concat (map S [Suc i..<?k])"
    unfolding all_nodes_def split by (simp add: lo hi del: map_eq_conv)
  have old: "all_nodes S = concat (map S [0..<i]) @ S i @ concat (map S [Suc i..<?k])"
    unfolding all_nodes_def split by simp
  show "distinct (all_nodes (S(i := a # S i)))" "set (all_nodes (S(i := a # S i))) = insert a (set (all_nodes S))"
    using assms(1,2) unfolding new old by auto
qed

section \<open>Handing out memory of a node\<close>

lemma handed_out_in_block:
  "node_ok e m i a \<Longrightarrow> handed_out m a \<subseteq> {unat a..<unat a + unat (node_len e i)}"
  by (auto simp: node_ok_def handed_out_def)

lemma blocks_disjoint:
  assumes "blocks_ok bs" "(a, n) \<in> set bs" "(b, k) \<in> set bs" "a \<noteq> b"
  shows "{unat a..<unat a + unat n} \<inter> {unat b..<unat b + unat k} = {}"
  using blocks_ok_apart [OF assms(1-3)] assms(4) by auto

definition taken :: "memnode \<Rightarrow> size \<Rightarrow> memnode" where
  "taken n k = n\<lparr>mn_size_avail := mn_size_avail n - k, mn_first_avail := mn_first_avail n + k\<rparr>"

lemma take_from_node_eq:
  "accessible e (blocks m) a \<Longrightarrow> take_from_node e a k m =
     Some (mn_first_avail (mnodes m a), m\<lparr>mnodes := (mnodes m)(a := taken (mnodes m a) k)\<rparr>)"
  by (simp add: take_from_node_def load_node_def upd_node_def taken_def)

lemma taken_exact:
  assumes "blocks_ok (blocks m)" "node_ok e m i a" "k \<le> mn_size_avail (mnodes m a)"
  shows "unat (mn_first_avail (taken (mnodes m a) k)) = unat (mn_first_avail (mnodes m a)) + unat k"
    "unat (mn_size_avail (taken (mnodes m a) k)) = unat (mn_size_avail (mnodes m a)) - unat k"
proof -
  have "block_ok (a, node_len e i)"
    using assms(2) by (intro blocks_okD [OF assms(1)]) (simp add: node_ok_def)
  then have "unat (mn_first_avail (mnodes m a)) + unat k < 2 ^ 64"
    using assms(2,3) by (auto simp: node_ok_def word_le_nat_alt)
  then show "unat (mn_first_avail (taken (mnodes m a) k)) = unat (mn_first_avail (mnodes m a)) + unat k"
    by (simp add: taken_def unat_add_exact)
  show "unat (mn_size_avail (taken (mnodes m a) k)) = unat (mn_size_avail (mnodes m a)) - unat k"
    using assms(3) by (simp add: taken_def unat_diff_exact word_le_nat_alt)
qed

text \<open>The part of the memory that belongs to other pools is untouched: a step of one pool takes new
  nodes only from new blocks, and changes its own nodes, the cleanup nodes in its own memory and, of its
  structure, neither its place in the tree nor its mutex.\<close>

definition same_place :: "pool \<Rightarrow> pool \<Rightarrow> bool" where
  "same_place p q \<longleftrightarrow> pl_parent q = pl_parent p \<and> pl_brother q = pl_brother p \<and>
     pl_child q = pl_child p \<and> pl_mutex q = pl_mutex p \<and> pl_owner q = pl_owner p"

definition pool_frame :: "mem \<Rightarrow> addr \<Rightarrow> slots \<Rightarrow> mem \<Rightarrow> slots \<Rightarrow> bool" where
  "pool_frame m pool S m' S' \<longleftrightarrow>
     set (all_nodes S) \<subseteq> set (all_nodes S') \<and>
     (set (all_nodes S') - set (all_nodes S)) \<inter> fst ` set (blocks m) = {} \<and>
     (\<forall>h. h \<notin> set (all_nodes S') \<longrightarrow> mnodes m' h = mnodes m h) \<and>
     (\<forall>h \<in> set (all_nodes S). mn_begin (mnodes m' h) = mn_begin (mnodes m h)) \<and>
     used_by m S \<subseteq> used_by m' S' \<and>
     (\<forall>c. unat c \<notin> used_by m' S' \<longrightarrow> cnodes m' c = cnodes m c) \<and>
     (\<forall>q. q \<noteq> pool \<longrightarrow> pools m' q = pools m q) \<and> same_place (pools m pool) (pools m' pool)"

definition new_blocks :: "mem \<Rightarrow> mem \<Rightarrow> addr set \<Rightarrow> bool" where
  "new_blocks m m' A \<longleftrightarrow> (\<forall>b \<in> set (blocks m'). b \<in> set (blocks m) \<or> fst b \<in> A)"

lemma same_place_simps [simp]: "same_place p p" "same_place p (p\<lparr>pl_nodes := ns\<rparr>)"
  "same_place p (p\<lparr>pl_cleanups := c\<rparr>)" "same_place p (p\<lparr>pl_free_cleanups := f\<rparr>)"
  "same_place p (p\<lparr>pl_cleanups := c, pl_free_cleanups := f\<rparr>)"
  "same_place p (p\<lparr>pl_free_cleanups := f, pl_cleanups := c\<rparr>)"
  by (simp_all add: same_place_def)

lemma same_place_trans: "same_place p q \<Longrightarrow> same_place q r \<Longrightarrow> same_place p r"
  by (simp add: same_place_def)

lemma pool_frameD:
  assumes "pool_frame m pool S m' S'"
  shows "set (all_nodes S) \<subseteq> set (all_nodes S')"
    "h \<in> set (all_nodes S') \<Longrightarrow> h \<in> fst ` set (blocks m) \<Longrightarrow> h \<in> set (all_nodes S)"
    "h \<notin> set (all_nodes S') \<Longrightarrow> mnodes m' h = mnodes m h"
    "used_by m S \<subseteq> used_by m' S'" "unat c \<notin> used_by m' S' \<Longrightarrow> cnodes m' c = cnodes m c"
    "q \<noteq> pool \<Longrightarrow> pools m' q = pools m q" "same_place (pools m pool) (pools m' pool)"
    "h \<in> set (all_nodes S) \<Longrightarrow> mn_begin (mnodes m' h) = mn_begin (mnodes m h)"
  using assms unfolding pool_frame_def by (simp_all, blast)

lemma pool_frame_trans:
  assumes "pool_frame m p S m1 S1" "pool_frame m1 p S1 m2 S2" "set (blocks m) \<subseteq> set (blocks m1)"
  shows "pool_frame m p S m2 S2"
proof -
  note f1 = pool_frameD [OF assms(1)] and f2 = pool_frameD [OF assms(2)]
  have new: "(set (all_nodes S2) - set (all_nodes S)) \<inter> fst ` set (blocks m) = {}"
    using f1(2) f2(2) assms(3) by blast
  have "mnodes m2 h = mnodes m h" if "h \<notin> set (all_nodes S2)" for h
    using f2(3) [OF that] f1(3) [of h] f2(1) that by auto
  moreover have "cnodes m2 c = cnodes m c" if "unat c \<notin> used_by m2 S2" for c
    using f2(5) [OF that] f1(5) [of c] f2(4) that by auto
  moreover have "same_place (pools m p) (pools m2 p)" by (rule same_place_trans [OF f1(7) f2(7)])
  moreover have "pools m2 q = pools m q" if "q \<noteq> p" for q using f1(6) f2(6) that by simp
  moreover have "mn_begin (mnodes m2 h) = mn_begin (mnodes m h)" if "h \<in> set (all_nodes S)" for h
    using f1(8) [OF that] f2(8) [of h] f1(1) that by auto
  ultimately show ?thesis
    using new order_trans [OF f1(1) f2(1)] order_trans [OF f1(4) f2(4)] unfolding pool_frame_def by blast
qed

lemma fresh_block: "blocks_ok ((a, n) # bs) \<Longrightarrow> a \<notin> fst ` set bs"
proof
  assume bl: "blocks_ok ((a, n) # bs)" and "a \<in> fst ` set bs"
  then obtain k where k: "(a, k) \<in> set bs" by auto
  have "apart (a, n) (a, k)" using bl k by (auto simp: list_all_iff)
  then have "n = 0 \<or> k = 0" by (auto simp: unat_eq_0)
  moreover have "n \<noteq> 0" "k \<noteq> 0" using blocks_okD [OF bl] k by fastforce+
  ultimately show False by simp
qed

text \<open>What a successful allocation of \<^verbatim>\<open>k\<close> bytes does to a pool and to the rest of the
  memory: the new block is aligned, lies in memory not handed out before, is from now on
  handed out, and nothing but nodes and slots changed.\<close>

definition hands_out ::
  "env \<Rightarrow> addr \<Rightarrow> size \<Rightarrow> mem \<Rightarrow> slots \<Rightarrow> addr \<Rightarrow> mem \<Rightarrow> slots \<Rightarrow> bool" where
  "hands_out e pool k m S a m' S' \<longleftrightarrow>
     a \<noteq> NULL \<and> 8 dvd unat a \<and>
     {unat a..<unat a + unat k} \<inter> used_by m S = {} \<and>
     used_by m' S' = used_by m S \<union> {unat a..<unat a + unat k} \<and>
     nodes_inv e m' pool S' \<and> blocks_ok (blocks m') \<and>
     set (blocks m) \<subseteq> set (blocks m') \<and>
     (\<forall>h \<in> set (all_nodes S). h \<in> set (all_nodes S') \<and>
        mn_begin (mnodes m' h) = mn_begin (mnodes m h)) \<and>
     (\<exists>ns. pools m' = (pools m)(pool := pools m pool\<lparr>pl_nodes := ns\<rparr>)) \<and>
     errno m' = errno m \<and> bytes m' = bytes m \<and> cnodes m' = cnodes m \<and>
     mutexes m' = mutexes m \<and> lists m' = lists m \<and> lnodes m' = lnodes m \<and>
     arrays m' = arrays m \<and> calls m' = calls m \<and>
     pool_frame m pool S m' S' \<and> new_blocks m m' (set (all_nodes S'))"

lemma take_hands_out:
  assumes bl: "blocks_ok (blocks m)" and pg: "page_ok e" and nd: "nodes_inv e m pool S"
    and h: "h \<in> set (all_nodes S)" and room: "k \<le> mn_size_avail (mnodes m h)"
    and k: "8 dvd unat k"
    and m': "m' = m\<lparr>mnodes := (mnodes m)(h := taken (mnodes m h) k)\<rparr>"
  shows "hands_out e pool k m S (mn_first_avail (mnodes m h)) m' S"
proof -
  let ?n = "mnodes m h" and ?R = "{unat (mn_first_avail (mnodes m h))..<
    unat (mn_first_avail (mnodes m h)) + unat k}"
  obtain i where i: "i < SPR_MAX_POOL_SLOT" "h \<in> set (S i)" "node_ok e m i h"
    using nodes_inv_slot [OF nd h] by auto
  note ex = taken_exact [OF bl i(3) room]
  have R: "?R \<subseteq> {unat h..<unat h + unat (node_len e i)}"
    using i(3) room by (auto simp: node_ok_def word_le_nat_alt)
  have fresh_node: "?R \<inter> handed_out m x = {}" if x: "x \<in> set (all_nodes S)" for x
  proof (cases "x = h")
    case False
    obtain j where j: "node_ok e m j x" using nodes_inv_slot [OF nd x] by auto
    have "{unat h..<unat h + unat (node_len e i)} \<inter> {unat x..<unat x + unat (node_len e j)} = {}"
      using i(3) j False by (intro blocks_disjoint [OF bl]) (auto simp: node_ok_def)
    then show ?thesis using R handed_out_in_block [OF j] by blast
  qed (auto simp: handed_out_def)
  have ho: "handed_out m' x = (if x = h then handed_out m h \<union> ?R else handed_out m x)" for x
    using i(3) unfolding m' handed_out_def node_ok_def by (auto simp: ex) (auto simp: taken_def)
  have nok: "node_ok e m' j x" if "node_ok e m j x" for j x
  proof (cases "x = h")
    case True
    then show ?thesis using that k room ex unfolding m' node_ok_def
      by (auto simp: word_le_nat_alt) (auto simp: taken_def)
  qed (use that m' in \<open>simp add: node_ok_def\<close>)
  have nxt: "mn_next (mnodes m' x) = mn_next (mnodes m x)" for x
    by (simp add: m' taken_def)
  have "nodes_inv e m' pool S"
    using nd nok by (simp add: nodes_inv_def nxt) (simp add: m')
  moreover have "?R \<inter> used_by m S = {}" using fresh_node by (auto simp: used_by_def)
  moreover have "used_by m' S = used_by m S \<union> ?R"
    using h by (auto simp: used_by_def ho split: if_splits)
  moreover have "pool_frame m pool S m' S" "new_blocks m m' (set (all_nodes S))"
    using h calculation(3) by (auto simp: pool_frame_def new_blocks_def m' taken_def)
  moreover have "0 < unat (mn_first_avail ?n)" "8 dvd unat (mn_first_avail ?n)"
    using i(3) by (auto simp: node_ok_def)
  ultimately show ?thesis
    using bl by (auto simp: hands_out_def m' taken_def unat_gt_0 intro!: exI [of _ "pl_nodes (pools m pool)"])
qed

lemma find_SomeD: "find P xs = Some x \<Longrightarrow> x \<in> set xs \<and> P x"
  by (induction xs) (auto split: if_splits)

section \<open>Registering a new node\<close>

definition with_node :: "addr \<Rightarrow> nat \<Rightarrow> addr \<Rightarrow> size \<Rightarrow> size \<Rightarrow> mem \<Rightarrow> mem" where
  "with_node pool i a len c m = m\<lparr>blocks := (a, len) # blocks m, memory_counter := c,
     pools := (pools m)(pool := pools m pool\<lparr>pl_nodes := (pl_nodes (pools m pool))(i := a)\<rparr>),
     mnodes := (mnodes m)(a := fresh_memnode a len\<lparr>mn_next := pl_nodes (pools m pool) i\<rparr>)\<rparr>"

lemma fresh_block_not_node:
  assumes "blocks_ok ((a, n) # blocks m)" "page_ok e" "nodes_inv e m pool S"
  shows "a \<notin> set (all_nodes S)"
proof
  assume "a \<in> set (all_nodes S)"
  then obtain i where i: "i < SPR_MAX_POOL_SLOT" "node_ok e m i a"
    using nodes_inv_slot [OF assms(3)] by blast
  then have "(a, node_len e i) \<in> set (blocks m)" by (simp add: node_ok_def)
  moreover have "512 \<le> unat (node_len e i)"
    using node_len_pos [of e i, THEN conjunct2] assms(2) i(1) by (simp add: SPR_MAX_POOL_SLOT_def)
  moreover have "0 < unat n" using assms(1) by (simp add: unat_gt_0)
  ultimately show False
    using assms(1) by (auto simp: list_all_iff dest!: bspec)
qed

lemma node_ok_mono:
  assumes "node_ok e m i x" "mnodes m' x = mnodes m x" "set (blocks m) \<subseteq> set (blocks m')"
  shows "node_ok e m' i x"
  using assms by (auto simp: node_ok_def)

lemma with_node_inv:
  assumes bl: "blocks_ok ((a, node_len e i) # blocks m)" and pg: "page_ok e"
    and nd: "nodes_inv e m pool S" and i: "i < SPR_MAX_POOL_SLOT"
  shows "nodes_inv e (with_node pool i a (node_len e i) c m) pool (S(i := a # S i))"
    "used_by (with_node pool i a (node_len e i) c m) (S(i := a # S i)) = used_by m S"
proof -
  let ?m = "with_node pool i a (node_len e i) c m" and ?S = "S(i := a # S i)"
  have new: "a \<notin> set (all_nodes S)" using fresh_block_not_node [OF bl pg nd] .
  then have newj: "a \<notin> set (S j)" if "j < SPR_MAX_POOL_SLOT" for j
    using that by (auto simp: set_all_nodes)
  have same: "mnodes ?m x = mnodes m x" if "x \<noteq> a" for x using that by (simp add: with_node_def)
  have "a \<noteq> NULL" using bl by simp
  have chains: "chain (\<lambda>x. mn_next (mnodes ?m x)) (pl_nodes (pools ?m pool) j) (?S j)"
    if j: "j < SPR_MAX_POOL_SLOT" for j
  proof -
    have "chain (\<lambda>x. mn_next (mnodes ?m x)) b (S j) = chain (\<lambda>x. mn_next (mnodes m x)) b (S j)" for b
      using newj [OF j] same by (intro chain_cong) metis
    then show ?thesis
      using nd j \<open>a \<noteq> NULL\<close> by (auto simp: nodes_inv_def with_node_def)
  qed
  have "mnodes (?m\<lparr>mnodes := (mnodes ?m)(a := fresh_memnode a (node_len e i))\<rparr>) a
      = fresh_memnode a (node_len e i)" by simp
  then have "node_ok e (?m\<lparr>mnodes := (mnodes ?m)(a := fresh_memnode a (node_len e i))\<rparr>) i a"
    by (rule fresh_node_ok [OF pg i bl]) (simp add: with_node_def)
  then have na: "node_ok e ?m i a" by (simp add: node_ok_def with_node_def)
  have nodes: "node_ok e ?m j x" if "j < SPR_MAX_POOL_SLOT" "x \<in> set (?S j)" for j x
  proof (cases "x = a")
    case True
    then have "j = i" using that newj by (auto split: if_splits)
    with True na show ?thesis by simp
  next
    case False
    then have "x \<in> set (S j)" using that by (auto split: if_splits)
    then have "node_ok e m j x" using nd that by (simp add: nodes_inv_def)
    then show ?thesis
      by (rule node_ok_mono) (use False same in \<open>auto simp: with_node_def\<close>)
  qed
  show "nodes_inv e ?m pool ?S"
    unfolding nodes_inv_def
    using chains nodes distinct_add_node(1) [OF _ new i] nd by (simp add: nodes_inv_def)
  have "handed_out ?m a = {}" by (simp add: handed_out_def with_node_def fresh_memnode_def)
  moreover have "handed_out ?m x = handed_out m x" if "x \<in> set (all_nodes S)" for x
    using same [of x] that new by (cases "x = a") (simp_all add: handed_out_def)
  ultimately show "used_by ?m ?S = used_by m S"
    using nd by (simp add: used_by_def distinct_add_node(2) [OF _ new i] nodes_inv_def)
qed

lemma new_node_hands_out:
  assumes bl: "blocks_ok ((a, node_len e i) # blocks m)" and pg: "page_ok e"
    and nd: "nodes_inv e m pool S" and i: "i < SPR_MAX_POOL_SLOT"
    and k: "8 dvd unat k" "unat k + 48 \<le> unat (node_len e i)"
    and m1: "m1 = with_node pool i a (node_len e i) c m"
  shows "hands_out e pool k m S (a + 48)
    (m1\<lparr>mnodes := (mnodes m1)(a := taken (mnodes m1 a) k)\<rparr>) (S(i := a # S i))"
proof -
  let ?S = "S(i := a # S i)"
  have new: "a \<notin> set (all_nodes S)" using fresh_block_not_node [OF bl pg nd] .
  have bl1: "blocks_ok (blocks m1)" using bl by (simp add: m1 with_node_def)
  have nd1: "nodes_inv e m1 pool ?S" and us: "used_by m1 ?S = used_by m S"
    using with_node_inv [OF bl pg nd i] by (simp_all add: m1)
  have all: "set (all_nodes ?S) = insert a (set (all_nodes S))"
    using nd by (simp add: distinct_add_node(2) [OF _ new i] nodes_inv_def)
  have a1: "mn_first_avail (mnodes m1 a) = a + 48"
    "unat (mn_size_avail (mnodes m1 a)) = unat (node_len e i) - 48"
    using k by (simp_all add: m1 with_node_def fresh_memnode_def unat_diff_exact)
  have "k \<le> mn_size_avail (mnodes m1 a)" using k a1 by (simp add: word_le_nat_alt)
  then have "hands_out e pool k m1 ?S (mn_first_avail (mnodes m1 a))
      (m1\<lparr>mnodes := (mnodes m1)(a := taken (mnodes m1 a) k)\<rparr>) ?S"
    using k(1) all by (intro take_hands_out [OF bl1 pg nd1]) simp_all
  moreover have "pool_frame m pool S m1 ?S"
    using fresh_block [OF bl] new by (auto simp: pool_frame_def all us) (auto simp: m1 with_node_def)
  then have "pool_frame m1 pool ?S m2 ?S \<Longrightarrow> pool_frame m pool S m2 ?S" for m2
    by (rule pool_frame_trans) (auto simp: m1 with_node_def)
  moreover have "new_blocks m1 m2 A \<Longrightarrow> a \<in> A \<Longrightarrow> new_blocks m m2 A" for m2 A
    by (auto simp: new_blocks_def m1 with_node_def)
  ultimately show ?thesis
    unfolding hands_out_def a1 us all
    using new by (auto simp: m1 with_node_def taken_def)
qed

lemma npages_node_len:
  assumes "page_ok e" "unat k + 48 < 2 ^ 64"
    and "unat (spr_get_npages e k - 1) < SPR_MAX_POOL_SLOT"
  shows "spr_get_npages e k * spr_get_page_size e = node_len e (unat (spr_get_npages e k - 1))"
    "unat k + 48 < unat (node_len e (unat (spr_get_npages e k - 1)))"
proof -
  let ?p = "unat (spr_get_page_size e)" and ?n = "spr_get_npages e k"
  have np: "unat ?n = (unat k + 48) div ?p + 1"
    using assms(1,2) by (intro unat_npages) (auto simp: page_ok_def)
  then have "unat (?n - 1) = unat ?n - 1" by (subst unat_diff_exact) simp_all
  then have idx: "Suc (unat (?n - 1)) = unat ?n" using np by simp
  have "of_nat (unat ?n) = ?n" by simp
  then show "?n * spr_get_page_size e = node_len e (unat (?n - 1))"
    unfolding node_len_def idx by (simp add: mult.commute)
  have "unat (node_len e (unat (?n - 1))) = ?p * Suc (unat (?n - 1))"
    using node_len_pos [of e "unat (?n - 1)"] assms(1,3) by (simp add: SPR_MAX_POOL_SLOT_def)
  also have "\<dots> = ?p * ((unat k + 48) div ?p + 1)" by (simp add: idx np)
  also have "unat k + 48 < \<dots>"
    using dividend_less_times_div [of ?p "unat k + 48"] assms(1)
    by (simp add: page_ok_def)
  finally show "unat k + 48 < unat (node_len e (unat (?n - 1)))" .
qed

text \<open>No node has room and the slot is inside the array: the block comes from a fresh node.\<close>

lemma palloc_from_fresh_node:
  assumes fs: "find_slot e pool (unat (n - 1)) k m = Some NULL" "unat (n - 1) < SPR_MAX_POOL_SLOT"
    and len: "len = n * spr_get_page_size e" "0 < unat len"
    and new: "a \<noteq> NULL" "blocks_ok ((a, len) # blocks m)"
      "spr_memnode_allocate e len m = Some (a, m\<lparr>blocks := (a, len) # blocks m,
         memory_counter := c, mnodes := (mnodes m)(a := fresh_memnode a len)\<rparr>)"
    and acc: "accessible e (blocks m) pool"
  defines "m1 \<equiv> with_node pool (unat (n - 1)) a len c m"
  shows "palloc_from_nodes e pool k n m
    = Some (a + 48, m1\<lparr>mnodes := (mnodes m1)(a := taken (mnodes m1 a) k)\<rparr>)"
proof -
  have "accessible e (blocks m1) a"
    using new(2) len(2) by (intro block_accessible) (auto simp: m1_def with_node_def)
  then show ?thesis
    using fs new(1,3) acc take_from_node_eq [of e m1 a k] unfolding m1_def
    by (simp add: palloc_from_nodes_def get_slot_def set_slot_def load_pool_def upd_pool_def
      upd_node_def with_node_def accessible_Cons fresh_memnode_def len(1))
qed

text \<open>There is no memory for a request of \<^verbatim>\<open>k\<close> bytes: no node of the slots searched has room and
  the system gives no new node.\<close>

definition no_room :: "env \<Rightarrow> addr \<Rightarrow> size \<Rightarrow> mem \<Rightarrow> bool" where
  "no_room e pool k m \<longleftrightarrow> find_slot e pool (unat (spr_get_npages e k - 1)) k m = Some NULL \<and>
     sys_alloc e (blocks m) (spr_get_npages e k * spr_get_page_size e) = NULL"

lemma no_room_iff:
  assumes "blocks_ok (blocks m)" "page_ok e" "nodes_inv e m pool S" "accessible e (blocks m) pool"
    and i: "unat (spr_get_npages e k - 1) = i" "i < SPR_MAX_POOL_SLOT"
  shows "no_room e pool k m \<longleftrightarrow>
    (\<forall>h \<in> set (concat (map S [i..<SPR_MAX_POOL_SLOT])). mn_size_avail (mnodes m h) < k) \<and>
    sys_alloc e (blocks m) (spr_get_npages e k * spr_get_page_size e) = NULL"
proof -
  let ?P = "\<lambda>x. k \<le> mn_size_avail (mnodes m x)" and ?xs = "concat (map S [i..<SPR_MAX_POOL_SLOT])"
  have nz: "x \<noteq> NULL" if "x \<in> set ?xs" for x
  proof -
    have "x \<in> set (all_nodes S)" using that by (auto simp: all_nodes_def)
    then obtain j where "j < SPR_MAX_POOL_SLOT" "node_ok e m j x"
      using nodes_inv_slot [OF assms(3), of x] by blast
    from node_ok_accessible [OF assms(1,2) this] show ?thesis by (rule accessible_nonnull)
  qed
  have "find_slot e pool i k m = Some (or_null (find ?P ?xs))"
    using assms by (intro find_slot_first_fit) simp_all
  moreover have "or_null (find ?P ?xs) = NULL \<longleftrightarrow> (\<forall>h \<in> set ?xs. mn_size_avail (mnodes m h) < k)"
  proof (cases "find ?P ?xs")
    case None
    then have "\<forall>h \<in> set ?xs. \<not> ?P h" unfolding find_None_iff by blast
    then have "\<forall>h \<in> set ?xs. mn_size_avail (mnodes m h) < k" by (simp only: not_le)
    moreover have "or_null (find ?P ?xs) = NULL" using None by simp
    ultimately show ?thesis by blast
  next
    case (Some h)
    from find_SomeD [OF this] have h: "h \<in> set ?xs" "?P h" by simp_all
    then have "or_null (find ?P ?xs) \<noteq> NULL" using Some nz by simp
    moreover have "\<not> mn_size_avail (mnodes m h) < k" using h(2) by simp
    ultimately show ?thesis using h(1) by blast
  qed
  ultimately show ?thesis by (simp add: no_room_def i(1))
qed

text \<open>Memory exhaustion: nothing happened but the error number.\<close>

lemma palloc_from_nodes_ok:
  assumes al: "alloc_ok e" and bl: "blocks_ok (blocks m)" and pg: "page_ok e"
    and nd: "nodes_inv e m pool S" and acc: "accessible e (blocks m) pool"
    and k: "8 dvd unat k" "unat k + 48 < 2 ^ 64"
    and idx: "unat (spr_get_npages e k - 1) < SPR_MAX_POOL_SLOT"
  obtains (fail) "palloc_from_nodes e pool k (spr_get_npages e k) m
      = Some (NULL, m\<lparr>errno := ENOMEM\<rparr>)" "no_room e pool k m"
  | (ok) a m' S' where "palloc_from_nodes e pool k (spr_get_npages e k) m = Some (a, m')"
      "hands_out e pool k m S a m' S'" "\<not> no_room e pool k m"
proof -
  let ?n = "spr_get_npages e k" and ?i = "unat (spr_get_npages e k - 1)"
  let ?P = "\<lambda>x. k \<le> mn_size_avail (mnodes m x)"
  let ?xs = "concat (map S [?i..<SPR_MAX_POOL_SLOT])"
  note len = npages_node_len [OF pg k(2) idx]
  have sub: "set ?xs \<subseteq> set (all_nodes S)" by (auto simp: all_nodes_def)
  have accs: "\<forall>x \<in> set ?xs. accessible e (blocks m) x"
    using sub nodes_inv_slot [OF nd] node_ok_accessible [OF bl pg] by blast
  then have nz: "\<forall>x \<in> set ?xs. x \<noteq> NULL" using accessible_nonnull by blast
  have fs: "find_slot e pool ?i k m = Some (or_null (find ?P ?xs))"
    using idx by (intro find_slot_first_fit [OF bl pg nd acc]) simp
  show thesis
  proof (cases "find ?P ?xs")
    case (Some h)
    then have h: "h \<in> set ?xs" "?P h" using find_SomeD [of ?P ?xs h] by simp_all
    have "take_from_node e h k m = Some (mn_first_avail (mnodes m h),
        m\<lparr>mnodes := (mnodes m)(h := taken (mnodes m h) k)\<rparr>)"
      using accs h(1) by (intro take_from_node_eq) auto
    then have "palloc_from_nodes e pool k ?n m = Some (mn_first_avail (mnodes m h),
        m\<lparr>mnodes := (mnodes m)(h := taken (mnodes m h) k)\<rparr>)"
      using fs Some nz h(1) by (auto simp: palloc_from_nodes_def)
    moreover have "h \<in> set (all_nodes S)" using h(1) sub by blast
    moreover have "\<not> no_room e pool k m" using fs Some nz h(1) by (auto simp: no_room_def)
    ultimately show thesis
      using take_hands_out [OF bl pg nd _ h(2) k(1) refl] by (intro ok)
  next
    case None
    have "512 \<le> unat (?n * spr_get_page_size e)"
      unfolding len using node_len_pos [of e ?i, THEN conjunct2] pg idx
      by (simp add: SPR_MAX_POOL_SLOT_def)
    with al bl show thesis
    proof (cases rule: memnode_allocate_cases)
      case fail
      then show thesis using fs None that(1) by (simp add: palloc_from_nodes_def no_room_def)
    next
      case (new a c)
      let ?m1 = "with_node pool ?i a (node_len e ?i) c m"
      have bl1: "blocks_ok ((a, node_len e ?i) # blocks m)" using new by (simp add: len)
      have "palloc_from_nodes e pool k ?n m = Some (a + 48,
          ?m1\<lparr>mnodes := (mnodes ?m1)(a := taken (mnodes ?m1 a) k)\<rparr>)"
        using fs None idx len new acc
        by (intro palloc_from_fresh_node [where m = m, OF _ idx _ _ new(1)]) simp_all
      moreover have "hands_out e pool k m S (a + 48)
          (?m1\<lparr>mnodes := (mnodes ?m1)(a := taken (mnodes ?m1 a) k)\<rparr>) (S(?i := a # S ?i))"
        using k len by (intro new_node_hands_out [OF bl1 pg nd idx]) simp_all
      moreover have "\<not> no_room e pool k m" using new(4) by (simp add: no_room_def)
      ultimately show thesis by (intro ok) simp_all
    qed
  qed
qed

section \<open>Small requests\<close>

text \<open>The request sizes the slots serve: rounded up and with the node header they fit in
  fewer than twenty pages.\<close>

definition round_up :: "nat \<Rightarrow> nat" where
  "round_up n = max 16 ((n + 7) div 8 * 8)"

definition small_request :: "env \<Rightarrow> size \<Rightarrow> bool" where
  "small_request e n \<longleftrightarrow> round_up (unat n) + 48 < 20 * unat (spr_get_page_size e)"

lemma small_request_facts:
  assumes "page_ok e" "small_request e n"
  shows "unat (spr_align_allocation n) = round_up (unat n)"
    "8 dvd unat (spr_align_allocation n)" "unat n \<le> unat (spr_align_allocation n)"
    "spr_align_allocation n \<noteq> 0"
    "unat (spr_align_allocation n) + 48 < 2 ^ 64"
    "unat (spr_get_npages e (spr_align_allocation n) - 1) < SPR_MAX_POOL_SLOT"
proof -
  let ?p = "unat (spr_get_page_size e)" and ?k = "spr_align_allocation n"
  have "?p \<le> 2 ^ 32" using assms(1) by (simp add: page_ok_def)
  then have b: "round_up (unat n) + 48 < 20 * 2 ^ 32"
    using assms(2) by (simp add: small_request_def)
  then have "unat n + 7 < 2 ^ 64" by (simp add: round_up_def)
  then show v: "unat ?k = round_up (unat n)"
    by (simp add: align_allocation_value round_up_def)
  then have "16 \<le> unat ?k" by (simp add: round_up_def)
  then show "?k \<noteq> 0" by auto
  show "8 dvd unat ?k" unfolding v round_up_def max_def by auto
  show "unat n \<le> unat ?k" unfolding v round_up_def by linarith
  show lim: "unat ?k + 48 < 2 ^ 64" using b v by simp
  have "unat (spr_get_npages e ?k) = (unat ?k + 48) div ?p + 1"
    using assms(1) lim by (intro unat_npages) (auto simp: page_ok_def)
  then have "unat (spr_get_npages e ?k - 1) = (unat ?k + 48) div ?p"
    by (subst unat_diff_exact) simp_all
  also have "\<dots> < 20"
    using assms by (simp add: small_request_def v page_ok_def less_mult_imp_div_less)
  finally show "unat (spr_get_npages e ?k - 1) < SPR_MAX_POOL_SLOT"
    by (simp add: SPR_MAX_POOL_SLOT_def)
qed

lemmas inv_parts = node_ok_def nodes_inv_def handed_out_def used_by_def home_ok_def
  lock_ok_def cleanups_inv_def

text \<open>The node invariant does not look at the mutexes.\<close>

lemma inv_mutexes [spr_frame]:
  "nodes_inv e (m\<lparr>mutexes := f\<rparr>) pool S = nodes_inv e m pool S"
  "used_by (m\<lparr>mutexes := f\<rparr>) S = used_by m S"
  "home_ok e (m\<lparr>mutexes := f\<rparr>) pool S = home_ok e m pool S"
  "cleanups_inv (m\<lparr>mutexes := f\<rparr>) pool S cl fr = cleanups_inv m pool S cl fr"
  by (simp_all add: inv_parts)

lemma frame_mutexes [spr_frame]:
  "pool_frame (m\<lparr>mutexes := f\<rparr>) pool S m' S' = pool_frame m pool S m' S'"
  "pool_frame m pool S (m'\<lparr>mutexes := f\<rparr>) S' = pool_frame m pool S m' S'"
  "new_blocks (m\<lparr>mutexes := f\<rparr>) m' A = new_blocks m m' A"
  "new_blocks m (m'\<lparr>mutexes := f\<rparr>) A = new_blocks m m' A"
  by (simp_all add: pool_frame_def new_blocks_def spr_frame)

lemma hands_out_mutexes:
  "hands_out e pool k (m\<lparr>mutexes := f\<rparr>) S a m' S' \<Longrightarrow>
    mutexes m' = f \<and> hands_out e pool k m S a (m'\<lparr>mutexes := mutexes m\<rparr>) S'"
  unfolding hands_out_def by (simp add: spr_frame)

lemma accessible_mono: "accessible e bs a \<Longrightarrow> set bs \<subseteq> set cs \<Longrightarrow> accessible e cs a"
  by (auto simp: accessible_def list_ex_iff)

lemma hands_out_pool:
  assumes "hands_out e pool k m S a m' S'"
  shows "pl_mutex (pools m' p) = pl_mutex (pools m p)" "pl_cleanups (pools m' p) = pl_cleanups (pools m p)"
    "pl_free_cleanups (pools m' p) = pl_free_cleanups (pools m p)"
    "pl_child (pools m' p) = pl_child (pools m p)" "pl_brother (pools m' p) = pl_brother (pools m p)"
    "pl_parent (pools m' p) = pl_parent (pools m p)" "pl_owner (pools m' p) = pl_owner (pools m p)"
  using assms by (auto simp: hands_out_def)

lemma hands_out_inv:
  assumes "pool_inv e m pool S cl fr" "hands_out e pool k m S a m' S'"
  shows "pool_inv e m' pool S' cl fr"
proof -
  note same = hands_out_pool [OF assms(2)]
  have acc: "accessible e (blocks m') x" if "accessible e (blocks m) x" for x
    using that assms(2) by (auto simp: hands_out_def intro: accessible_mono)
  have "home_ok e m' pool S'"
    using assms unfolding pool_inv_def home_ok_def hands_out_def by metis
  moreover have "lock_ok e m' pool"
    using assms acc unfolding pool_inv_def lock_ok_def hands_out_def same by metis
  moreover have "cleanups_inv m' pool S' cl fr"
    using assms unfolding pool_inv_def cleanups_inv_def hands_out_def same by auto
  ultimately show ?thesis using assms by (simp add: pool_inv_def hands_out_def)
qed

lemma pool_inv_accessible: "pool_inv e m pool S cl fr \<Longrightarrow> accessible e (blocks m) pool"
  by (auto simp: pool_inv_def intro: pool_accessible)

lemma palloc_small_cases:
  assumes inv: "pool_inv e m pool S cl fr" and n: "small_request e n"
  obtains (fail) "palloc_depth (Suc d) e pool n m = Some (NULL, m\<lparr>errno := ENOMEM\<rparr>)"
      "no_room e pool (spr_align_allocation n) m"
  | (ok) a m' S' where "palloc_depth (Suc d) e pool n m = Some (a, m')"
      "hands_out e pool (spr_align_allocation n) m S a m' S'"
      "\<not> no_room e pool (spr_align_allocation n) m"
proof -
  let ?k = "spr_align_allocation n" and ?m1 = "m\<lparr>mutexes := locked e m pool\<rparr>"
  have pg: "page_ok e" and al: "alloc_ok e" and bl: "blocks_ok (blocks m)"
    and nd: "nodes_inv e m pool S" and lk: "lock_ok e m pool"
    using inv by (simp_all add: pool_inv_def)
  note acc = pool_inv_accessible [OF inv]
  note k = small_request_facts [OF pg n]
  have lock: "pool_lock e pool m = Some ?m1" by (rule pool_lock_ok [OF lk acc])
  have depth: "palloc_depth (Suc d) e pool n m = do {
      (a, m) \<leftarrow> palloc_from_nodes e pool ?k (spr_get_npages e ?k) ?m1;
      m \<leftarrow> pool_unlock e pool m; Some (a, m) }"
    using k(4,6) lock by (simp add: Let_def)
  have mtx: "thread_safety e \<Longrightarrow> accessible e (blocks m) (pl_mutex (pools m pool))"
    using lk by (simp add: lock_ok_def)
  have b1: "blocks_ok (blocks ?m1)" "nodes_inv e ?m1 pool S" "accessible e (blocks ?m1) pool"
    using bl nd acc by (simp_all add: spr_frame)
  have room: "no_room e pool ?k ?m1 = no_room e pool ?k m"
    using no_room_iff [OF b1(1) pg b1(2,3) refl k(6)] no_room_iff [OF bl pg nd acc refl k(6)] by simp
  show thesis
  proof (rule palloc_from_nodes_ok [OF al b1(1) pg b1(2,3) k(2,5,6)], goal_cases fail ok)
    case fail
    have "pool_unlock e pool (?m1\<lparr>errno := ENOMEM\<rparr>)
        = Some ((?m1\<lparr>errno := ENOMEM\<rparr>)\<lparr>mutexes := mutexes m\<rparr>)"
      using acc mtx by (intro pool_unlock_ok [OF lk]) simp_all
    then have "palloc_depth (Suc d) e pool n m = Some (NULL, m\<lparr>errno := ENOMEM\<rparr>)"
      using depth fail by simp
    then show thesis by (rule that(1)) (use fail(2) room in simp)
  next
    case (ok a m' S')
    note h = hands_out_mutexes [OF ok(2)] and p = hands_out_pool [OF ok(2)]
    have "set (blocks m) \<subseteq> set (blocks m')" using ok(2) by (simp add: hands_out_def)
    then have "pool_unlock e pool m' = Some (m'\<lparr>mutexes := mutexes m\<rparr>)"
      using h p acc mtx by (intro pool_unlock_ok [OF lk]) (auto intro: accessible_mono)
    then have "palloc_depth (Suc d) e pool n m = Some (a, m'\<lparr>mutexes := mutexes m\<rparr>)"
      using depth ok(1) by simp
    then show thesis by (rule that(2)) (use h [THEN conjunct2] ok(3) room in simp_all)
  qed
qed

declare palloc_depth.simps [simp del] cleanup_add_depth.simps [simp del]

end
