(* ===== verification/Spr_Pool_Cleanup.thy ===== *)
theory Spr_Pool_Cleanup
  imports Spr_Pool_Inv
begin

text \<open>
  The cleanup list of a pool: registering, running and removing cleanups, and what they do
  to the pool's invariant.
\<close>

section \<open>Registering a cleanup\<close>

lemma locked_inv:
  assumes "pool_inv e m pool S cl fr"
  shows "pool_inv e (m\<lparr>mutexes := locked e m pool\<rparr>) pool S cl fr"
proof -
  have "lock_ok e (m\<lparr>mutexes := locked e m pool\<rparr>) pool"
    using assms by (simp add: pool_inv_def lock_ok_def locked_def Let_def)
  then show ?thesis using assms by (simp add: pool_inv_def spr_frame)
qed

lemma small_request_cleanup_node:
  "page_ok e \<Longrightarrow> small_request e sizeof_cleanup_node"
  "spr_align_allocation sizeof_cleanup_node = 24"
  by (simp_all add: small_request_def round_up_def page_ok_def sizeof_cleanup_node_def
    spr_align_allocation_def spr_align_default_def spr_align_def SPR_ALIGN_SIZE_def spr_size)

lemma page_requests: "page_ok e \<Longrightarrow> spr_get_npages e 24 = 1"
  by (simp add: spr_get_npages_def size_constants Let_def word_less_nat_alt word_div_def page_ok_def)

text \<open>There is no cleanup node to be had: none is reserved, no memory node of the pool has room for
  one, and the system gives no page.\<close>

definition no_cleanup_node :: "env \<Rightarrow> addr \<Rightarrow> mem \<Rightarrow> bool" where
  "no_cleanup_node e pool m \<longleftrightarrow> pl_free_cleanups (pools m pool) = NULL \<and>
     no_room e pool sizeof_cleanup_node m"

lemma no_cleanup_node_iff:
  assumes inv: "pool_inv e m pool S cl fr"
  shows "no_cleanup_node e pool m \<longleftrightarrow> fr = [] \<and> (\<forall>h \<in> set (all_nodes S). mn_size_avail (mnodes m h) < 24) \<and>
    sys_alloc e (blocks m) (spr_get_page_size e) = NULL"
proof -
  have pg: "page_ok e" and bl: "blocks_ok (blocks m)" and nd: "nodes_inv e m pool S"
    and cl: "cleanups_inv m pool S cl fr" using inv by (simp_all add: pool_inv_def)
  have "pl_free_cleanups (pools m pool) = NULL \<longleftrightarrow> fr = []"
    using cl by (cases fr) (auto simp: cleanups_inv_def)
  moreover have "no_room e pool 24 m \<longleftrightarrow> (\<forall>h \<in> set (all_nodes S). mn_size_avail (mnodes m h) < 24) \<and>
      sys_alloc e (blocks m) (spr_get_page_size e) = NULL"
    using no_room_iff [OF bl pg nd pool_inv_accessible [OF inv], of 24 0] page_requests [OF pg]
    by (simp add: all_nodes_def SPR_MAX_POOL_SLOT_def)
  ultimately show ?thesis by (simp add: no_cleanup_node_def sizeof_cleanup_node_def)
qed

text \<open>A step that changes only cleanup nodes of the pool and its two cleanup lists.\<close>

lemma frame_cleanups:
  assumes "mnodes m' = mnodes m" "\<forall>c. unat c \<notin> used_by m S \<longrightarrow> cnodes m' c = cnodes m c"
    "\<forall>q. q \<noteq> pool \<longrightarrow> pools m' q = pools m q" "same_place (pools m pool) (pools m' pool)"
  shows "pool_frame m pool S m' S"
proof -
  have "used_by m' S = used_by m S" using assms(1) by (simp add: used_by_def handed_out_def)
  then show ?thesis using assms by (simp add: pool_frame_def)
qed

lemma cleanup_in_use: "cleanups_inv m pool S cl fr \<Longrightarrow> c \<in> set (cl @ fr) \<Longrightarrow> unat c \<in> used_by m S"
  unfolding cleanups_inv_def by force

text \<open>The memory after node \<^verbatim>\<open>c\<close> was registered as the first cleanup of the pool.\<close>

definition register ::
  "addr \<Rightarrow> addr \<Rightarrow> addr \<Rightarrow> handler \<Rightarrow> mem \<Rightarrow> mem" where
  "register pool c data h m = m\<lparr>
     cnodes := (cnodes m)(c := \<lparr>cn_next = pl_cleanups (pools m pool), cn_data = data,
       cn_handler = h\<rparr>),
     pools := (pools m)(pool := pools m pool\<lparr>pl_cleanups := c\<rparr>)\<rparr>"

lemma register_inv:
  assumes inv: "pool_inv e m pool S cl fr" and c: "c \<notin> set (cl @ fr)" "c \<noteq> NULL"
    and used: "{unat c..<unat c + 24} \<subseteq> used_by m S"
  shows "pool_inv e (register pool c data h m) pool S (c # cl) fr"
proof -
  have "chain (\<lambda>a. cn_next (cnodes (register pool c data h m) a)) b xs
      = chain (\<lambda>a. cn_next (cnodes m a)) b xs" if "c \<notin> set xs" for b xs
    using that by (intro chain_cong) (auto simp: register_def)
  moreover have "used_by (register pool c data h m) S = used_by m S"
    by (simp add: register_def used_by_def handed_out_def)
  ultimately have "cleanups_inv (register pool c data h m) pool S (c # cl) fr"
    using inv c used by (auto simp: pool_inv_def cleanups_inv_def register_def)
  moreover have "lock_ok e (register pool c data h m) pool"
    "home_ok e (register pool c data h m) pool S" "nodes_inv e (register pool c data h m) pool S"
    using inv by (auto simp: pool_inv_def inv_parts register_def)
  ultimately show ?thesis using inv by (auto simp: pool_inv_def register_def)
qed

lemma reserve_pop_inv:
  assumes inv: "pool_inv e m pool S cl (c # fr)"
  shows "pool_inv e (m\<lparr>pools := (pools m)(pool := pools m pool
    \<lparr>pl_free_cleanups := cn_next (cnodes m c)\<rparr>)\<rparr>) pool S cl fr"
  using inv by (auto simp: pool_inv_def inv_parts)

text \<open>The steps of \<^verbatim>\<open>spr_pool_cleanup_add1\<close> once it has a node.\<close>

lemma cleanup_add_tail:
  assumes inv: "pool_inv e m pool S cl fr"
    and m2: "mutexes m2 = locked e m pool" "pl_mutex (pools m2 pool) = pl_mutex (pools m pool)"
      "set (blocks m) \<subseteq> set (blocks m2)"
    and c: "accessible e (blocks m2) c"
  shows "do { p \<leftarrow> load_pool e pool m2;
       m \<leftarrow> upd_cnode e c (\<lambda>_. \<lparr>cn_next = pl_cleanups p, cn_data = data, cn_handler = h\<rparr>) m2;
       m \<leftarrow> upd_pool e pool (pl_cleanups_update (\<lambda>_. c)) m;
       pool_unlock e pool m } = Some (register pool c data h m2\<lparr>mutexes := mutexes m\<rparr>)"
proof -
  have acc: "accessible e (blocks m2) pool"
    using pool_inv_accessible [OF inv] m2(3) by (rule accessible_mono)
  have lk: "lock_ok e m pool" using inv by (simp add: pool_inv_def)
  have "pool_unlock e pool (register pool c data h m2)
      = Some (register pool c data h m2\<lparr>mutexes := mutexes m\<rparr>)"
  proof (rule pool_unlock_ok [OF lk])
    show "accessible e (blocks (register pool c data h m2)) (pl_mutex (pools m pool))"
      if "thread_safety e"
      using that lk m2(3) by (auto simp: lock_ok_def register_def intro: accessible_mono)
  qed (use m2 acc in \<open>simp_all add: register_def\<close>)
  then show ?thesis
    using acc c by (simp add: load_pool_def upd_cnode_def upd_pool_def register_def)
qed

text \<open>What the registration leaves behind once the node is found, whether it was reserved or is new.\<close>

lemma register_outcome:
  fixes data :: addr and h :: handler
  assumes inv: "pool_inv e m pool S cl fr" and inv2: "pool_inv e m2 pool S' cl fr'"
    and m2: "mutexes m2 = locked e m pool" "pl_mutex (pools m2 pool) = pl_mutex (pools m pool)"
      "set (blocks m) \<subseteq> set (blocks m2)" "pl_cleanups (pools m2 pool) = pl_cleanups (pools m pool)"
      "cnodes m2 = cnodes m" "calls m2 = calls m" "used_by m S \<subseteq> used_by m2 S'"
      "same_client_memory (m\<lparr>mutexes := locked e m pool\<rparr>) m2" "pool_frame m pool S m2 S'"
      "new_blocks m m2 (set (all_nodes S'))"
    and c: "c \<notin> set (cl @ fr')" "c \<noteq> NULL" "{unat c..<unat c + 24} \<subseteq> used_by m2 S'"
  defines "m' \<equiv> register pool c data h m2\<lparr>mutexes := mutexes m\<rparr>"
  shows "do { p \<leftarrow> load_pool e pool m2;
       m \<leftarrow> upd_cnode e c (\<lambda>_. \<lparr>cn_next = pl_cleanups p, cn_data = data, cn_handler = h\<rparr>) m2;
       m \<leftarrow> upd_pool e pool (pl_cleanups_update (\<lambda>_. c)) m;
       pool_unlock e pool m } = Some m'"
    "pool_inv e m' pool S' (c # cl) fr'"
    "cnodes m' = (cnodes m)(c := \<lparr>cn_next = pl_cleanups (pools m pool), cn_data = data, cn_handler = h\<rparr>)"
    "same_client_memory m m'" "calls m' = calls m" "used_by m S \<subseteq> used_by m' S'"
    "pl_mutex (pools m' pool) = pl_mutex (pools m pool)" "set (blocks m) \<subseteq> set (blocks m')"
    "pool_frame m pool S m' S'" "new_blocks m m' (set (all_nodes S'))"
proof -
  have lk: "lock_ok e m pool" using inv by (simp add: pool_inv_def)
  have "accessible e (blocks m2) c"
    using inv2 c(3) by (intro used_accessible) (auto simp: pool_inv_def)
  then show "do { p \<leftarrow> load_pool e pool m2;
       m \<leftarrow> upd_cnode e c (\<lambda>_. \<lparr>cn_next = pl_cleanups p, cn_data = data, cn_handler = h\<rparr>) m2;
       m \<leftarrow> upd_pool e pool (pl_cleanups_update (\<lambda>_. c)) m;
       pool_unlock e pool m } = Some m'"
    unfolding m'_def by (rule cleanup_add_tail [OF inv m2(1-3)])
  have "lock_ok e m' pool"
    using lk m2(2,3) by (auto simp: lock_ok_def m'_def register_def intro: accessible_mono)
  then show "pool_inv e m' pool S' (c # cl) fr'"
    using register_inv [OF inv2 c, of data h] unfolding m'_def by (simp add: pool_inv_def spr_frame)
  have "unat c \<in> used_by m2 S'" using c(3) by auto
  then have "pool_frame m2 pool S' m' S'" unfolding m'_def register_def by (intro frame_cleanups) auto
  then show "pool_frame m pool S m' S'" by (rule pool_frame_trans [OF m2(9) _ m2(3)])
  show "new_blocks m m' (set (all_nodes S'))" using m2(10) by (simp add: new_blocks_def m'_def register_def)
  show "same_client_memory m m'" using m2(8) by (simp add: m'_def register_def same_client_memory_def)
qed (use m2 in \<open>simp_all add: m'_def register_def used_by_def handed_out_def\<close>)

lemma cleanup_add_reserved:
  fixes data :: addr and h :: handler
  assumes inv: "pool_inv e m pool S cl (c # fr)"
  defines "m2 \<equiv> m\<lparr>mutexes := locked e m pool, pools := (pools m)(pool := pools m pool
    \<lparr>pl_free_cleanups := cn_next (cnodes m c)\<rparr>)\<rparr>"
  defines "m' \<equiv> register pool c data h m2\<lparr>mutexes := mutexes m\<rparr>"
  shows "cleanup_add_depth (Suc d) e pool data h m = Some m'"
    "pool_inv e m' pool S (c # cl) fr"
    "cnodes m' = (cnodes m)(c := \<lparr>cn_next = pl_cleanups (pools m pool), cn_data = data, cn_handler = h\<rparr>)"
    "same_client_memory m m'" "calls m' = calls m" "used_by m S \<subseteq> used_by m' S"
    "pl_mutex (pools m' pool) = pl_mutex (pools m pool)" "set (blocks m) \<subseteq> set (blocks m')"
    "pool_frame m pool S m' S" "new_blocks m m' (set (all_nodes S))"
proof -
  note acc = pool_inv_accessible [OF inv]
  have lk: "lock_ok e m pool" using inv by (simp add: pool_inv_def)
  have c: "pl_free_cleanups (pools m pool) = c" "c \<noteq> NULL" "accessible e (blocks m) c"
    "{unat c..<unat c + 24} \<subseteq> used_by m2 S" "c \<notin> set (cl @ fr)"
    using inv cleanup_accessible [of m e pool S cl "c # fr" c]
    by (auto simp: pool_inv_def cleanups_inv_def m2_def used_by_def handed_out_def)
  have inv2: "pool_inv e m2 pool S cl fr"
    using reserve_pop_inv [OF locked_inv [OF inv]] by (simp add: m2_def)
  have m2: "mutexes m2 = locked e m pool" "pl_mutex (pools m2 pool) = pl_mutex (pools m pool)"
    "set (blocks m) \<subseteq> set (blocks m2)" "pl_cleanups (pools m2 pool) = pl_cleanups (pools m pool)"
    "cnodes m2 = cnodes m" "calls m2 = calls m" "used_by m S \<subseteq> used_by m2 S"
    "same_client_memory (m\<lparr>mutexes := locked e m pool\<rparr>) m2" "pool_frame m pool S m2 S"
    "new_blocks m m2 (set (all_nodes S))"
    by (simp_all add: m2_def used_by_def handed_out_def same_client_memory_def pool_frame_def new_blocks_def)
  note out = register_outcome [where data = data and h = h, OF inv inv2 m2 c(5,2,4), folded m'_def]
  show "cleanup_add_depth (Suc d) e pool data h m = Some m'"
    using pool_lock_ok [OF lk acc] out(1) acc c(1,2,3)
    by (simp add: cleanup_add_depth.simps load_pool_def load_cnode_def upd_pool_def m2_def)
  show "pool_inv e m' pool S (c # cl) fr"
    "cnodes m' = (cnodes m)(c := \<lparr>cn_next = pl_cleanups (pools m pool), cn_data = data, cn_handler = h\<rparr>)"
    "same_client_memory m m'" "calls m' = calls m" "used_by m S \<subseteq> used_by m' S"
    "pl_mutex (pools m' pool) = pl_mutex (pools m pool)" "set (blocks m) \<subseteq> set (blocks m')"
    "pool_frame m pool S m' S" "new_blocks m m' (set (all_nodes S))"
    by (rule out(2-10))+
qed

lemma cleanup_add_cases:
  assumes inv: "pool_inv e m pool S cl fr"
  obtains (null_node) "no_cleanup_node e pool m" "cleanup_add_depth (Suc (Suc d)) e pool data h m = None"
  | (ok) m' S' c where "cleanup_add_depth (Suc (Suc d)) e pool data h m = Some m'"
      "pool_inv e m' pool S' (c # cl) (tl fr)" "c \<notin> set cl"
      "cnodes m' = (cnodes m)(c := \<lparr>cn_next = pl_cleanups (pools m pool), cn_data = data, cn_handler = h\<rparr>)"
      "same_client_memory m m'" "calls m' = calls m" "used_by m S \<subseteq> used_by m' S'"
      "pl_mutex (pools m' pool) = pl_mutex (pools m pool)" "set (blocks m) \<subseteq> set (blocks m')"
      "pool_frame m pool S m' S'" "new_blocks m m' (set (all_nodes S'))"
      "c \<in> set fr \<or> {unat c..<unat c + 24} \<inter> used_by m S = {}" "\<not> no_cleanup_node e pool m"
      "fr \<noteq> [] \<longrightarrow> c = hd fr"
proof (cases fr)
  case (Cons c fr')
  note r = cleanup_add_reserved [OF inv [unfolded Cons]]
  have new: "c \<notin> set cl" using inv Cons by (auto simp: pool_inv_def cleanups_inv_def)
  show thesis
    by (rule that(2) [OF r(1) _ new r(3-10)])
      (use r(2) in \<open>simp only: Cons list.sel\<close>, simp_all add: Cons no_cleanup_node_iff [OF inv])
next
  case Nil
  let ?m1 = "m\<lparr>mutexes := locked e m pool\<rparr>"
  note inv1 = locked_inv [OF inv]
  note acc = pool_inv_accessible [OF inv]
  have pg: "page_ok e" and lk: "lock_ok e m pool" using inv by (simp_all add: pool_inv_def)
  have free: "pl_free_cleanups (pools m pool) = NULL"
    using inv Nil by (simp add: pool_inv_def cleanups_inv_def)
  note step = acc pool_lock_ok [OF lk acc] free
  have node: "spr_align_allocation sizeof_cleanup_node = sizeof_cleanup_node"
    by (rule small_request_cleanup_node(2) [folded sizeof_cleanup_node_def])
  have room: "no_room e pool sizeof_cleanup_node ?m1 = no_cleanup_node e pool m"
    using no_cleanup_node_iff [OF inv] no_cleanup_node_iff [OF inv1] free by (simp add: no_cleanup_node_def)
  show thesis
  proof (rule palloc_small_cases [OF inv1 small_request_cleanup_node(1) [OF pg], of d],
      goal_cases fail ok)
    case fail
    show thesis
      by (rule null_node)
        (use step fail room node in \<open>simp_all add: cleanup_add_depth.simps load_pool_def upd_cnode_def accessible_def\<close>)
  next
    case (ok a m2 S')
    have h: "hands_out e pool 24 ?m1 S a m2 S'" using ok(2) by (simp add: small_request_cleanup_node)
    have inv2: "pool_inv e m2 pool S' cl []" using hands_out_inv [OF inv1 h] Nil by simp
    have m2: "mutexes m2 = locked e m pool" "pl_mutex (pools m2 pool) = pl_mutex (pools m pool)"
      "set (blocks m) \<subseteq> set (blocks m2)" "pl_cleanups (pools m2 pool) = pl_cleanups (pools m pool)"
      "cnodes m2 = cnodes m" "calls m2 = calls m" "used_by m S \<subseteq> used_by m2 S'"
      "same_client_memory ?m1 m2" "pool_frame m pool S m2 S'" "new_blocks m m2 (set (all_nodes S'))"
      using h hands_out_pool [OF h] by (auto simp: hands_out_def same_client_memory_def spr_frame)
    have a: "{unat a..<unat a + 24} \<subseteq> used_by m2 S'" "a \<noteq> NULL" "{unat a..<unat a + 24} \<inter> used_by m S = {}"
      using h by (auto simp: hands_out_def spr_frame)
    have "unat c \<in> used_by m S" if "c \<in> set cl" for c
      using inv that by (force simp: pool_inv_def cleanups_inv_def)
    then have new: "a \<notin> set cl" using a(3) by fastforce
    then have "a \<notin> set (cl @ [])" by simp
    note out = register_outcome [where data = data and h = h, OF inv inv2 m2 this a(2,1)]
    have "accessible e (blocks m2) a" using inv2 a(1) by (intro used_accessible) (auto simp: pool_inv_def)
    then show thesis
      using step ok(1,3) out Nil room node
      using a(3) by (intro that(2) [OF _ _ new out(3-10)]) (simp_all add: cleanup_add_depth.simps load_pool_def)
  qed
qed

section \<open>Running all cleanups\<close>

text \<open>The calls the registered nodes stand for, and the blocks these calls release.\<close>

definition pending :: "mem \<Rightarrow> addr list \<Rightarrow> (handler \<times> addr) list" where
  "pending m cl = map (\<lambda>c. (cn_handler (cnodes m c), cn_data (cnodes m c))) cl"

fun frees :: "(handler \<times> addr) list \<Rightarrow> addr list" where
  "frees [] = []"
| "frees ((H_spr_free, d) # hs) = d # frees hs"
| "frees ((H_user k, d) # hs) = frees hs"

definition blocks_without :: "addr set \<Rightarrow> (addr \<times> size) list \<Rightarrow> (addr \<times> size) list" where
  "blocks_without F bs = filter (\<lambda>b. fst b \<notin> F) bs"

text \<open>Every block to be released is live and is released once.\<close>

definition frees_ready :: "mem \<Rightarrow> addr list \<Rightarrow> bool" where
  "frees_ready m ds \<longleftrightarrow> distinct ds \<and> (\<forall>d \<in> set ds. d \<noteq> NULL \<and> d \<in> fst ` set (blocks m))"

lemma accessible_subset:
  "accessible e (blocks_without F bs) a \<Longrightarrow> F' \<subseteq> F \<Longrightarrow> accessible e (blocks_without F' bs) a"
  by (erule accessible_mono) (auto simp: blocks_without_def)

lemma blocks_without_simps [simp]:
  "blocks_without {} bs = bs"
  "blocks_without F (blocks_without G bs) = blocks_without (F \<union> G) bs"
  by (auto simp: blocks_without_def intro!: filter_cong)

lemma pending_cong:
  "(\<And>c. c \<in> set cl \<Longrightarrow> cnodes m' c = cnodes m c) \<Longrightarrow> pending m' cl = pending m cl"
  by (simp add: pending_def)

lemma call_handler_eq:
  assumes "frees_ready m (frees [(h, d)])"
  shows "call_handler h d m = Some (m\<lparr>blocks := blocks_without (set (frees [(h, d)])) (blocks m),
    calls := calls m @ [(h, d)]\<rparr>)"
proof (cases h)
  case H_spr_free
  then show ?thesis using assms
    by (auto simp: call_handler_def spr_free_def frees_ready_def blocks_without_def
      intro!: mem.equality filter_cong)
next
  case (H_user k)
  then show ?thesis by (auto simp: call_handler_def intro!: mem.equality)
qed

lemma frees_Cons: "frees (x # hs) = frees [x] @ frees hs"
  by (cases x; cases "fst x") auto

lemma frees_ready_append:
  assumes "frees_ready m (xs @ ys)"
  shows "frees_ready m xs"
    "blocks m' = blocks_without (set xs) (blocks m) \<Longrightarrow> frees_ready m' ys"
proof -
  show "frees_ready m xs" using assms by (auto simp: frees_ready_def)
  assume "blocks m' = blocks_without (set xs) (blocks m)"
  then have "fst ` set (blocks m') = fst ` set (blocks m) - set xs"
    by (auto simp: blocks_without_def image_iff)
  moreover have "set xs \<inter> set ys = {}" using assms by (auto simp: frees_ready_def)
  ultimately show "frees_ready m' ys" using assms unfolding frees_ready_def by auto
qed

lemma run_all_loop_eq:
  assumes "chain (\<lambda>a. cn_next (cnodes m a)) a cl" "distinct (cl @ fr)"
    and "chain (\<lambda>a. cn_next (cnodes m a)) (pl_free_cleanups (pools m pool)) fr"
    and "frees_ready m (frees (pending m cl))"
    and "\<forall>x \<in> insert pool (set cl). accessible e
      (blocks_without (set (frees (pending m cl))) (blocks m)) x"
  shows "\<exists>cn f. run_all_loop e pool a m = Some (m\<lparr>
      blocks := blocks_without (set (frees (pending m cl))) (blocks m),
      pools := (pools m)(pool := pools m pool\<lparr>pl_free_cleanups := f\<rparr>),
      cnodes := cn, calls := calls m @ pending m cl\<rparr>)
    \<and> chain (\<lambda>a. cn_next (cn a)) f (rev cl @ fr) \<and> (\<forall>x. x \<notin> set cl \<longrightarrow> cn x = cnodes m x)"
  using assms
proof (induction cl arbitrary: a m fr)
  case Nil
  then show ?case
    by (intro exI [of _ "cnodes m"] exI [of _ "pl_free_cleanups (pools m pool)"])
      (auto simp: run_all_loop.simps pending_def intro!: mem.equality)
next
  case (Cons c cl)
  let ?h = "cn_handler (cnodes m c)" and ?d = "cn_data (cnodes m c)"
  let ?F1 = "set (frees [(?h, ?d)])" and ?F = "set (frees (pending m (c # cl)))"
  let ?f = "pl_free_cleanups (pools m pool)"
  let ?m1 = "m\<lparr>blocks := blocks_without ?F1 (blocks m), calls := calls m @ [(?h, ?d)]\<rparr>"
  let ?m2 = "?m1\<lparr>cnodes := (cnodes m)(c := cnodes m c\<lparr>cn_next := ?f\<rparr>),
    pools := (pools m)(pool := pools m pool\<lparr>pl_free_cleanups := c\<rparr>)\<rparr>"
  have pend: "pending m (c # cl) = (?h, ?d) # pending m cl" by (simp add: pending_def)
  have sub: "?F = ?F1 \<union> set (frees (pending m cl))"
    unfolding pend by (subst frees_Cons) simp
  have a: "a = c" "c \<noteq> NULL" "chain (\<lambda>a. cn_next (cnodes m a)) (cn_next (cnodes m c)) cl"
    and ncl: "c \<notin> set cl" "c \<notin> set fr" using Cons.prems(1,2) by auto
  have acc: "accessible e (blocks m) x" "accessible e (blocks_without ?F1 (blocks m)) x"
    if "x \<in> insert pool (set (c # cl))" for x
    using Cons.prems(5) that sub accessible_subset [of e ?F "blocks m" x "{}"]
      accessible_subset [of e ?F "blocks m" x ?F1] by auto
  have split: "frees (pending m (c # cl)) = frees [(?h, ?d)] @ frees (pending m cl)"
    unfolding pend by (rule frees_Cons)
  note ready = frees_ready_append [OF Cons.prems(4) [unfolded split]]
  have step: "run_all_loop e pool a m = run_all_loop e pool (cn_next (cnodes m c)) ?m2"
    using a(1,2) acc [of c] acc [of pool] call_handler_eq [OF ready(1)]
    by (subst run_all_loop.simps) (simp add: load_cnode_def load_pool_def upd_cnode_def upd_pool_def)
  have p2: "pending ?m2 cl = pending m cl" using ncl(1) by (intro pending_cong) auto
  have other: "chain (\<lambda>a. cn_next (cnodes ?m2 a)) b xs = chain (\<lambda>a. cn_next (cnodes m a)) b xs"
    if "c \<notin> set xs" for b xs using that by (intro chain_cong) auto
  have "\<exists>cn f. run_all_loop e pool (cn_next (cnodes m c)) ?m2 = Some (?m2\<lparr>
      blocks := blocks_without (set (frees (pending ?m2 cl))) (blocks ?m2),
      pools := (pools ?m2)(pool := pools ?m2 pool\<lparr>pl_free_cleanups := f\<rparr>),
      cnodes := cn, calls := calls ?m2 @ pending ?m2 cl\<rparr>)
    \<and> chain (\<lambda>a. cn_next (cn a)) f (rev cl @ c # fr) \<and> (\<forall>x. x \<notin> set cl \<longrightarrow> cn x = cnodes ?m2 x)"
  proof (rule Cons.IH)
    show "chain (\<lambda>a. cn_next (cnodes ?m2 a)) (cn_next (cnodes m c)) cl"
      using a(3) other [OF ncl(1)] by simp
    show "distinct (cl @ c # fr)" using Cons.prems(2) by auto
    show "chain (\<lambda>a. cn_next (cnodes ?m2 a)) (pl_free_cleanups (pools ?m2 pool)) (c # fr)"
      using a(2) Cons.prems(3) other [OF ncl(2)] by simp
    show "frees_ready ?m2 (frees (pending ?m2 cl))"
      unfolding p2 by (rule ready(2)) simp
    show "\<forall>x \<in> insert pool (set cl). accessible e
        (blocks_without (set (frees (pending ?m2 cl))) (blocks ?m2)) x"
      using Cons.prems(5) unfolding p2 sub by (simp add: Un_commute)
  qed
  then obtain cn f where "run_all_loop e pool (cn_next (cnodes m c)) ?m2 = Some (?m2\<lparr>
      blocks := blocks_without (set (frees (pending m cl))) (blocks ?m2),
      pools := (pools ?m2)(pool := pools ?m2 pool\<lparr>pl_free_cleanups := f\<rparr>),
      cnodes := cn, calls := calls ?m2 @ pending m cl\<rparr>)"
    "chain (\<lambda>a. cn_next (cn a)) f (rev cl @ c # fr)" "\<forall>x. x \<notin> set cl \<longrightarrow> cn x = cnodes ?m2 x"
    unfolding p2 by blast
  note run = this
  show ?case
    unfolding step unfolding sub unfolding pend
    by (insert run, intro exI [of _ cn] exI [of _ f]) (simp add: Un_commute, rule mem.equality, simp_all add: fun_eq_iff)
qed

lemma blocks_ok_without: "blocks_ok bs \<Longrightarrow> blocks_ok (blocks_without F bs)"
  by (induction bs) (auto simp: blocks_without_def list_all_iff)

text \<open>The blocks the handlers release are not the pool's own.\<close>

definition releases_ok :: "mem \<Rightarrow> addr \<Rightarrow> slots \<Rightarrow> addr list \<Rightarrow> bool" where
  "releases_ok m pool S ds \<longleftrightarrow> frees_ready m ds \<and> set ds \<inter> set (all_nodes S) = {} \<and>
     (\<forall>(d, n) \<in> set (blocks m). d \<in> set ds \<longrightarrow> \<not> in_range d n (pl_mutex (pools m pool)))"

lemma accessible_without:
  assumes "accessible e bs x" "\<forall>(d, n) \<in> set bs. d \<in> F \<longrightarrow> \<not> in_range d n x"
  shows "accessible e (blocks_without F bs) x"
  using assms by (force simp: accessible_def list_ex_iff blocks_without_def)

lemma nodes_inv_blocks:
  assumes "nodes_inv e m pool S" "set ds \<inter> set (all_nodes S) = {}"
    "blocks m' = blocks_without (set ds) (blocks m)" "mnodes m' = mnodes m"
    "pl_nodes (pools m' pool) = pl_nodes (pools m pool)"
  shows "nodes_inv e m' pool S"
proof -
  have "node_ok e m' i a" if "i < SPR_MAX_POOL_SLOT" "a \<in> set (S i)" for i a
  proof -
    have "a \<notin> set ds" using assms(2) that by (auto simp: set_all_nodes)
    then show ?thesis
      using assms(1,3,4) that by (simp add: nodes_inv_def node_ok_def blocks_without_def)
  qed
  then show ?thesis using assms(1,4,5) by (simp add: nodes_inv_def)
qed

lemma run_all_ok:
  assumes inv: "pool_inv e m pool S cl fr"
    and rel: "releases_ok m pool S (frees (pending m cl))"
  obtains m' where "spr_pool_cleanup_run_all e pool m = Some m'"
    "pool_inv e m' pool S [] (rev cl @ fr)"
    "calls m' = calls m @ pending m cl" "used_by m' S = used_by m S"
    "blocks m' = blocks_without (set (frees (pending m cl))) (blocks m)"
    "same_client_memory m m'" "mnodes m' = mnodes m" "errno m' = errno m"
    "\<forall>x. x \<notin> set cl \<longrightarrow> cnodes m' x = cnodes m x"
    "\<exists>f. pools m' = (pools m)(pool := pools m pool\<lparr>pl_free_cleanups := f, pl_cleanups := NULL\<rparr>)"
proof -
  let ?ds = "frees (pending m cl)"
  let ?bs = "blocks_without (set ?ds) (blocks m)"
  have nd: "nodes_inv e m pool S" and bl: "blocks_ok (blocks m)" and cln: "cleanups_inv m pool S cl fr"
    using inv by (simp_all add: pool_inv_def)
  have bl': "blocks_ok ?bs" using bl by (rule blocks_ok_without)
  have nd': "nodes_inv e (m\<lparr>blocks := ?bs\<rparr>) pool S"
    using rel by (intro nodes_inv_blocks [OF nd]) (auto simp: releases_ok_def)
  have used: "used_by (m\<lparr>blocks := ?bs\<rparr>) S = used_by m S"
    by (simp add: used_by_def handed_out_def)
  have "cleanups_inv (m\<lparr>blocks := ?bs\<rparr>) pool S cl fr"
    using cln used by (simp add: cleanups_inv_def)
  then have accc: "accessible e ?bs x" if "x \<in> set (cl @ fr)" for x
    using cleanup_accessible [OF _ nd' _ that] bl' by simp
  have "home_ok e (m\<lparr>blocks := ?bs\<rparr>) pool S"
    using inv by (simp add: pool_inv_def home_ok_def)
  then have accp: "accessible e ?bs pool"
    using pool_accessible [OF _ nd'] bl' by simp
  have ch: "chain (\<lambda>a. cn_next (cnodes m a)) (pl_cleanups (pools m pool)) cl"
    "chain (\<lambda>a. cn_next (cnodes m a)) (pl_free_cleanups (pools m pool)) fr" "distinct (cl @ fr)"
    using cln by (simp_all add: cleanups_inv_def)
  have ready: "frees_ready m ?ds" using rel by (simp add: releases_ok_def)
  obtain cn f where run: "run_all_loop e pool (pl_cleanups (pools m pool)) m = Some (m\<lparr>blocks := ?bs,
      pools := (pools m)(pool := pools m pool\<lparr>pl_free_cleanups := f\<rparr>),
      cnodes := cn, calls := calls m @ pending m cl\<rparr>)"
    and free: "chain (\<lambda>a. cn_next (cn a)) f (rev cl @ fr)" "\<forall>x. x \<notin> set cl \<longrightarrow> cn x = cnodes m x"
    using run_all_loop_eq [OF ch(1,3,2) ready, of e] accc accp by auto
  let ?m' = "m\<lparr>blocks := ?bs, cnodes := cn, calls := calls m @ pending m cl,
      pools := (pools m)(pool := pools m pool\<lparr>pl_free_cleanups := f, pl_cleanups := NULL\<rparr>)\<rparr>"
  have acc: "accessible e (blocks m) pool" by (rule pool_inv_accessible [OF inv])
  have res: "spr_pool_cleanup_run_all e pool m = Some ?m'"
    using acc accp run by (simp add: spr_pool_cleanup_run_all_def load_pool_def upd_pool_def)
  have u': "used_by ?m' S = used_by m S" by (simp add: used_by_def handed_out_def)
  have "nodes_inv e ?m' pool S"
    using rel by (intro nodes_inv_blocks [OF nd]) (auto simp: releases_ok_def)
  moreover have "lock_ok e ?m' pool"
    using inv rel unfolding pool_inv_def lock_ok_def releases_ok_def
    by (auto intro: accessible_without)
  moreover have "cleanups_inv ?m' pool S [] (rev cl @ fr)"
    using free(1) cln u' by (auto simp: cleanups_inv_def)
  moreover have "home_ok e ?m' pool S" using inv by (simp add: pool_inv_def home_ok_def)
  ultimately have "pool_inv e ?m' pool S [] (rev cl @ fr)"
    using inv bl' by (simp add: pool_inv_def)
  then show thesis using u' free(2) by (intro that [OF res]) (auto simp: same_client_memory_def)
qed

section \<open>Removing one cleanup\<close>

text \<open>The first registered node with this data and handler splits the list.\<close>

definition is_cleanup :: "mem \<Rightarrow> addr \<Rightarrow> handler \<Rightarrow> addr \<Rightarrow> bool" where
  "is_cleanup m data h c \<longleftrightarrow> cn_data (cnodes m c) = data \<and> cn_handler (cnodes m c) = h"

lemma find_cleanup_eq:
  assumes "chain (\<lambda>a. cn_next (cnodes m a)) a cl" "\<forall>c \<in> set cl. accessible e (blocks m) c"
  shows "find_cleanup e a prev data h m = Some
    (or_null (find (is_cleanup m data h) cl),
     last (prev # takeWhile (\<lambda>c. \<not> is_cleanup m data h c) cl))"
  using assms
proof (induction cl arbitrary: a prev)
  case Nil
  then show ?case by (simp add: find_cleanup.simps)
next
  case (Cons c cl)
  then show ?case
    by (simp add: find_cleanup.simps [of e a] load_cnode_def is_cleanup_def)
qed

lemma split_at_first:
  "find P xs = Some z \<Longrightarrow> \<exists>zs. xs = takeWhile (\<lambda>x. \<not> P x) xs @ z # zs"
  by (induction xs) (auto split: if_splits)


text \<open>Taking a node out of the middle of a chain.\<close>

lemma chain_unlink:
  assumes "chain nx a (ys @ z # zs)" "distinct (ys @ z # zs)"
  shows "chain (if ys = [] then nx else nx(last ys := nx z)) (if ys = [] then nx z else a) (ys @ zs)"
  using assms
proof (induction ys arbitrary: a)
  case (Cons y ys)
  show ?case
  proof (cases "ys = []")
    case True
    then have c: "y = a" "a \<noteq> NULL" "chain nx (nx z) zs" "y \<notin> set zs"
      using Cons.prems by auto
    then show ?thesis using True chain_update_other [of y zs nx "nx z" "nx z"]
      by (simp add: fun_upd_def)
  next
    case False
    then have "last ys \<noteq> a" "a \<notin> set ys" using Cons.prems by auto
    then show ?thesis using Cons False by simp
  qed
qed auto

lemma unlink_cleanup_ok:
  assumes inv: "pool_inv e m pool S (ys @ z # zs) fr"
    and prev: "ys \<noteq> [] \<Longrightarrow> prev = last ys"
  obtains cn where "unlink_cleanup e pool z prev m = Some (m\<lparr>cnodes := cn,
      pools := (pools m)(pool := pools m pool\<lparr>pl_cleanups := (if ys = [] then cn_next (cnodes m z)
        else pl_cleanups (pools m pool)), pl_free_cleanups := z\<rparr>)\<rparr>)"
    "chain (\<lambda>a. cn_next (cn a)) (if ys = [] then cn_next (cnodes m z) else pl_cleanups (pools m pool)) (ys @ zs)"
    "chain (\<lambda>a. cn_next (cn a)) z (z # fr)"
    "\<forall>c. cn_data (cn c) = cn_data (cnodes m c) \<and> cn_handler (cn c) = cn_handler (cnodes m c)"
    "\<forall>c. unat c \<notin> used_by m S \<longrightarrow> cn c = cnodes m c"
proof -
  let ?nx = "\<lambda>a. cn_next (cnodes m a)" and ?p = "pools m pool"
  have cln: "cleanups_inv m pool S (ys @ z # zs) fr" using inv by (simp add: pool_inv_def)
  have ch: "chain ?nx (pl_cleanups ?p) (ys @ z # zs)" "chain ?nx (pl_free_cleanups ?p) fr"
    and di: "distinct ((ys @ z # zs) @ fr)"
    using cln by (simp_all add: cleanups_inv_def)
  have acc: "accessible e (blocks m) pool" by (rule pool_inv_accessible [OF inv])
  have accc: "accessible e (blocks m) c" if "c \<in> set ((ys @ z # zs) @ fr)" for c
    using inv that by (intro cleanup_accessible [of m e pool S]) (auto simp: pool_inv_def)
  have z: "z \<noteq> NULL" using chain_nonzero [OF ch(1)] by simp
  have hd: "pl_cleanups ?p = z \<longleftrightarrow> ys = []"
    using ch(1) di by (cases ys) auto
  let ?cn1 = "if ys = [] then cnodes m
    else (cnodes m)(last ys := cnodes m (last ys)\<lparr>cn_next := cn_next (cnodes m z)\<rparr>)"
  let ?cn = "?cn1(z := ?cn1 z\<lparr>cn_next := pl_free_cleanups ?p\<rparr>)"
  have lz: "ys \<noteq> [] \<Longrightarrow> last ys \<noteq> z" using di by auto
  have nx1: "(\<lambda>a. cn_next (?cn1 a)) = (if ys = [] then ?nx else ?nx(last ys := ?nx z))"
    by auto
  have zn: "z \<notin> set (ys @ zs)" "z \<notin> set fr" using di by auto
  have upd: "(\<lambda>a. cn_next (?cn a)) = (\<lambda>a. cn_next (?cn1 a))(z := pl_free_cleanups ?p)" by auto
  have c1: "chain (\<lambda>a. cn_next (?cn a)) (if ys = [] then ?nx z else pl_cleanups ?p) (ys @ zs)"
    unfolding upd chain_update_other [OF zn(1)] nx1
    using chain_unlink [OF ch(1)] di by (cases "ys = []") auto
  have "chain (\<lambda>a. cn_next (?cn1 a)) (pl_free_cleanups ?p) fr = chain ?nx (pl_free_cleanups ?p) fr"
    using di last_in_set [of ys] by (intro chain_cong) (auto simp: disjoint_iff)
  then have c2: "chain (\<lambda>a. cn_next (?cn a)) z (z # fr)"
    unfolding upd using ch(2) z zn(2) by (simp add: chain_update_other)
  have "unlink_cleanup e pool z prev m = Some (m\<lparr>cnodes := ?cn,
      pools := (pools m)(pool := ?p\<lparr>pl_cleanups := (if ys = [] then cn_next (cnodes m z)
        else pl_cleanups ?p), pl_free_cleanups := z\<rparr>)\<rparr>)"
  proof (cases "ys = []")
    case True
    then show ?thesis using acc accc [of z] hd
      by (simp add: unlink_cleanup_def load_pool_def load_cnode_def upd_pool_def upd_cnode_def)
  next
    case False
    then show ?thesis using acc accc [of z] accc [of "last ys"] hd prev lz
      by (simp add: unlink_cleanup_def load_pool_def load_cnode_def upd_pool_def upd_cnode_def)
  qed
  from this c1 c2 show thesis
  proof (rule that)
    show "\<forall>c. cn_data (?cn c) = cn_data (cnodes m c) \<and> cn_handler (?cn c) = cn_handler (cnodes m c)" by simp
    show "\<forall>c. unat c \<notin> used_by m S \<longrightarrow> ?cn c = cnodes m c"
      using cleanup_in_use [OF cln] by (cases "ys = []") auto
  qed
qed

text \<open>The effect of unlinking on the invariant, with the lock released again.\<close>

lemma unlinked_inv:
  assumes inv: "pool_inv e m pool S (ys @ z # zs) fr"
    and c: "chain (\<lambda>a. cn_next (cn a)) p (ys @ zs)" "chain (\<lambda>a. cn_next (cn a)) z (z # fr)"
  shows "pool_inv e (m\<lparr>cnodes := cn, pools := (pools m)(pool := pools m pool
      \<lparr>pl_cleanups := p, pl_free_cleanups := z\<rparr>)\<rparr>) pool S (ys @ zs) (z # fr)"
proof -
  let ?m = "m\<lparr>cnodes := cn, pools := (pools m)(pool := pools m pool
      \<lparr>pl_cleanups := p, pl_free_cleanups := z\<rparr>)\<rparr>"
  have "used_by ?m S = used_by m S" by (simp add: used_by_def handed_out_def)
  then have "cleanups_inv ?m pool S (ys @ zs) (z # fr)"
    using inv c by (auto simp: pool_inv_def cleanups_inv_def)
  moreover have "lock_ok e ?m pool" "home_ok e ?m pool S" "nodes_inv e ?m pool S"
    using inv by (auto simp: pool_inv_def inv_parts)
  ultimately show ?thesis using inv by (simp add: pool_inv_def)
qed

lemma unlock_after:
  assumes inv: "pool_inv e m pool S cl fr"
    and "pl_mutex p = pl_mutex (pools m pool)"
  shows "pool_unlock e pool (m\<lparr>mutexes := locked e m pool, cnodes := cn,
      pools := (pools m)(pool := p)\<rparr>)
    = Some (m\<lparr>cnodes := cn, pools := (pools m)(pool := p)\<rparr>)"
proof -
  have lk: "lock_ok e m pool" using inv by (simp add: pool_inv_def)
  let ?m = "m\<lparr>mutexes := locked e m pool, cnodes := cn, pools := (pools m)(pool := p)\<rparr>"
  have "pool_unlock e pool ?m = Some (?m\<lparr>mutexes := mutexes m\<rparr>)"
    using assms pool_inv_accessible [OF inv] lk
    by (intro pool_unlock_ok [OF lk]) (simp_all add: lock_ok_def)
  then show ?thesis by simp
qed

lemma remove1_split: "distinct (ys @ z # zs) \<Longrightarrow> remove1 z (ys @ z # zs) = ys @ zs"
  by (simp add: remove1_append)

lemma find_cleanup_inv:
  assumes inv: "pool_inv e m pool S cl fr"
  shows "find_cleanup e (pl_cleanups (pools m pool)) NULL data h m = Some
    (or_null (find (is_cleanup m data h) cl),
     last (NULL # takeWhile (\<lambda>c. \<not> is_cleanup m data h c) cl))"
  using inv cleanup_accessible [of m e pool S cl fr]
  by (intro find_cleanup_eq) (auto simp: pool_inv_def cleanups_inv_def)

lemma find_cleanup_nonnull:
  assumes "pool_inv e m pool S cl fr" "find P cl = Some z"
  shows "z \<noteq> NULL"
  using assms find_SomeD [OF assms(2)] chain_nonzero
  by (metis cleanups_inv_def pool_inv_def)

lemma cleanup_remove1_ok:
  assumes inv: "pool_inv e m pool S cl fr"
    and found: "find (is_cleanup m data h) cl = Some z"
  obtains m' where "spr_pool_cleanup_remove1 e pool data h m = Some m'"
    "pool_inv e m' pool S (remove1 z cl) (z # fr)" "calls m' = calls m"
    "same_client_memory m m'" "mnodes m' = mnodes m" "blocks m' = blocks m"
    "pending m' (remove1 z cl) = pending m (remove1 z cl)" "pool_frame m pool S m' S"
proof -
  let ?ys = "takeWhile (\<lambda>c. \<not> is_cleanup m data h c) cl"
  obtain zs where cl: "cl = ?ys @ z # zs" using split_at_first [OF found] by blast
  note invl = locked_inv [OF inv]
  let ?m1 = "m\<lparr>mutexes := locked e m pool\<rparr>"
  have lk: "lock_ok e m pool" using inv by (simp add: pool_inv_def)
  note acc = pool_inv_accessible [OF inv]
  have lock: "pool_lock e pool m = Some ?m1" by (rule pool_lock_ok [OF lk acc])
  have z: "z \<noteq> NULL" by (rule find_cleanup_nonnull [OF inv found])
  have same: "is_cleanup ?m1 data h = is_cleanup m data h" by (simp add: is_cleanup_def fun_eq_iff)
  have fc: "find_cleanup e (pl_cleanups (pools m pool)) NULL data h ?m1
      = Some (z, last (NULL # ?ys))"
    using find_cleanup_inv [OF invl, of data h] found same by simp
  have "pool_inv e ?m1 pool S (?ys @ z # zs) fr" using invl cl by simp
  then obtain cn p where u: "unlink_cleanup e pool z (last (NULL # ?ys)) ?m1 = Some (?m1\<lparr>cnodes := cn,
      pools := (pools m)(pool := pools m pool\<lparr>pl_cleanups := p, pl_free_cleanups := z\<rparr>)\<rparr>)"
    "chain (\<lambda>a. cn_next (cn a)) p (?ys @ zs)" "chain (\<lambda>a. cn_next (cn a)) z (z # fr)"
    "\<forall>c. cn_data (cn c) = cn_data (cnodes m c) \<and> cn_handler (cn c) = cn_handler (cnodes m c)"
    "\<forall>c. unat c \<notin> used_by m S \<longrightarrow> cn c = cnodes m c"
    by (rule unlink_cleanup_ok [where prev = "last (NULL # ?ys)"]) (auto simp: used_by_def handed_out_def)
  let ?m' = "m\<lparr>cnodes := cn,
      pools := (pools m)(pool := pools m pool\<lparr>pl_cleanups := p, pl_free_cleanups := z\<rparr>)\<rparr>"
  have ul: "pool_unlock e pool (?m1\<lparr>cnodes := cn,
      pools := (pools m)(pool := pools m pool\<lparr>pl_cleanups := p, pl_free_cleanups := z\<rparr>)\<rparr>) = Some ?m'"
    using unlock_after [OF inv, where cn = cn
      and p = "pools m pool\<lparr>pl_cleanups := p, pl_free_cleanups := z\<rparr>"]
    by simp
  have call: "spr_pool_cleanup_remove1 e pool data h m = Some ?m'"
    using acc lock fc u(1) ul z by (simp add: spr_pool_cleanup_remove1_def load_pool_def)
  have rem: "remove1 z cl = ?ys @ zs"
    using inv cl by (metis cleanups_inv_def distinct_append pool_inv_def remove1_split)
  have "pool_inv e ?m' pool S (?ys @ zs) (z # fr)"
    using inv cl u(2,3) by (intro unlinked_inv) auto
  then have inv': "pool_inv e ?m' pool S (remove1 z cl) (z # fr)" unfolding rem .
  show thesis
    using u(4,5) by (intro that [OF call inv'] frame_cleanups)
      (simp_all add: same_client_memory_def pending_def)
qed

lemma released_inv:
  assumes inv: "pool_inv e m pool S cl fr" and rel: "releases_ok m pool S ds"
  shows "pool_inv e (m\<lparr>blocks := blocks_without (set ds) (blocks m), calls := cs\<rparr>) pool S cl fr"
proof -
  let ?m = "m\<lparr>blocks := blocks_without (set ds) (blocks m), calls := cs\<rparr>"
  have nd: "nodes_inv e m pool S" using inv by (simp add: pool_inv_def)
  have "nodes_inv e ?m pool S"
    by (rule nodes_inv_blocks [OF nd]) (use rel in \<open>simp_all add: releases_ok_def\<close>)
  moreover have "lock_ok e ?m pool"
    using inv rel unfolding pool_inv_def lock_ok_def releases_ok_def
    by (auto intro: accessible_without)
  moreover have "used_by ?m S = used_by m S" by (simp add: used_by_def handed_out_def)
  then have "cleanups_inv ?m pool S cl fr" using inv by (simp add: pool_inv_def cleanups_inv_def)
  moreover have "home_ok e ?m pool S" using inv by (simp add: pool_inv_def home_ok_def)
  ultimately show ?thesis using inv by (simp add: pool_inv_def blocks_ok_without)
qed

lemma mem_reorder: "m\<lparr>mutexes := x, blocks := b, calls := c\<rparr> = m\<lparr>blocks := b, calls := c, mutexes := x\<rparr>"
  by (rule mem.equality) simp_all

lemma cleanup_run1_ok:
  assumes inv: "pool_inv e m pool S cl fr"
    and found: "find (is_cleanup m data h) cl = Some z"
    and rel: "releases_ok m pool S (frees [(h, data)])"
  obtains m' where "spr_pool_cleanup_run1 e pool data h m = Some m'"
    "pool_inv e m' pool S (remove1 z cl) (z # fr)" "calls m' = calls m @ [(h, data)]"
    "same_client_memory m m'" "mnodes m' = mnodes m"
    "blocks m' = blocks_without (set (frees [(h, data)])) (blocks m)"
    "pending m' (remove1 z cl) = pending m (remove1 z cl)" "pool_frame m pool S m' S"
proof -
  let ?ys = "takeWhile (\<lambda>c. \<not> is_cleanup m data h c) cl"
  let ?bs = "blocks_without (set (frees [(h, data)])) (blocks m)"
  let ?m0 = "m\<lparr>blocks := ?bs, calls := calls m @ [(h, data)]\<rparr>"
  obtain zs where cl: "cl = ?ys @ z # zs" using split_at_first [OF found] by blast
  have inv0: "pool_inv e ?m0 pool S cl fr" by (rule released_inv [OF inv rel])
  have lk: "lock_ok e m pool" using inv by (simp add: pool_inv_def)
  have lk0: "locked e ?m0 pool = locked e m pool" by (simp add: locked_def Let_def)
  note acc = pool_inv_accessible [OF inv] and acc0 = pool_inv_accessible [OF inv0]
  have lock: "pool_lock e pool m = Some (m\<lparr>mutexes := locked e m pool\<rparr>)"
    by (rule pool_lock_ok [OF lk acc])
  have z: "z \<noteq> NULL" by (rule find_cleanup_nonnull [OF inv found])
  have zc: "cn_data (cnodes m z) = data" "cn_handler (cnodes m z) = h" "z \<in> set (cl @ fr)"
    using find_SomeD [OF found] by (auto simp: is_cleanup_def)
  have accz: "accessible e (blocks m) z"
    using inv zc(3) by (intro cleanup_accessible [of m e pool S cl fr]) (auto simp: pool_inv_def)
  have same: "is_cleanup (m\<lparr>mutexes := locked e m pool\<rparr>) data h = is_cleanup m data h"
    by (simp add: is_cleanup_def fun_eq_iff)
  have fc: "find_cleanup e (pl_cleanups (pools m pool)) NULL data h (m\<lparr>mutexes := locked e m pool\<rparr>)
      = Some (z, last (NULL # ?ys))"
    using find_cleanup_inv [OF locked_inv [OF inv], of data h] found same by simp
  have ready: "frees_ready (m\<lparr>mutexes := locked e m pool\<rparr>) (frees [(h, data)])"
    using rel by (simp add: releases_ok_def frees_ready_def)
  have "pool_inv e (?m0\<lparr>mutexes := locked e m pool\<rparr>) pool S (?ys @ z # zs) fr"
    using locked_inv [OF inv0] cl lk0 by simp
  then obtain cn p where u: "unlink_cleanup e pool z (last (NULL # ?ys)) (?m0\<lparr>mutexes := locked e m pool\<rparr>)
     = Some (?m0\<lparr>mutexes := locked e m pool, cnodes := cn,
      pools := (pools m)(pool := pools m pool\<lparr>pl_cleanups := p, pl_free_cleanups := z\<rparr>)\<rparr>)"
    "chain (\<lambda>a. cn_next (cn a)) p (?ys @ zs)" "chain (\<lambda>a. cn_next (cn a)) z (z # fr)"
    "\<forall>c. cn_data (cn c) = cn_data (cnodes m c) \<and> cn_handler (cn c) = cn_handler (cnodes m c)"
    "\<forall>c. unat c \<notin> used_by m S \<longrightarrow> cn c = cnodes m c"
    by (rule unlink_cleanup_ok [where prev = "last (NULL # ?ys)"]) (auto simp: used_by_def handed_out_def)
  let ?m' = "?m0\<lparr>cnodes := cn,
      pools := (pools m)(pool := pools m pool\<lparr>pl_cleanups := p, pl_free_cleanups := z\<rparr>)\<rparr>"
  have ul: "pool_unlock e pool (?m0\<lparr>mutexes := locked e m pool, cnodes := cn,
      pools := (pools m)(pool := pools m pool\<lparr>pl_cleanups := p, pl_free_cleanups := z\<rparr>)\<rparr>) = Some ?m'"
    using unlock_after [OF inv0, where cn = cn
      and p = "pools m pool\<lparr>pl_cleanups := p, pl_free_cleanups := z\<rparr>"] lk0
    by simp
  have call: "spr_pool_cleanup_run1 e pool data h m = Some ?m'"
    using acc lock fc u(1) ul z zc accz call_handler_eq [OF ready]
    by (simp add: spr_pool_cleanup_run1_def load_pool_def load_cnode_def mem_reorder
      del: last.simps)
  have rem: "remove1 z cl = ?ys @ zs"
    using inv cl by (metis cleanups_inv_def distinct_append pool_inv_def remove1_split)
  have "pool_inv e ?m' pool S (?ys @ zs) (z # fr)"
    using inv0 cl u(2,3) by (intro unlinked_inv [of e ?m0, simplified]) auto
  then have inv': "pool_inv e ?m' pool S (remove1 z cl) (z # fr)" unfolding rem .
  show thesis
    using u(4,5) by (intro that [OF call inv'] frame_cleanups)
      (simp_all add: same_client_memory_def pending_def)
qed

text \<open>A cleanup that is not registered: the call returns with the lock still taken.\<close>

lemma cleanup_not_found:
  assumes inv: "pool_inv e m pool S cl fr"
    and none: "find (is_cleanup m data h) cl = None"
  shows "spr_pool_cleanup_run1 e pool data h m = Some (m\<lparr>mutexes := locked e m pool\<rparr>)"
    "spr_pool_cleanup_remove1 e pool data h m = Some (m\<lparr>mutexes := locked e m pool\<rparr>)"
proof -
  have lk: "lock_ok e m pool" using inv by (simp add: pool_inv_def)
  note acc = pool_inv_accessible [OF inv]
  have lock: "pool_lock e pool m = Some (m\<lparr>mutexes := locked e m pool\<rparr>)"
    by (rule pool_lock_ok [OF lk acc])
  have same: "is_cleanup (m\<lparr>mutexes := locked e m pool\<rparr>) data h = is_cleanup m data h"
    by (simp add: is_cleanup_def fun_eq_iff)
  have "\<exists>p. find_cleanup e (pl_cleanups (pools m pool)) NULL data h (m\<lparr>mutexes := locked e m pool\<rparr>)
      = Some (NULL, p)"
    using find_cleanup_inv [OF locked_inv [OF inv], of data h] none same by simp
  then show "spr_pool_cleanup_run1 e pool data h m = Some (m\<lparr>mutexes := locked e m pool\<rparr>)"
    "spr_pool_cleanup_remove1 e pool data h m = Some (m\<lparr>mutexes := locked e m pool\<rparr>)"
    using acc lock
    by (auto simp: spr_pool_cleanup_run1_def spr_pool_cleanup_remove1_def load_pool_def)
qed

end
