(* ===== verification/Spr_Pool_Clear.thy ===== *)
theory Spr_Pool_Clear
  imports Spr_Pool_Cleanup
begin

text \<open>
  What clearing and destroying a pool, and asking for its sizes, compute.
\<close>

section \<open>Clearing\<close>

definition reset_node :: "memnode \<Rightarrow> memnode" where
  "reset_node n = n\<lparr>mn_first_avail := mn_begin n, mn_size_avail := mn_size n\<rparr>"

definition reset_on :: "addr set \<Rightarrow> mem \<Rightarrow> mem" where
  "reset_on A m = m\<lparr>mnodes := (\<lambda>x. if x \<in> A then reset_node (mnodes m x) else mnodes m x)\<rparr>"

lemma reset_on_simps [simp]:
  "blocks (reset_on A m) = blocks m" "pools (reset_on A m) = pools m"
  "cnodes (reset_on A m) = cnodes m" "mutexes (reset_on A m) = mutexes m"
  "calls (reset_on A m) = calls m" "errno (reset_on A m) = errno m"
  "mn_next (mnodes (reset_on A m) x) = mn_next (mnodes m x)"
  "reset_on {} m = m"
  by (simp_all add: reset_on_def reset_node_def)

lemma reset_on_compose: "reset_on A (reset_on B m) = reset_on (A \<union> B) m"
  by (rule mem.equality) (auto simp: reset_on_def reset_node_def fun_eq_iff)

lemma reset_nodes_eq:
  assumes "chain (\<lambda>a. mn_next (mnodes m a)) a xs" "\<forall>x \<in> set xs. accessible e (blocks m) x"
  shows "reset_nodes e a m = Some (reset_on (set xs) m)"
  using assms
proof (induction xs arbitrary: a m)
  case Nil
  then show ?case by (simp add: reset_nodes.simps)
next
  case (Cons x xs)
  have one: "m\<lparr>mnodes := (mnodes m)(x := reset_node (mnodes m x))\<rparr> = reset_on {x} m"
    by (rule mem.equality) (auto simp: reset_on_def)
  have "reset_nodes e a m = reset_nodes e (mn_next (mnodes m x)) (reset_on {x} m)"
    using Cons.prems unfolding one [symmetric] reset_node_def
    by (subst reset_nodes.simps) (simp add: load_node_def upd_node_def)
  also have "\<dots> = Some (reset_on (set xs) (reset_on {x} m))"
    using Cons.prems by (intro Cons.IH) simp_all
  finally show ?case by (simp add: reset_on_compose)
qed

lemma reset_slots_eq:
  assumes "i \<le> SPR_MAX_POOL_SLOT"
    and "\<forall>j<SPR_MAX_POOL_SLOT. chain (\<lambda>a. mn_next (mnodes m a)) (pl_nodes (pools m pool) j) (S j)"
    and "\<forall>x \<in> set (all_nodes S). accessible e (blocks m) x" and "accessible e (blocks m) pool"
  shows "reset_slots e pool i m = Some (reset_on (set (concat (map S [i..<SPR_MAX_POOL_SLOT]))) m)"
  using assms
proof (induction i arbitrary: m rule: inc_induct)
  case base
  then show ?case by (simp add: reset_slots.simps)
next
  case (step i)
  have sub: "set (S i) \<subseteq> set (all_nodes S)" using step.hyps by (auto simp: set_all_nodes)
  have "[i..<SPR_MAX_POOL_SLOT] = i # [Suc i..<SPR_MAX_POOL_SLOT]"
    using step.hyps by (simp add: upt_rec)
  moreover have "reset_nodes e (pl_nodes (pools m pool) i) m = Some (reset_on (set (S i)) m)"
    using step.prems step.hyps sub by (intro reset_nodes_eq) auto
  moreover have "reset_slots e pool (Suc i) (reset_on (set (S i)) m)
      = Some (reset_on (set (concat (map S [Suc i..<SPR_MAX_POOL_SLOT]))) (reset_on (set (S i)) m))"
    using step.prems by (intro step.IH) simp_all
  ultimately show ?case
    using step.hyps step.prems(3)
    by (subst reset_slots.simps) (simp add: get_slot_def load_pool_def reset_on_compose Un_commute)
qed

lemma reset_nodes_inv:
  assumes "nodes_inv e m pool S"
  shows "nodes_inv e (reset_on (set (all_nodes S)) m) pool S"
    "used_by (reset_on (set (all_nodes S)) m) S = {}"
proof -
  let ?m = "reset_on (set (all_nodes S)) m"
  have node: "mnodes ?m a = reset_node (mnodes m a)" if "a \<in> set (all_nodes S)" for a
    using that by (simp add: reset_on_def)
  have "node_ok e ?m i a" if i: "i < SPR_MAX_POOL_SLOT" "a \<in> set (S i)" for i a
  proof -
    have "a \<in> set (all_nodes S)" using i by (auto simp: set_all_nodes)
    moreover have "node_ok e m i a" using assms i by (simp add: nodes_inv_def)
    ultimately show ?thesis by (simp add: node_ok_def node reset_node_def)
  qed
  then show "nodes_inv e ?m pool S" using assms by (simp add: nodes_inv_def)
  show "used_by ?m S = {}" by (auto simp: used_by_def handed_out_def node reset_node_def)
qed
section \<open>Sizes\<close>

text \<open>The sum of a measure over the nodes of all slots.\<close>

lemma sum_nodes_eq:
  assumes "chain (\<lambda>a. mn_next (mnodes m a)) a xs" "\<forall>x \<in> set xs. accessible e (blocks m) x"
  shows "sum_nodes e g a acc m = Some (acc + (\<Sum>x \<leftarrow> xs. g (mnodes m x)))"
  using assms
proof (induction xs arbitrary: a acc)
  case Nil
  then show ?case by (simp add: sum_nodes.simps)
next
  case (Cons x xs)
  then show ?case
    by (subst sum_nodes.simps) (simp add: load_node_def add.assoc)
qed

lemma sum_slots_eq:
  assumes "i \<le> SPR_MAX_POOL_SLOT" and "nodes_inv e m pool S"
    and "\<forall>x \<in> set (all_nodes S). accessible e (blocks m) x" and "accessible e (blocks m) pool"
  shows "sum_slots e g pool i acc m
    = Some (acc + (\<Sum>j \<leftarrow> [i..<SPR_MAX_POOL_SLOT]. \<Sum>x \<leftarrow> S j. g j (mnodes m x)))"
  using assms(1)
proof (induction i arbitrary: acc rule: inc_induct)
  case base
  then show ?case by (simp add: sum_slots.simps)
next
  case (step i)
  have acc: "\<forall>x \<in> set (S i). accessible e (blocks m) x"
    using step.hyps assms(3) by (auto simp: set_all_nodes)
  have c: "chain (\<lambda>a. mn_next (mnodes m a)) (pl_nodes (pools m pool) i) (S i)"
    using step.hyps assms(2) by (simp add: nodes_inv_def)
  have "[i..<SPR_MAX_POOL_SLOT] = i # [Suc i..<SPR_MAX_POOL_SLOT]"
    using step.hyps by (simp add: upt_rec)
  then show ?case
    using step.hyps step.IH assms(4)
    by (subst sum_slots.simps) (simp add: get_slot_def load_pool_def sum_nodes_eq [OF c acc] add.assoc)
qed
section \<open>Destroying\<close>

text \<open>Without \<^verbatim>\<open>strict_mem\<close> a released block is still readable; with it, only live blocks are.\<close>

lemma accessible_lenient: "\<not> strict_mem e \<Longrightarrow> accessible e bs a \<longleftrightarrow> a \<noteq> NULL"
  by (simp add: accessible_def)

text \<open>A node that can be given back.\<close>

definition live_node :: "mem \<Rightarrow> addr \<Rightarrow> bool" where
  "live_node m x \<longleftrightarrow> x \<noteq> NULL \<and> mn_dealloc_size (mnodes m x) \<noteq> 0 \<and>
     (x, mn_dealloc_size (mnodes m x)) \<in> set (blocks m)"

lemma live_node_accessible:
  assumes "live_node m x"
  shows "accessible e (blocks m) x"
proof -
  have "in_range x (mn_dealloc_size (mnodes m x)) x"
    using assms unat_gt_0 [of "mn_dealloc_size (mnodes m x)"] by (simp add: live_node_def in_range_def)
  then show ?thesis using assms by (force simp: accessible_def list_ex_iff live_node_def)
qed

lemma memnode_deallocate_eq:
  assumes "live_node m x"
  shows "spr_memnode_deallocate e x m = Some (m\<lparr>blocks := blocks_without {x} (blocks m)\<rparr>)"
  using assms live_node_accessible [OF assms]
  by (auto simp: spr_memnode_deallocate_def load_node_def sys_munmap_def live_node_def
    spr_free_def blocks_without_def image_iff intro!: mem.equality filter_cong)

lemma dealloc_nodes_eq:
  assumes "chain (\<lambda>a. mn_next (mnodes m a)) a xs" "distinct xs" "\<forall>x \<in> set xs. live_node m x"
  shows "dealloc_nodes e a m = Some (m\<lparr>blocks := blocks_without (set xs) (blocks m)\<rparr>)"
  using assms
proof (induction xs arbitrary: a m)
  case Nil
  then show ?case by (simp add: dealloc_nodes.simps)
next
  case (Cons x xs)
  let ?m = "m\<lparr>blocks := blocks_without {x} (blocks m)\<rparr>"
  have x: "live_node m x" "a = x" "x \<noteq> NULL" using Cons.prems by simp_all
  have "dealloc_nodes e a m = dealloc_nodes e (mn_next (mnodes m x)) ?m"
    using x live_node_accessible [OF x(1), of e]
    by (subst dealloc_nodes.simps) (simp add: load_node_def memnode_deallocate_eq)
  also have "\<dots> = Some (?m\<lparr>blocks := blocks_without (set xs) (blocks ?m)\<rparr>)"
    using Cons.prems by (intro Cons.IH) (auto simp: blocks_without_def live_node_def)
  finally show ?case by (simp add: Un_commute)
qed

text \<open>The loop over the slots reads \<^verbatim>\<open>pool->nodes\<close> once per slot, so the pool must stay accessible until
  the last slot is read.\<close>

lemma dealloc_slots_eq:
  assumes "i \<le> SPR_MAX_POOL_SLOT"
    and "\<forall>j<SPR_MAX_POOL_SLOT. chain (\<lambda>a. mn_next (mnodes m a)) (pl_nodes (pools m pool) j) (S j)"
    and "distinct (concat (map S [i..<SPR_MAX_POOL_SLOT]))"
    and "\<forall>x \<in> set (concat (map S [i..<SPR_MAX_POOL_SLOT])). live_node m x"
    and "i < SPR_MAX_POOL_SLOT \<Longrightarrow>
      accessible e (blocks_without (set (concat (map S [i..<SPR_MAX_POOL_SLOT - 1]))) (blocks m)) pool"
  shows "dealloc_slots e pool i m = Some (m\<lparr>blocks :=
    blocks_without (set (concat (map S [i..<SPR_MAX_POOL_SLOT]))) (blocks m)\<rparr>)"
  using assms
proof (induction i arbitrary: m rule: inc_induct)
  case base
  then show ?case by (simp add: dealloc_slots.simps)
next
  case (step i)
  let ?rest = "concat (map S [Suc i..<SPR_MAX_POOL_SLOT])"
  have up: "[i..<SPR_MAX_POOL_SLOT] = i # [Suc i..<SPR_MAX_POOL_SLOT]"
    using step.hyps by (simp add: upt_rec)
  let ?m = "m\<lparr>blocks := blocks_without (set (S i)) (blocks m)\<rparr>"
  have acc: "accessible e (blocks m) pool"
    using accessible_subset [OF step.prems(4), of "{}"] step.hyps by simp
  have acc': "accessible e (blocks_without (set (concat (map S [Suc i..<SPR_MAX_POOL_SLOT - 1]))) (blocks ?m)) pool"
    if "Suc i < SPR_MAX_POOL_SLOT"
  proof -
    have "[i..<SPR_MAX_POOL_SLOT - 1] = i # [Suc i..<SPR_MAX_POOL_SLOT - 1]" using that by (simp add: upt_rec)
    then show ?thesis using step.prems(4) that by (simp add: Un_commute)
  qed
  have "dealloc_nodes e (pl_nodes (pools m pool) i) m = Some ?m"
    using step.prems step.hyps unfolding up by (intro dealloc_nodes_eq) auto
  moreover have "dealloc_slots e pool (Suc i) ?m
      = Some (?m\<lparr>blocks := blocks_without (set ?rest) (blocks ?m)\<rparr>)"
    using step.prems(1-3) unfolding up
    by (intro step.IH acc') (auto simp: blocks_without_def live_node_def)
  ultimately show ?case
    unfolding up using step.hyps acc
    by (subst dealloc_slots.simps) (simp add: get_slot_def load_pool_def Un_commute)
qed

text \<open>The guard: another thread than the creator changes nothing.\<close>

lemma not_owner_clear_destroy:
  assumes "accessible e (blocks m) pool" "not_owner e (pools m pool)"
  shows "spr_pool_clear (Suc d) e pool m = Some m" "spr_pool_destroy (Suc d) e pool m = Some m"
  using assms by (simp_all add: spr_pool_clear_def spr_pool_destroy_def load_pool_def)

end
