(* ===== verification/Spr_Pool_Tree.thy ===== *)
theory Spr_Pool_Tree
  imports Spr_Pool_Clear
begin

text \<open>
  Trees of pools: the links between a pool and its children, what a step leaves alone, and the walk
  over the tree that \<^verbatim>\<open>spr_pool_clear\<close> and \<^verbatim>\<open>spr_pool_destroy\<close> share, stated as an interface and
  interpreted for both.
\<close>

section \<open>The tree of a pool\<close>

text \<open>A pool with its memory nodes slot by slot, its registered and its reserved cleanup nodes, and its
  child pools, the youngest first. The view of a pool is the same without the children.\<close>

datatype ptree = PTree (pool_of: addr) (slots_of: slots) (registered_of: "addr list")
  (reserved_of: "addr list") (children_of: "ptree list")

type_synonym view = "addr \<times> slots \<times> addr list \<times> addr list"

fun flat :: "ptree \<Rightarrow> view list" where
  "flat (PTree p S cl fr ts) = (p, S, cl, fr) # concat (map flat ts)"

definition vnodes :: "view list \<Rightarrow> addr list" where
  "vnodes vs = concat (map (\<lambda>(p, S, cl, fr). all_nodes S) vs)"

definition vcleans :: "view list \<Rightarrow> addr list" where
  "vcleans vs = concat (map (\<lambda>(p, S, cl, fr). cl @ fr) vs)"

definition vpending :: "mem \<Rightarrow> view list \<Rightarrow> (handler \<times> addr) list" where
  "vpending m vs = concat (map (\<lambda>(p, S, cl, fr). pending m cl) vs)"

lemma views_simps [simp]:
  "vnodes [] = []" "vnodes ((p, S, cl, fr) # vs) = all_nodes S @ vnodes vs"
  "vnodes (us @ vs) = vnodes us @ vnodes vs"
  "vcleans [] = []" "vcleans ((p, S, cl, fr) # vs) = (cl @ fr) @ vcleans vs"
  "vcleans (us @ vs) = vcleans us @ vcleans vs"
  "vpending m [] = []" "vpending m ((p, S, cl, fr) # vs) = pending m cl @ vpending m vs"
  "vpending m (us @ vs) = vpending m us @ vpending m vs"
  by (simp_all add: vnodes_def vcleans_def vpending_def)

text \<open>The links of the tree: the children of a pool form its list of brothers, name it as their
  parent, and share its mutex.\<close>

fun linked :: "env \<Rightarrow> mem \<Rightarrow> ptree \<Rightarrow> bool" where
  "linked e m (PTree p S cl fr ts) \<longleftrightarrow>
     chain (\<lambda>a. pl_brother (pools m a)) (pl_child (pools m p)) (map pool_of ts) \<and>
     list_all (\<lambda>t. pl_parent (pools m (pool_of t)) = p \<and>
       (thread_safety e \<longrightarrow> pl_mutex (pools m (pool_of t)) = pl_mutex (pools m p))) ts \<and>
     list_all (linked e m) ts"

text \<open>Every pool of the tree satisfies its invariant, and no two share a memory node.\<close>

definition views_ok :: "env \<Rightarrow> mem \<Rightarrow> view list \<Rightarrow> bool" where
  "views_ok e m vs \<longleftrightarrow> (\<forall>(p, S, cl, fr) \<in> set vs. pool_inv e m p S cl fr) \<and> distinct (vnodes vs)"

definition tree_inv :: "env \<Rightarrow> mem \<Rightarrow> ptree \<Rightarrow> bool" where
  "tree_inv e m t \<longleftrightarrow> views_ok e m (flat t) \<and> linked e m t"

text \<open>The blocks that the cleanups of these pools release are live, named once, and neither a node of
  one of the pools nor the home of a mutex.\<close>

definition releases_all :: "mem \<Rightarrow> view list \<Rightarrow> bool" where
  "releases_all m vs \<longleftrightarrow> (let ds = frees (vpending m vs) in
     frees_ready m ds \<and> set ds \<inter> set (vnodes vs) = {} \<and>
     (\<forall>v \<in> set vs. \<forall>b \<in> set (blocks m). fst b \<in> set ds \<longrightarrow>
        \<not> in_range (fst b) (snd b) (pl_mutex (pools m (fst v)))))"

section \<open>Pools that do not share nodes\<close>

lemma frees_append [simp]: "frees (xs @ ys) = frees xs @ frees ys"
  by (induction xs rule: frees.induct) auto

lemma views_ok_ConsD:
  "views_ok e m ((p, S, cl, fr) # vs) \<Longrightarrow> pool_inv e m p S cl fr \<and> views_ok e m vs \<and>
    set (all_nodes S) \<inter> set (vnodes vs) = {}"
  by (simp add: views_ok_def)

lemma views_ok_appendD:
  "views_ok e m (us @ vs) \<Longrightarrow> views_ok e m us \<and> views_ok e m vs \<and>
    set (vnodes us) \<inter> set (vnodes vs) = {}"
  by (auto simp: views_ok_def)

lemma views_member:
  "(p, S, cl, fr) \<in> set vs \<Longrightarrow>
    set (all_nodes S) \<subseteq> set (vnodes vs) \<and> set (cl @ fr) \<subseteq> set (vcleans vs) \<and> p \<in> fst ` set vs"
  by (force simp: vnodes_def vcleans_def)

text \<open>What a node owns lies in its block, so pools without a common node share nothing.\<close>

lemma node_block:
  assumes "nodes_inv e m p S" "h \<in> set (all_nodes S)"
  obtains n where "(h, n) \<in> set (blocks m)" "mn_dealloc_size (mnodes m h) = n"
    "unat (mn_first_avail (mnodes m h)) \<le> unat h + unat n"
    "unat h + 48 \<le> unat (mn_begin (mnodes m h))"
    "unat (mn_begin (mnodes m h)) \<le> unat (mn_first_avail (mnodes m h))"
proof -
  obtain i where "node_ok e m i h" using nodes_inv_slot [OF assms] by auto
  then show thesis by (intro that [of "node_len e i"]) (auto simp: node_ok_def)
qed

lemma node_ranges_apart:
  assumes nd: "nodes_inv e m p S" "nodes_inv e m q T" and bl: "blocks_ok (blocks m)"
    and dis: "set (all_nodes S) \<inter> set (all_nodes T) = {}"
    and h: "h \<in> set (all_nodes S)" "unat h \<le> x" "x < unat (mn_first_avail (mnodes m h))"
    and k: "k \<in> set (all_nodes T)" "unat k \<le> y" "y < unat (mn_first_avail (mnodes m k))"
  shows "x \<noteq> y"
proof -
  obtain n where n: "(h, n) \<in> set (blocks m)" "unat (mn_first_avail (mnodes m h)) \<le> unat h + unat n"
    by (rule node_block [OF nd(1) h(1)])
  obtain l where l: "(k, l) \<in> set (blocks m)" "unat (mn_first_avail (mnodes m k)) \<le> unat k + unat l"
    by (rule node_block [OF nd(2) k(1)])
  have "h \<noteq> k" using dis h(1) k(1) by auto
  then have "apart (h, n) (k, l)" using blocks_ok_apart [OF bl n(1) l(1)] by simp
  then show ?thesis using h k n(2) l(2) by auto
qed

lemma home_in_node:
  assumes nd: "nodes_inv e m p S" and hm: "home_ok e m p S"
  obtains h where "h \<in> set (all_nodes S)" "unat h \<le> unat p" "unat p < unat (mn_begin (mnodes m h))"
    "unat p < unat (mn_first_avail (mnodes m h))"
proof -
  obtain h where h: "h \<in> set (all_nodes S)" "unat h + 48 \<le> unat p"
    "unat p + unat (sizeof_pool e) \<le> unat (mn_begin (mnodes m h))"
    using hm by (auto simp: home_ok_def)
  moreover have "0 < unat (sizeof_pool e)" by (simp add: sizeof_pool_def)
  moreover have "unat (mn_begin (mnodes m h)) \<le> unat (mn_first_avail (mnodes m h))"
    by (rule node_block [OF nd h(1)])
  ultimately show thesis by (intro that [of h]) simp_all
qed

lemma used_in_node:
  assumes nd: "nodes_inv e m p S" and x: "x \<in> used_by m S"
  obtains h where "h \<in> set (all_nodes S)" "unat h \<le> x" "unat (mn_begin (mnodes m h)) \<le> x"
    "x < unat (mn_first_avail (mnodes m h))"
proof -
  obtain h where h: "h \<in> set (all_nodes S)" "unat (mn_begin (mnodes m h)) \<le> x"
    "x < unat (mn_first_avail (mnodes m h))"
    using x by (auto simp: used_by_def handed_out_def)
  moreover have "unat h + 48 \<le> unat (mn_begin (mnodes m h))" by (rule node_block [OF nd h(1)])
  ultimately show thesis by (intro that [of h]) simp_all
qed

lemma used_apart:
  assumes "nodes_inv e m p S" "nodes_inv e m q T" "blocks_ok (blocks m)"
    "set (all_nodes S) \<inter> set (all_nodes T) = {}"
  shows "used_by m S \<inter> used_by m T = {}"
proof (rule ccontr)
  assume "used_by m S \<inter> used_by m T \<noteq> {}"
  then obtain x where x: "x \<in> used_by m S" "x \<in> used_by m T" by blast
  obtain h where h: "h \<in> set (all_nodes S)" "unat h \<le> x" "x < unat (mn_first_avail (mnodes m h))"
    by (rule used_in_node [OF assms(1) x(1)])
  obtain k where k: "k \<in> set (all_nodes T)" "unat k \<le> x" "x < unat (mn_first_avail (mnodes m k))"
    by (rule used_in_node [OF assms(2) x(2)])
  show False using node_ranges_apart [OF assms h k] by simp
qed

lemma pools_apart:
  assumes inv: "pool_inv e m p S cl fr" "pool_inv e m q T dl gr"
    and dis: "set (all_nodes S) \<inter> set (all_nodes T) = {}"
  shows "p \<noteq> q" "used_by m S \<inter> used_by m T = {}" "set (cl @ fr) \<inter> set (dl @ gr) = {}"
proof -
  have bl: "blocks_ok (blocks m)" and nd: "nodes_inv e m p S" "nodes_inv e m q T"
    and hm: "home_ok e m p S" "home_ok e m q T"
    and cl: "cleanups_inv m p S cl fr" "cleanups_inv m q T dl gr"
    using inv by (simp_all add: pool_inv_def)
  obtain h where h: "h \<in> set (all_nodes S)" "unat h \<le> unat p" "unat p < unat (mn_first_avail (mnodes m h))"
    by (rule home_in_node [OF nd(1) hm(1)])
  obtain k where k: "k \<in> set (all_nodes T)" "unat k \<le> unat q" "unat q < unat (mn_first_avail (mnodes m k))"
    by (rule home_in_node [OF nd(2) hm(2)])
  show "p \<noteq> q" using node_ranges_apart [OF nd bl dis h k] by blast
  show u: "used_by m S \<inter> used_by m T = {}" by (rule used_apart [OF nd bl dis])
  show "set (cl @ fr) \<inter> set (dl @ gr) = {}"
    using u cleanup_in_use [OF cl(1)] cleanup_in_use [OF cl(2)] by blast
qed

lemma views_apart:
  assumes "views_ok e m (us @ vs)"
  shows "fst ` set us \<inter> fst ` set vs = {}" "set (vcleans us) \<inter> set (vcleans vs) = {}"
proof -
  have *: "fst u \<noteq> fst v \<and> set (vcleans [u]) \<inter> set (vcleans [v]) = {}"
    if "u \<in> set us" "v \<in> set vs" for u v
  proof -
    obtain p S cl fr where u: "u = (p, S, cl, fr)" by (cases u)
    obtain q T dl gr where v: "v = (q, T, dl, gr)" by (cases v)
    have "set (all_nodes S) \<inter> set (all_nodes T) = {}"
      using views_ok_appendD [OF assms] views_member that u v by blast
    moreover have "pool_inv e m p S cl fr" "pool_inv e m q T dl gr"
      using assms that unfolding views_ok_def u v by fastforce+
    ultimately show ?thesis using pools_apart u v by simp
  qed
  then show "fst ` set us \<inter> fst ` set vs = {}" by fastforce
  have "set (vcleans xs) = (\<Union>u \<in> set xs. set (vcleans [u]))" for xs
    by (auto simp: vcleans_def)
  then show "set (vcleans us) \<inter> set (vcleans vs) = {}" using * by blast
qed

section \<open>What a step leaves alone\<close>

text \<open>A step that changes neither the nodes, the cleanup nodes nor the structure of a pool, and
  releases no block that is one of its nodes.\<close>

definition same_links :: "pool \<Rightarrow> pool \<Rightarrow> bool" where
  "same_links p q \<longleftrightarrow> pl_nodes q = pl_nodes p \<and> pl_parent q = pl_parent p \<and>
     pl_brother q = pl_brother p \<and> pl_child q = pl_child p \<and> pl_mutex q = pl_mutex p \<and>
     pl_owner q = pl_owner p"

definition untouched :: "mem \<Rightarrow> view \<Rightarrow> mem \<Rightarrow> bool" where
  "untouched m v m' \<longleftrightarrow> (case v of (p, S, cl, fr) \<Rightarrow>
     (\<forall>a \<in> set (all_nodes S). mnodes m' a = mnodes m a) \<and>
     (\<forall>c \<in> set (cl @ fr). cnodes m' c = cnodes m c) \<and> pools m' p = pools m p \<and>
     (\<exists>F. blocks m' = blocks_without F (blocks m) \<and> F \<inter> set (all_nodes S) = {}))"

lemma same_links_refl [simp]: "same_links p p"
  by (simp add: same_links_def)

lemma same_links_trans: "same_links p q \<Longrightarrow> same_links q r \<Longrightarrow> same_links p r"
  by (simp add: same_links_def)

lemma linked_same:
  "(\<And>p. same_links (pools m p) (pools m' p)) \<Longrightarrow> linked e m' t = linked e m t"
proof (induction t)
  case (PTree p S cl fr ts)
  note eq = PTree.prems [unfolded same_links_def]
  have "list_all (linked e m') ts = list_all (linked e m) ts"
    using PTree.IH PTree.prems by (simp add: list_all_iff)
  then show ?case by (simp add: eq)
qed

lemma untouched_pools: "untouched m v m' \<Longrightarrow> pools m' (fst v) = pools m (fst v)"
  by (cases v) (simp add: untouched_def)

lemma nodes_untouched:
  assumes "nodes_inv e m p S" "untouched m (p, S, cl, fr) m'"
  shows "nodes_inv e m' p S" "used_by m' S = used_by m S" "home_ok e m p S \<Longrightarrow> home_ok e m' p S"
proof -
  have eq: "mnodes m' a = mnodes m a" if "a \<in> set (all_nodes S)" for a
    using assms(2) that by (simp add: untouched_def)
  have "node_ok e m' i a" if "i < SPR_MAX_POOL_SLOT" "a \<in> set (S i)" for i a
  proof -
    have a: "a \<in> set (all_nodes S)" using that by (auto simp: set_all_nodes)
    moreover obtain F where "blocks m' = blocks_without F (blocks m)" "a \<notin> F"
      using assms(2) a by (auto simp: untouched_def)
    moreover have "node_ok e m i a" using assms(1) that by (simp add: nodes_inv_def)
    ultimately show ?thesis by (simp add: node_ok_def eq blocks_without_def)
  qed
  moreover have "chain (\<lambda>a. mn_next (mnodes m' a)) b (S i) = chain (\<lambda>a. mn_next (mnodes m a)) b (S i)"
    if "i < SPR_MAX_POOL_SLOT" for b i
    using that by (intro chain_cong, subst eq) (auto simp: set_all_nodes)
  moreover have "pools m' p = pools m p" using assms(2) by (simp add: untouched_def)
  ultimately show "nodes_inv e m' p S" using assms(1) by (simp add: nodes_inv_def)
  show "used_by m' S = used_by m S" by (simp add: used_by_def handed_out_def eq)
  show "home_ok e m p S \<Longrightarrow> home_ok e m' p S" by (auto simp: home_ok_def eq)
qed

lemma untouched_chain:
  assumes "untouched m (p, S, cl, fr) m'" "set xs \<subseteq> set (cl @ fr)"
  shows "chain (\<lambda>a. cn_next (cnodes m' a)) b xs = chain (\<lambda>a. cn_next (cnodes m a)) b xs"
  using assms by (intro chain_cong) (auto simp: untouched_def)

lemma pool_inv_untouched:
  assumes inv: "pool_inv e m p S cl fr" and un: "untouched m (p, S, cl, fr) m'" and lk: "lock_ok e m' p"
  shows "pool_inv e m' p S cl fr"
proof -
  have nd: "nodes_inv e m p S" using inv by (simp add: pool_inv_def)
  have "blocks_ok (blocks m')"
    using inv un by (auto simp: pool_inv_def untouched_def intro: blocks_ok_without)
  moreover have "cleanups_inv m' p S cl fr"
    using inv un untouched_chain [OF un, of cl] untouched_chain [OF un, of fr] nodes_untouched(2) [OF nd un]
    by (simp add: pool_inv_def cleanups_inv_def untouched_def)
  ultimately show ?thesis
    using inv lk nodes_untouched [OF nd un] by (simp add: pool_inv_def)
qed

text \<open>The lock of another pool stays available while the calling thread holds this one.\<close>

lemma lock_ok_locked:
  assumes "lock_ok e m p" "lock_ok e m q" "mutexes m' = locked e m p" "pl_mutex (pools m' q) = pl_mutex (pools m q)"
    "thread_safety e \<Longrightarrow> accessible e (blocks m') (pl_mutex (pools m q))"
  shows "lock_ok e m' q"
  using assms by (auto simp: lock_ok_def locked_def Let_def)

section \<open>The effect of a walk over pools\<close>

text \<open>The pools \<open>vs\<close> have run their cleanups, the blocks their handlers released are gone, and with
  them the blocks \<open>own vs\<close>; nothing else has changed but the cleanup lists and the nodes of these
  pools.\<close>

definition walk_effect :: "(view list \<Rightarrow> addr set) \<Rightarrow> mem \<Rightarrow> view list \<Rightarrow> mem \<Rightarrow> bool" where
  "walk_effect own m vs m' \<longleftrightarrow>
     calls m' = calls m @ vpending m vs \<and>
     blocks m' = blocks_without (set (frees (vpending m vs)) \<union> own vs) (blocks m) \<and>
     mutexes m' = mutexes m \<and>
     (\<forall>a. a \<notin> set (vnodes vs) \<longrightarrow> mnodes m' a = mnodes m a) \<and>
     (\<forall>c. c \<notin> set (vcleans vs) \<longrightarrow> cnodes m' c = cnodes m c) \<and>
     (\<forall>p. p \<notin> fst ` set vs \<longrightarrow> pools m' p = pools m p) \<and>
     (\<forall>p. same_links (pools m p) (pools m' p))"

lemma walk_effect_append:
  assumes "walk_effect own m us m1" "walk_effect own m1 vs m2" "vpending m1 vs = vpending m vs"
    "own (us @ vs) = own us \<union> own vs"
  shows "walk_effect own m (us @ vs) m2"
  using assms unfolding walk_effect_def
  by (auto simp: Un_ac image_Un intro: same_links_trans)

lemma vpending_untouched:
  "(\<forall>v \<in> set vs. untouched m v m') \<Longrightarrow> vpending m' vs = vpending m vs"
  unfolding vpending_def
  by (intro arg_cong [of _ _ concat] map_cong refl) (auto simp: untouched_def intro!: pending_cong)

text \<open>What was true of the pools not yet visited stays true.\<close>

lemma views_untouched:
  assumes "views_ok e m vs" "\<forall>v \<in> set vs. untouched m v m' \<and> lock_ok e m' (fst v)"
  shows "views_ok e m' vs"
  using assms pool_inv_untouched by (fastforce simp: views_ok_def)

lemma releases_all_mono:
  assumes rel: "releases_all m (us @ vs)" and bl: "blocks m' = blocks_without F (blocks m)"
    and F: "F \<subseteq> set (frees (vpending m us)) \<union> set (vnodes (us @ vs))" and un: "\<forall>v \<in> set vs. untouched m v m'"
  shows "releases_all m' vs"
proof -
  let ?ds = "frees (vpending m vs)"
  have ready: "frees_ready m (frees (vpending m us) @ ?ds)"
    and dis: "set (frees (vpending m us) @ ?ds) \<inter> set (vnodes (us @ vs)) = {}"
    using rel by (simp_all add: releases_all_def Let_def)
  have mx: "\<forall>v \<in> set vs. \<forall>b \<in> set (blocks m). fst b \<in> set ?ds \<longrightarrow>
      \<not> in_range (fst b) (snd b) (pl_mutex (pools m (fst v)))"
    using rel by (simp add: releases_all_def Let_def)
  have pend: "vpending m' vs = vpending m vs" by (rule vpending_untouched [OF un])
  have "set ?ds \<inter> F = {}" using F ready dis by (auto simp: frees_ready_def)
  moreover have "fst ` set (blocks m') = fst ` set (blocks m) - F"
    by (auto simp: bl blocks_without_def image_iff)
  ultimately have "frees_ready m' ?ds"
    using ready unfolding frees_ready_def by auto
  moreover have "\<not> in_range (fst b) (snd b) (pl_mutex (pools m' (fst v)))"
    if "v \<in> set vs" "b \<in> set (blocks m')" "fst b \<in> set ?ds" for v b
  proof -
    have "b \<in> set (blocks m)" using that(2) by (simp add: bl blocks_without_def)
    moreover have "pools m' (fst v) = pools m (fst v)" using un that(1) untouched_pools by blast
    ultimately show ?thesis using mx that(1,3) by simp
  qed
  ultimately show ?thesis using dis unfolding releases_all_def Let_def pend by auto
qed

text \<open>None of the mutexes of these pools lies in one of these blocks.\<close>

definition mutex_apart :: "env \<Rightarrow> mem \<Rightarrow> addr set \<Rightarrow> view list \<Rightarrow> bool" where
  "mutex_apart e m F vs \<longleftrightarrow> (thread_safety e \<longrightarrow> (\<forall>v \<in> set vs. \<forall>b \<in> set (blocks m). fst b \<in> F \<longrightarrow>
     \<not> in_range (fst b) (snd b) (pl_mutex (pools m (fst v)))))"

lemma mutex_apart_empty [simp]: "mutex_apart e m {} vs"
  by (simp add: mutex_apart_def)

lemma mutex_apart_mono:
  assumes "mutex_apart e m F vs" "set (blocks m') \<subseteq> set (blocks m)" "G \<subseteq> F" "set us \<subseteq> set vs"
    "\<And>p. same_links (pools m p) (pools m' p)"
  shows "mutex_apart e m' G us"
  unfolding mutex_apart_def
proof (intro impI ballI)
  fix v b assume a: "thread_safety e" "v \<in> set us" "b \<in> set (blocks m')" "fst b \<in> G"
  have "pl_mutex (pools m' (fst v)) = pl_mutex (pools m (fst v))" using assms(5) by (simp add: same_links_def)
  moreover have "v \<in> set vs" "b \<in> set (blocks m)" "fst b \<in> F" using a assms(2-4) by blast+
  ultimately show "\<not> in_range (fst b) (snd b) (pl_mutex (pools m' (fst v)))"
    using assms(1) a(1) by (simp add: mutex_apart_def)
qed

text \<open>Two groups of pools that share nothing, whatever the state.\<close>

definition separate :: "view list \<Rightarrow> view list \<Rightarrow> bool" where
  "separate us vs \<longleftrightarrow> set (vnodes us) \<inter> set (vnodes vs) = {} \<and> fst ` set us \<inter> fst ` set vs = {} \<and>
     set (vcleans us) \<inter> set (vcleans vs) = {}"

lemma separate_sym: "separate us vs \<longleftrightarrow> separate vs us"
  by (auto simp: separate_def)

lemma views_ok_separate: "views_ok e m (us @ vs) \<Longrightarrow> separate us vs"
  unfolding separate_def using views_apart [of e m us vs] views_ok_appendD [of e m us vs] by blast

lemma effect_untouched:
  assumes sep: "separate us vs" and eff: "walk_effect own m us m'" and own: "own us \<subseteq> set (vnodes us)"
    and fs: "set (frees (vpending m us)) \<inter> set (vnodes vs) = {}"
  shows "\<forall>v \<in> set vs. untouched m v m'"
proof
  fix v assume v: "v \<in> set vs"
  obtain p S cl fr where eq: "v = (p, S, cl, fr)" by (cases v)
  have mem: "set (all_nodes S) \<subseteq> set (vnodes vs)" "set (cl @ fr) \<subseteq> set (vcleans vs)" "p \<in> fst ` set vs"
    using views_member [OF v [unfolded eq]] by blast+
  have "(set (frees (vpending m us)) \<union> own us) \<inter> set (all_nodes S) = {}"
    using mem(1) sep own fs by (auto simp: separate_def)
  moreover have "\<forall>a \<in> set (all_nodes S). a \<notin> set (vnodes us)" "\<forall>c \<in> set (cl @ fr). c \<notin> set (vcleans us)"
    "p \<notin> fst ` set us"
    using mem sep unfolding separate_def by blast+
  ultimately show "untouched m v m'"
    using eff unfolding untouched_def eq prod.case
    by (intro conjI exI [of _ "set (frees (vpending m us)) \<union> own us"]) (simp_all add: walk_effect_def)
qed

text \<open>What \<open>releases_all\<close> says of the first and of the other pools.\<close>

lemma releases_all_appendD:
  assumes "releases_all m (us @ vs)"
  shows "releases_all m us" "set (frees (vpending m us)) \<inter> set (vnodes vs) = {}"
    "set (frees (vpending m vs)) \<inter> set (vnodes us) = {}"
    "v \<in> set (us @ vs) \<Longrightarrow> b \<in> set (blocks m) \<Longrightarrow> fst b \<in> set (frees (vpending m us)) \<Longrightarrow>
      \<not> in_range (fst b) (snd b) (pl_mutex (pools m (fst v)))"
proof -
  let ?d = "set (frees (vpending m us))" and ?n = "set (vnodes us)"
  have r: "frees_ready m (frees (vpending m us) @ frees (vpending m vs))"
    "(?d \<union> set (frees (vpending m vs))) \<inter> (?n \<union> set (vnodes vs)) = {}"
    and mx: "\<And>v b. v \<in> set (us @ vs) \<Longrightarrow> b \<in> set (blocks m) \<Longrightarrow> fst b \<in> ?d \<Longrightarrow>
      \<not> in_range (fst b) (snd b) (pl_mutex (pools m (fst v)))"
    using assms by (simp_all add: releases_all_def Let_def)
  show "?d \<inter> set (vnodes vs) = {}" "set (frees (vpending m vs)) \<inter> ?n = {}" using r(2) by auto
  have "frees_ready m (frees (vpending m us))" by (rule frees_ready_append [OF r(1)])
  then show "releases_all m us" using r(2) mx by (auto simp: releases_all_def Let_def)
  show "v \<in> set (us @ vs) \<Longrightarrow> b \<in> set (blocks m) \<Longrightarrow> fst b \<in> ?d \<Longrightarrow>
      \<not> in_range (fst b) (snd b) (pl_mutex (pools m (fst v)))" by (rule mx)
qed

lemma lock_ok_released:
  assumes "lock_ok e m q" "pools m' q = pools m q" "mutexes m' = mutexes m \<or> mutexes m' = locked e m p \<and> lock_ok e m p"
    "thread_safety e \<Longrightarrow> accessible e (blocks m') (pl_mutex (pools m q))"
  shows "lock_ok e m' q"
  using assms(3)
proof (elim disjE conjE)
  assume "mutexes m' = mutexes m"
  then show ?thesis using assms by (simp add: lock_ok_def)
next
  assume "mutexes m' = locked e m p" "lock_ok e m p"
  with assms show ?thesis by (metis lock_ok_locked)
qed

section \<open>Entering a pool\<close>

text \<open>The state in which the walk goes on to the children: the cleanups of the pool itself have run,
  and the calling thread may hold its lock.\<close>

definition entered :: "env \<Rightarrow> mem \<Rightarrow> view \<Rightarrow> mem \<Rightarrow> bool" where
  "entered e m v m1 \<longleftrightarrow> (case v of (p, S, cl, fr) \<Rightarrow>
     calls m1 = calls m @ pending m cl \<and>
     blocks m1 = blocks_without (set (frees (pending m cl))) (blocks m) \<and>
     (mutexes m1 = mutexes m \<or> mutexes m1 = locked e m p) \<and> mnodes m1 = mnodes m \<and>
     (\<forall>c. c \<notin> set cl \<longrightarrow> cnodes m1 c = cnodes m c) \<and>
     (\<forall>q. q \<noteq> p \<longrightarrow> pools m1 q = pools m q) \<and> same_links (pools m p) (pools m1 p) \<and>
     pl_cleanups (pools m1 p) = NULL \<and> pool_inv e m1 p S [] (rev cl @ fr))"

lemma entered_others:
  assumes ok: "views_ok e m (v # vs)" and rel: "releases_all m (v # vs)" and ent: "entered e m v m1"
  shows "\<forall>u \<in> set vs. untouched m u m1" "views_ok e m1 vs" "releases_all m1 vs"
    "vpending m1 vs = vpending m vs"
proof -
  obtain p S cl fr where v: "v = (p, S, cl, fr)" by (cases v)
  have sep: "separate [v] vs" using views_ok_separate [of e m "[v]" vs] ok by simp
  have rel': "releases_all m ([v] @ vs)" using rel by simp
  note rels = releases_all_appendD [OF rel']
  have un: "untouched m u m1 \<and> lock_ok e m1 (fst u)" if u: "u \<in> set vs" for u
  proof
    obtain q T dl gr where eq: "u = (q, T, dl, gr)" by (cases u)
    have mem: "set (all_nodes T) \<subseteq> set (vnodes vs)" "set (dl @ gr) \<subseteq> set (vcleans vs)" "q \<in> fst ` set vs"
      using views_member [OF u [unfolded eq]] by blast+
    have F: "set (frees (pending m cl)) \<inter> set (all_nodes T) = {}" using rels(2) mem(1) v by auto
    have "q \<noteq> p" "set (dl @ gr) \<inter> set cl = {}" using sep mem by (auto simp: separate_def v)
    then have q: "pools m1 q = pools m q" and c: "\<forall>c \<in> set (dl @ gr). cnodes m1 c = cnodes m c"
      using ent by (auto simp: entered_def v)
    show "untouched m u m1" using ent F q c by (auto simp: untouched_def entered_def v eq)
    have inv: "pool_inv e m q T dl gr" "pool_inv e m p S cl fr"
      using ok u eq v by (auto simp: views_ok_def)
    have acc: "accessible e (blocks m1) (pl_mutex (pools m q))" if "thread_safety e"
    proof -
      have "accessible e (blocks m) (pl_mutex (pools m q))" using inv that by (simp add: pool_inv_def lock_ok_def)
      moreover have "\<forall>(d, n) \<in> set (blocks m). d \<in> set (frees (pending m cl)) \<longrightarrow> \<not> in_range d n (pl_mutex (pools m q))"
        using rels(4) [of u] u eq v by (auto simp: case_prod_beta)
      moreover have "blocks m1 = blocks_without (set (frees (pending m cl))) (blocks m)"
        using ent by (simp add: entered_def v)
      ultimately show ?thesis by (simp add: accessible_without)
    qed
    show "lock_ok e m1 (fst u)" unfolding eq fst_conv
    proof (rule lock_ok_released [of e m q m1 p])
      show "lock_ok e m q" using inv(1) by (simp add: pool_inv_def)
      show "mutexes m1 = mutexes m \<or> mutexes m1 = locked e m p \<and> lock_ok e m p"
        using ent inv(2) by (auto simp: entered_def v pool_inv_def)
    qed (use q acc in simp_all)
  qed
  then show un': "\<forall>u \<in> set vs. untouched m u m1" by blast
  show "views_ok e m1 vs" using views_ok_ConsD ok un views_untouched v by blast
  show "vpending m1 vs = vpending m vs" by (rule vpending_untouched [OF un'])
  show "releases_all m1 vs"
    using ent by (intro releases_all_mono [OF rel' _ _ un']) (auto simp: entered_def v)
qed

section \<open>Leaving a pool\<close>

text \<open>The pools visited later find the state as if nothing had happened before.\<close>

lemma effect_others:
  assumes ok: "views_ok e m (us @ vs)" and rel: "releases_all m (us @ vs)" and eff: "walk_effect own m us m'"
    and own_nodes: "own us \<subseteq> set (vnodes us)" and mutex: "mutex_apart e m (own us) vs"
  shows "\<forall>v \<in> set vs. untouched m v m'" "views_ok e m' vs" "releases_all m' vs" "vpending m' vs = vpending m vs"
proof -
  note rels = releases_all_appendD [OF rel]
  have bl: "blocks m' = blocks_without (set (frees (vpending m us)) \<union> own us) (blocks m)"
    and mt: "mutexes m' = mutexes m" using eff by (simp_all add: walk_effect_def)
  show un: "\<forall>v \<in> set vs. untouched m v m'"
    by (rule effect_untouched [OF views_ok_separate [OF ok] eff own_nodes rels(2)])
  have lk: "lock_ok e m' (fst v)" if v: "v \<in> set vs" for v
  proof -
    obtain p S cl fr where eq: "v = (p, S, cl, fr)" by (cases v)
    have lk: "lock_ok e m p" using ok v eq by (auto simp: views_ok_def pool_inv_def)
    have same: "pools m' p = pools m p" using un v untouched_pools eq by fastforce
    have "accessible e (blocks m') (pl_mutex (pools m p))" if "thread_safety e"
    proof -
      have "\<not> in_range (fst b) (snd b) (pl_mutex (pools m p))" if "b \<in> set (blocks m)" "fst b \<in> own us" for b
        using mutex v that \<open>thread_safety e\<close> by (force simp: mutex_apart_def eq)
      then have "\<forall>(d, n) \<in> set (blocks m). d \<in> set (frees (vpending m us)) \<union> own us \<longrightarrow>
          \<not> in_range d n (pl_mutex (pools m p))"
        using rels(4) [of v] v eq by (auto simp: case_prod_beta)
      then show ?thesis unfolding bl using lk that by (intro accessible_without) (simp_all add: lock_ok_def)
    qed
    then show ?thesis using lk same mt by (simp add: lock_ok_def eq)
  qed
  show "views_ok e m' vs" using views_ok_appendD [OF ok] un lk views_untouched by blast
  show "vpending m' vs = vpending m vs" by (rule vpending_untouched [OF un])
  show "releases_all m' vs"
    using own_nodes by (intro releases_all_mono [OF rel bl _ un]) auto
qed

text \<open>So does the pool itself when the walk comes back from its children.\<close>

lemma entered_reordered:
  assumes ok: "views_ok e m ((p, S, cl, fr) # vs)" and rel: "releases_all m ((p, S, cl, fr) # vs)"
    and ent: "entered e m (p, S, cl, fr) m1"
  shows "views_ok e m1 (vs @ [(p, S, [], rev cl @ fr)])" "releases_all m1 (vs @ [(p, S, [], rev cl @ fr)])"
proof -
  note others = entered_others [OF ok rel ent]
  have dis: "distinct (all_nodes S)" "set (all_nodes S) \<inter> set (vnodes vs) = {}"
    using ok by (auto simp: views_ok_def)
  have "pool_inv e m1 p S [] (rev cl @ fr)" using ent by (simp add: entered_def)
  then show "views_ok e m1 (vs @ [(p, S, [], rev cl @ fr)])"
    using others(2) dis by (auto simp: views_ok_def)
  have rel': "releases_all m ([(p, S, cl, fr)] @ vs)" using rel by simp
  note rels = releases_all_appendD [OF rel']
  have mx: "\<not> in_range (fst b) (snd b) (pl_mutex (pools m1 p))"
    if "b \<in> set (blocks m1)" "fst b \<in> set (frees (vpending m vs))" for b
  proof -
    have "b \<in> set (blocks m)" using that(1) ent by (auto simp: entered_def blocks_without_def)
    moreover have "pl_mutex (pools m1 p) = pl_mutex (pools m p)" using ent by (simp add: entered_def same_links_def)
    ultimately show ?thesis using rel that(2) by (simp add: releases_all_def Let_def)
  qed
  show "releases_all m1 (vs @ [(p, S, [], rev cl @ fr)])"
    using others(3,4) rels(3) mx by (auto simp: releases_all_def Let_def pending_def Int_Un_distrib)
qed

lemma left_children:
  assumes ok: "views_ok e m ((p, S, cl, fr) # vs)" and rel: "releases_all m ((p, S, cl, fr) # vs)"
    and ent: "entered e m (p, S, cl, fr) m1" and eff: "walk_effect own m1 vs m2"
    and own: "own vs \<subseteq> set (vnodes vs)" "mutex_apart e m (own vs) ((p, S, cl, fr) # vs)"
  shows "untouched m1 (p, S, [], rev cl @ fr) m2" "pool_inv e m2 p S [] (rev cl @ fr)"
proof -
  have "mutex_apart e m1 (own vs) [(p, S, [], rev cl @ fr)]"
    using own(2) ent by (auto simp: mutex_apart_def entered_def same_links_def blocks_without_def)
  from effect_others [OF entered_reordered [OF ok rel ent] eff own(1) this]
  show "untouched m1 (p, S, [], rev cl @ fr) m2" "pool_inv e m2 p S [] (rev cl @ fr)"
    by (simp_all add: views_ok_def)
qed

lemma visited_effect:
  assumes "entered e m (p, S, cl, fr) m1" "walk_effect own m1 vs m2" "vpending m1 vs = vpending m vs"
    and "calls m' = calls m2" "blocks m' = blocks_without (own [(p, S, cl, fr)]) (blocks m2)" "mutexes m' = mutexes m"
    and "\<forall>a. a \<notin> set (all_nodes S) \<longrightarrow> mnodes m' a = mnodes m2 a" "cnodes m' = cnodes m2" "pools m' = pools m2"
    and "own ((p, S, cl, fr) # vs) = own [(p, S, cl, fr)] \<union> own vs"
  shows "walk_effect own m ((p, S, cl, fr) # vs) m'"
proof -
  have "same_links (pools m q) (pools m1 q)" for q
    using assms(1) by (cases "q = p") (auto simp: entered_def)
  then have "same_links (pools m q) (pools m' q)" for q
    using assms(2,9) same_links_trans by (metis walk_effect_def)
  then show ?thesis using assms by (simp add: walk_effect_def entered_def Un_ac)
qed

section \<open>Walking over a tree of pools\<close>

text \<open>
  \<^verbatim>\<open>spr_pool_clear\<close> and \<^verbatim>\<open>spr_pool_destroy\<close> walk over the tree in the same way: they visit a pool,
  go on to its children along the list of brothers, and finish the pool. The interface states what the
  visit of one pool must guarantee when the walk over its children has the right effect; the lemmas
  conclude the effect on whole trees. \<^verbatim>\<open>own\<close> is the memory of the pools that the walk releases besides what the
  cleanups release, and \<^verbatim>\<open>fit\<close> what it needs of a pool; the mutexes must lie outside the memory released
  before them.
\<close>

definition owned :: "env \<Rightarrow> mem \<Rightarrow> view list \<Rightarrow> bool" where
  "owned e m vs \<longleftrightarrow> (\<forall>v \<in> set vs. \<not> not_owner e (pools m (fst v)))"

lemma owned_append [simp]: "owned e m (us @ vs) \<longleftrightarrow> owned e m us \<and> owned e m vs"
  by (auto simp: owned_def)

lemma owned_same: "(\<And>p. same_links (pools m p) (pools m' p)) \<Longrightarrow> owned e m' vs = owned e m vs"
  by (simp add: owned_def not_owner_def same_links_def)

locale tree_walk =
  fixes e :: env and visit walk :: "nat \<Rightarrow> addr \<Rightarrow> mem \<Rightarrow> mem option"
    and own :: "view list \<Rightarrow> addr set" and finished :: "mem \<Rightarrow> view \<Rightarrow> bool" and fit :: "view \<Rightarrow> bool"
  assumes walk_null: "walk (Suc d) NULL m = Some m"
    and walk_step: "a \<noteq> NULL \<Longrightarrow> walk (Suc d) a m
      = do { p \<leftarrow> load_pool e a m; m \<leftarrow> visit d a m; walk d (pl_brother p) m }"
    and own_append: "own (us @ vs) = own us \<union> own vs"
    and own_nodes: "own vs \<subseteq> set (vnodes vs)"
    and finished_untouched: "finished m v \<Longrightarrow> untouched m v m' \<Longrightarrow> finished m' v"
    and visit_pool: "views_ok e m ((p, S, cl, fr) # vs) \<Longrightarrow> releases_all m ((p, S, cl, fr) # vs) \<Longrightarrow>
      \<not> not_owner e (pools m p) \<Longrightarrow> fit (p, S, cl, fr) \<Longrightarrow> mutex_apart e m (own vs) ((p, S, cl, fr) # vs) \<Longrightarrow>
      (\<forall>m1. entered e m (p, S, cl, fr) m1 \<longrightarrow> (\<exists>m2. walk d (pl_child (pools m p)) m1 = Some m2 \<and>
        walk_effect own m1 vs m2 \<and> (\<forall>v \<in> set vs. finished m2 v))) \<Longrightarrow>
      \<exists>m'. visit (Suc d) p m = Some m' \<and> walk_effect own m ((p, S, cl, fr) # vs) m' \<and>
        (\<forall>v \<in> set ((p, S, cl, fr) # vs). finished m' v)"
begin

lemma walk_forest:
  assumes visit: "\<And>t m d. t \<in> set ts \<Longrightarrow> views_ok e m (flat t) \<Longrightarrow> linked e m t \<Longrightarrow> owned e m (flat t) \<Longrightarrow>
      releases_all m (flat t) \<Longrightarrow> 2 * length (flat t) \<le> d \<Longrightarrow> \<forall>v \<in> set (flat t). fit v \<Longrightarrow>
      mutex_apart e m (own (tl (flat t))) (flat t) \<Longrightarrow>
      \<exists>m'. visit d (pool_of t) m = Some m' \<and> walk_effect own m (flat t) m' \<and> (\<forall>v \<in> set (flat t). finished m' v)"
    and "views_ok e m (concat (map flat ts))" "list_all (linked e m) ts" "owned e m (concat (map flat ts))"
    "releases_all m (concat (map flat ts))" "chain (\<lambda>a. pl_brother (pools m a)) a (map pool_of ts)"
    "Suc (2 * length (concat (map flat ts))) \<le> d" "\<forall>v \<in> set (concat (map flat ts)). fit v"
    "mutex_apart e m (own (concat (map flat ts))) (concat (map flat ts))"
  shows "\<exists>m'. walk d a m = Some m' \<and> walk_effect own m (concat (map flat ts)) m' \<and>
    (\<forall>v \<in> set (concat (map flat ts)). finished m' v)"
  using assms
proof (induction ts arbitrary: a m d)
  case Nil
  then obtain d' where "d = Suc d'" by (cases d) auto
  moreover have "own [] = {}" using own_nodes [of "[]"] by simp
  ultimately show ?case using Nil.prems(6) by (simp add: walk_null walk_effect_def)
next
  case (Cons t ts)
  let ?us = "flat t" and ?vs = "concat (map flat ts)"
  obtain p S cl fr us where t: "?us = (p, S, cl, fr) # us" "pool_of t = p" by (cases t) auto
  obtain d' where d: "d = Suc d'" using Cons.prems(7) by (cases d) auto
  have ok: "views_ok e m (?us @ ?vs)" and rel: "releases_all m (?us @ ?vs)" using Cons.prems by simp_all
  have a: "a = p" "a \<noteq> NULL" "chain (\<lambda>a. pl_brother (pools m a)) (pl_brother (pools m p)) (map pool_of ts)"
    using Cons.prems(6) t by auto
  have acc: "accessible e (blocks m) p"
    using ok t(1) by (auto simp: views_ok_def intro: pool_inv_accessible)
  have "owned e m ?us" "linked e m t" using Cons.prems(3,4) by simp_all
  moreover have "2 * length ?us \<le> d'" using Cons.prems(7) d t(1) by simp
  moreover have mx: "mutex_apart e m (own (?us @ ?vs)) (?us @ ?vs)" and fit: "\<forall>v \<in> set (?us @ ?vs). fit v"
    using Cons.prems(8,9) by simp_all
  have part: "own us \<subseteq> own (?us @ ?vs)" "own ?us \<subseteq> own (?us @ ?vs)" "own ?vs \<subseteq> own (?us @ ?vs)"
    using own_append [of ?us ?vs] own_append [of "[(p, S, cl, fr)]" us] by (auto simp: t(1))
  have "mutex_apart e m (own (tl ?us)) ?us"
    using part(1) by (intro mutex_apart_mono [OF mx]) (auto simp: t(1))
  ultimately obtain m1 where m1: "visit d' p m = Some m1" "walk_effect own m ?us m1" "\<forall>v \<in> set ?us. finished m1 v"
    using Cons.prems(1) [of t m d'] views_ok_appendD [OF ok] releases_all_appendD(1) [OF rel] t(2) fit by auto
  have "mutex_apart e m (own ?us) ?vs" using part(2) by (intro mutex_apart_mono [OF mx]) simp_all
  note others = effect_others [OF ok rel m1(2) own_nodes this]
  have same: "same_links (pools m q) (pools m1 q)" for q using m1(2) by (simp add: walk_effect_def)
  have "mutex_apart e m1 (own ?vs) ?vs"
    using part(3) same m1(2) by (intro mutex_apart_mono [OF mx]) (auto simp: walk_effect_def blocks_without_def)
  note mx1 = this
  have lin: "linked e m1 u = linked e m u" for u by (rule linked_same [OF same])
  have "\<exists>m2. walk d' (pl_brother (pools m p)) m1 = Some m2 \<and> walk_effect own m1 ?vs m2 \<and>
    (\<forall>v \<in> set ?vs. finished m2 v)"
  proof (rule Cons.IH)
    show "owned e m1 ?vs" using Cons.prems(4) owned_same [OF same] by simp
    show "chain (\<lambda>a. pl_brother (pools m1 a)) (pl_brother (pools m p)) (map pool_of ts)"
      using a(3) same by (simp add: same_links_def)
    show "Suc (2 * length ?vs) \<le> d'" using Cons.prems(7) d t(1) by simp
    show "list_all (linked e m1) ts" using Cons.prems(3) lin by (simp add: list_all_iff)
    show "views_ok e m1 ?vs" "releases_all m1 ?vs" by (rule others(2,3))+
    show "\<forall>v \<in> set ?vs. fit v" using fit by simp
    show "mutex_apart e m1 (own ?vs) ?vs" by (rule mx1)
  qed (rule Cons.prems(1), simp_all)
  then obtain m2 where m2: "walk d' (pl_brother (pools m p)) m1 = Some m2" "walk_effect own m1 ?vs m2"
    "\<forall>v \<in> set ?vs. finished m2 v" by (elim exE conjE) (rule that)
  have "walk d a m = Some m2" using a acc m1(1) m2(1) by (simp add: d walk_step load_pool_def)
  moreover have "walk_effect own m (?us @ ?vs) m2"
    by (rule walk_effect_append [of own, OF m1(2) m2(2) others(4) own_append])
  moreover have "\<forall>v \<in> set ?us. untouched m1 v m2"
  proof (rule effect_untouched [OF _ m2(2) own_nodes])
    show "separate ?vs ?us" using views_ok_separate [OF ok] separate_sym by blast
    show "set (frees (vpending m1 ?vs)) \<inter> set (vnodes ?us) = {}"
      using releases_all_appendD(3) [OF rel] others(4) by simp
  qed
  ultimately show ?case using m1(3) m2(3) finished_untouched by auto
qed

lemma visit_tree:
  assumes "views_ok e m (flat t)" "linked e m t" "owned e m (flat t)" "releases_all m (flat t)"
    "2 * length (flat t) \<le> d" "\<forall>v \<in> set (flat t). fit v" "mutex_apart e m (own (tl (flat t))) (flat t)"
  shows "\<exists>m'. visit d (pool_of t) m = Some m' \<and> walk_effect own m (flat t) m' \<and>
    (\<forall>v \<in> set (flat t). finished m' v)"
  using assms
proof (induction t arbitrary: m d)
  case (PTree p S cl fr ts)
  let ?v = "(p, S, cl, fr)" and ?vs = "concat (map flat ts)"
  obtain d' where d: "d = Suc d'" using PTree.prems(5) by (cases d) auto
  have ok: "views_ok e m (?v # ?vs)" and rel: "releases_all m (?v # ?vs)" using PTree.prems(1,4) by simp_all
  have "\<exists>m2. walk d' (pl_child (pools m p)) m1 = Some m2 \<and> walk_effect own m1 ?vs m2 \<and> (\<forall>v \<in> set ?vs. finished m2 v)"
    if ent: "entered e m ?v m1" for m1
  proof (rule walk_forest)
    note others = entered_others [OF ok rel ent]
    have same: "same_links (pools m q) (pools m1 q)" for q
      using ent by (cases "q = p") (auto simp: entered_def)
    show "views_ok e m1 ?vs" "releases_all m1 ?vs" by (rule others)+
    show "owned e m1 ?vs" using PTree.prems(3) owned_same [OF same] by (simp add: owned_def)
    show "list_all (linked e m1) ts" using PTree.prems(2) linked_same [OF same] by (simp add: list_all_iff)
    show "chain (\<lambda>a. pl_brother (pools m1 a)) (pl_child (pools m p)) (map pool_of ts)"
      using PTree.prems(2) same by (simp add: same_links_def)
    show "Suc (2 * length ?vs) \<le> d'" using PTree.prems(5) d by simp
    show "\<forall>v \<in> set ?vs. fit v" using PTree.prems(6) by simp
    have "mutex_apart e m (own ?vs) (?v # ?vs)" using PTree.prems(7) by simp
    then show "mutex_apart e m1 (own ?vs) ?vs"
      by (rule mutex_apart_mono) (use ent same in \<open>auto simp: entered_def blocks_without_def\<close>)
  qed (rule PTree.IH)
  note walk = this
  have "\<not> not_owner e (pools m p)" "fit ?v" "mutex_apart e m (own ?vs) (?v # ?vs)"
    using PTree.prems(3,6,7) by (simp_all add: owned_def)
  from visit_pool [OF ok rel this, of d'] walk show ?case by (simp add: d)
qed

end

section \<open>Clearing a tree\<close>

text \<open>A cleared pool: its memory is all free, no cleanup is registered, and the nodes of its cleanups
  are reserved.\<close>

definition cleared :: "env \<Rightarrow> mem \<Rightarrow> view \<Rightarrow> bool" where
  "cleared e m v \<longleftrightarrow> (case v of (p, S, cl, fr) \<Rightarrow>
     nodes_inv e m p S \<and> home_ok e m p S \<and> used_by m S = {} \<and> pl_cleanups (pools m p) = NULL \<and>
     chain (\<lambda>a. cn_next (cnodes m a)) (pl_free_cleanups (pools m p)) (rev cl @ fr))"

lemma cleared_untouched:
  assumes "cleared e m v" "untouched m v m'"
  shows "cleared e m' v"
proof -
  obtain p S cl fr where v: "v = (p, S, cl, fr)" by (cases v)
  have nd: "nodes_inv e m p S" using assms(1) by (simp add: cleared_def v)
  have un: "untouched m (p, S, cl, fr) m'" using assms(2) v by simp
  note frame = nodes_untouched [OF nd un]
  show ?thesis
    using assms(1) frame untouched_pools [OF un] untouched_chain [OF un, of "rev cl @ fr"]
    by (simp add: cleared_def v)
qed

lemma reset_untouched:
  assumes "views_ok e m (v # vs)" "u \<in> set vs"
  shows "untouched m2 u (reset_on (set (all_nodes (fst (snd v)))) m2\<lparr>mutexes := x\<rparr>)"
proof -
  obtain p S cl fr where v: "v = (p, S, cl, fr)" by (cases v)
  obtain q T dl gr where u: "u = (q, T, dl, gr)" by (cases u)
  have "set (all_nodes S) \<inter> set (all_nodes T) = {}"
    using views_ok_ConsD [of e m p S cl fr vs] views_member [of q T dl gr vs] assms u v by blast
  then have "\<forall>a \<in> set (all_nodes T). mnodes (reset_on (set (all_nodes S)) m2) a = mnodes m2 a"
    by (auto simp: reset_on_def)
  then show ?thesis
    using blocks_without_simps(1) [of "blocks m2"] by (auto simp: untouched_def u v intro!: exI [of _ "{}"])
qed

lemma clear_visit:
  assumes ok: "views_ok e m ((p, S, cl, fr) # vs)" and rel: "releases_all m ((p, S, cl, fr) # vs)"
    and own: "\<not> not_owner e (pools m p)"
    and walk: "\<forall>m1. entered e m (p, S, cl, fr) m1 \<longrightarrow> (\<exists>m2. clear_children d e (pl_child (pools m p)) m1 = Some m2 \<and>
      walk_effect (\<lambda>_. {}) m1 vs m2 \<and> (\<forall>v \<in> set vs. cleared e m2 v))"
  shows "\<exists>m'. clear_depth (Suc d) e p m = Some m' \<and> walk_effect (\<lambda>_. {}) m ((p, S, cl, fr) # vs) m' \<and>
    (\<forall>v \<in> set ((p, S, cl, fr) # vs). cleared e m' v)"
proof -
  have inv: "pool_inv e m p S cl fr" using ok by (simp add: views_ok_def)
  note acc = pool_inv_accessible [OF inv]
  have lk: "lock_ok e m p" using inv by (simp add: pool_inv_def)
  let ?m0 = "m\<lparr>mutexes := locked e m p\<rparr>"
  have lock: "pool_lock e p m = Some ?m0" by (rule pool_lock_ok [OF lk acc])
  have pend: "pending ?m0 cl = pending m cl" by (simp add: pending_def)
  have "releases_ok m p S (frees (pending m cl))"
    using releases_all_appendD(1) [of m "[(p, S, cl, fr)]" vs] rel
    by (auto simp: releases_all_def releases_ok_def Let_def)
  then have rel0: "releases_ok ?m0 p S (frees (pending ?m0 cl))"
    by (simp add: releases_ok_def frees_ready_def pending_def)
  obtain m1 where r: "spr_pool_cleanup_run_all e p ?m0 = Some m1"
    "pool_inv e m1 p S [] (rev cl @ fr)" "calls m1 = calls m @ pending m cl"
    "blocks m1 = blocks_without (set (frees (pending m cl))) (blocks m)"
    "same_client_memory ?m0 m1" "mnodes m1 = mnodes m" "\<forall>x. x \<notin> set cl \<longrightarrow> cnodes m1 x = cnodes m x"
    "\<exists>f. pools m1 = (pools m)(p := pools m p\<lparr>pl_free_cleanups := f, pl_cleanups := NULL\<rparr>)"
    by (rule run_all_ok [OF locked_inv [OF inv] rel0]) (simp add: pend)
  have mt: "mutexes m1 = locked e m p" using r(5) by (simp add: same_client_memory_def)
  have ent: "entered e m (p, S, cl, fr) m1"
    using r mt by (auto simp: entered_def same_links_def)
  then obtain m2 where w: "clear_children d e (pl_child (pools m p)) m1 = Some m2"
    "walk_effect (\<lambda>_. {}) m1 vs m2" "\<forall>v \<in> set vs. cleared e m2 v"
    using walk by blast
  have un: "untouched m1 (p, S, [], rev cl @ fr) m2" and inv2: "pool_inv e m2 p S [] (rev cl @ fr)"
    using left_children [OF ok rel ent w(2)] by simp_all
  have nd2: "nodes_inv e m2 p S" and bl2: "blocks_ok (blocks m2)" and pg: "page_ok e" and hm2: "home_ok e m2 p S"
    and lk2: "lock_ok e m2 p" and fr2: "cleanups_inv m2 p S [] (rev cl @ fr)"
    using inv2 by (simp_all add: pool_inv_def)
  note acc2 = pool_inv_accessible [OF inv2]
  let ?m3 = "reset_on (set (all_nodes S)) m2"
  let ?m' = "?m3\<lparr>mutexes := mutexes m\<rparr>"
  have accn: "\<forall>x \<in> set (all_nodes S). accessible e (blocks m2) x"
    using nodes_inv_slot [OF nd2] node_ok_accessible [OF bl2 pg] by blast
  have reset: "reset_slots e p 0 m2 = Some ?m3"
    using reset_slots_eq [OF le0 _ accn acc2] nd2 by (simp only: all_nodes_def nodes_inv_def) blast
  have p2: "pools m2 p = pools m1 p" using untouched_pools [OF un] by simp
  then have same: "pl_mutex (pools m2 p) = pl_mutex (pools m p)" "pl_child (pools m1 p) = pl_child (pools m p)"
    using r(8) by auto
  have "mutexes m2 = locked e m p" using w(2) mt by (simp add: walk_effect_def)
  then have ul: "pool_unlock e p ?m3 = Some ?m'"
    using lk2 same acc2 by (intro pool_unlock_ok [OF lk]) (simp_all add: lock_ok_def)
  have call: "clear_depth (Suc d) e p m = Some ?m'"
    using acc own lock r(1) pool_inv_accessible [OF r(2)] same w(1) reset ul by (simp add: load_pool_def)
  have "walk_effect (\<lambda>_. {}) m ((p, S, cl, fr) # vs) ?m'"
    using entered_others(4) [OF ok rel ent]
    by (intro visited_effect [OF ent w(2)]) (simp_all add: reset_on_def)
  moreover have "cleared e ?m' (p, S, cl, fr)"
    using reset_nodes_inv [OF nd2] hm2 fr2 p2 r(8)
    by (auto simp: cleared_def spr_frame cleanups_inv_def home_ok_def reset_on_def reset_node_def)
  moreover have "cleared e ?m' u" if "u \<in> set vs" for u
    using cleared_untouched [of e m2 u ?m'] w(3) that reset_untouched [OF ok that, of m2 "mutexes m"] by simp
  ultimately show ?thesis using call by auto
qed

interpretation clearing: tree_walk e "\<lambda>d a m. clear_depth d e a m" "\<lambda>d a m. clear_children d e a m"
  "\<lambda>_. {}" "cleared e" "\<lambda>_. True" for e
proof
  fix m p S cl fr vs d
  assume "views_ok e m ((p, S, cl, fr) # vs)" "releases_all m ((p, S, cl, fr) # vs)" "\<not> not_owner e (pools m p)"
    "\<forall>m1. entered e m (p, S, cl, fr) m1 \<longrightarrow> (\<exists>m2. clear_children d e (pl_child (pools m p)) m1 = Some m2 \<and>
      walk_effect (\<lambda>_. {}) m1 vs m2 \<and> (\<forall>v \<in> set vs. cleared e m2 v))"
  then show "\<exists>m'. clear_depth (Suc d) e p m = Some m' \<and> walk_effect (\<lambda>_. {}) m ((p, S, cl, fr) # vs) m' \<and>
      (\<forall>v \<in> set ((p, S, cl, fr) # vs). cleared e m' v)"
    by (rule clear_visit)
qed (simp_all add: cleared_untouched)

section \<open>Destroying a tree\<close>

text \<open>
  The loop over the slots reads the pool once per slot, so it reads released memory unless the pool
  lies in a node of the last slot (see \<open>destroy_uses_released_pool\<close> for what happens otherwise). Where
  released memory stays readable nothing is needed.
\<close>

definition in_last_slot :: "env \<Rightarrow> view \<Rightarrow> bool" where
  "in_last_slot e v \<longleftrightarrow> (case v of (p, S, cl, fr) \<Rightarrow>
     \<exists>h \<in> set (S (SPR_MAX_POOL_SLOT - 1)). in_range h (node_len e (SPR_MAX_POOL_SLOT - 1)) p)"

definition destroyable :: "env \<Rightarrow> view \<Rightarrow> bool" where
  "destroyable e v \<longleftrightarrow> (strict_mem e \<longrightarrow> in_last_slot e v)"

lemma pool_kept_to_last_slot:
  assumes inv: "pool_inv e m p S cl fr" and fit: "destroyable e (p, S, cl', fr')"
  shows "accessible e (blocks_without (set (concat (map S [0..<SPR_MAX_POOL_SLOT - 1]))) (blocks m)) p"
proof (cases "strict_mem e")
  case False
  then show ?thesis using accessible_nonnull [OF pool_inv_accessible [OF inv]] by (simp add: accessible_lenient)
next
  case True
  let ?l = "SPR_MAX_POOL_SLOT - 1"
  have nd: "nodes_inv e m p S" using inv by (simp add: pool_inv_def)
  obtain h where h: "h \<in> set (S ?l)" "in_range h (node_len e ?l) p"
    using fit True by (auto simp: destroyable_def in_last_slot_def)
  have "SPR_MAX_POOL_SLOT = Suc ?l" by (simp add: SPR_MAX_POOL_SLOT_def)
  then have l: "?l < SPR_MAX_POOL_SLOT" "[0..<SPR_MAX_POOL_SLOT] = [0..<?l] @ [?l]"
    using upt_Suc_append [of 0 ?l] by simp_all
  have "(h, node_len e ?l) \<in> set (blocks m)" using nd h(1) l(1) by (auto simp: nodes_inv_def node_ok_def)
  moreover have "distinct (concat (map S [0..<?l]) @ S ?l)" using nd l(2) by (simp add: nodes_inv_def all_nodes_def)
  then have "h \<notin> set (concat (map S [0..<?l]))" using h(1) by auto
  ultimately have "(h, node_len e ?l) \<in> set (blocks_without (set (concat (map S [0..<?l]))) (blocks m))"
    by (simp add: blocks_without_def)
  then show ?thesis using h(2) accessible_nonnull [OF pool_inv_accessible [OF inv]]
    by (force simp: accessible_def list_ex_iff)
qed

text \<open>A destroyed pool: no cleanup is registered and none of its nodes is live. The structure of the pool
  and its parent still name it.\<close>

definition destroyed :: "mem \<Rightarrow> view \<Rightarrow> bool" where
  "destroyed m v \<longleftrightarrow> (case v of (p, S, cl, fr) \<Rightarrow>
     pl_cleanups (pools m p) = NULL \<and> fst ` set (blocks m) \<inter> set (all_nodes S) = {})"

lemma destroyed_fewer:
  assumes "destroyed m v" "pools m' (fst v) = pools m (fst v)" "set (blocks m') \<subseteq> set (blocks m)"
  shows "destroyed m' v"
  using assms image_mono [OF assms(3), of fst] by (cases v) (auto simp: destroyed_def)

lemma destroyed_untouched: "destroyed m v \<Longrightarrow> untouched m v m' \<Longrightarrow> destroyed m' v"
  by (erule destroyed_fewer, erule untouched_pools) (cases v; auto simp: untouched_def blocks_without_def)

lemma destroy_visit:
  assumes ok: "views_ok e m ((p, S, cl, fr) # vs)" and rel: "releases_all m ((p, S, cl, fr) # vs)"
    and own: "\<not> not_owner e (pools m p)" and fit: "destroyable e (p, S, cl, fr)"
    and mutex: "mutex_apart e m (set (vnodes vs)) ((p, S, cl, fr) # vs)"
    and walk: "\<forall>m1. entered e m (p, S, cl, fr) m1 \<longrightarrow> (\<exists>m2. destroy_children d e (pl_child (pools m p)) m1 = Some m2 \<and>
      walk_effect (\<lambda>vs. set (vnodes vs)) m1 vs m2 \<and> (\<forall>v \<in> set vs. destroyed m2 v))"
  shows "\<exists>m'. destroy_depth (Suc d) e p m = Some m' \<and> walk_effect (\<lambda>vs. set (vnodes vs)) m ((p, S, cl, fr) # vs) m' \<and>
    (\<forall>v \<in> set ((p, S, cl, fr) # vs). destroyed m' v)"
proof -
  have inv: "pool_inv e m p S cl fr" using ok by (simp add: views_ok_def)
  note acc = pool_inv_accessible [OF inv]
  have rel1: "releases_ok m p S (frees (pending m cl))"
    using releases_all_appendD(1) [of m "[(p, S, cl, fr)]" vs] rel
    by (auto simp: releases_all_def releases_ok_def Let_def)
  obtain m1 where r: "spr_pool_cleanup_run_all e p m = Some m1"
    "pool_inv e m1 p S [] (rev cl @ fr)" "calls m1 = calls m @ pending m cl"
    "blocks m1 = blocks_without (set (frees (pending m cl))) (blocks m)"
    "same_client_memory m m1" "mnodes m1 = mnodes m" "\<forall>x. x \<notin> set cl \<longrightarrow> cnodes m1 x = cnodes m x"
    "\<exists>f. pools m1 = (pools m)(p := pools m p\<lparr>pl_free_cleanups := f, pl_cleanups := NULL\<rparr>)"
    by (rule run_all_ok [OF inv rel1])
  have mt: "mutexes m1 = mutexes m" using r(5) by (simp add: same_client_memory_def)
  have ent: "entered e m (p, S, cl, fr) m1"
    using r mt by (auto simp: entered_def same_links_def)
  then obtain m2 where w: "destroy_children d e (pl_child (pools m p)) m1 = Some m2"
    "walk_effect (\<lambda>vs. set (vnodes vs)) m1 vs m2" "\<forall>v \<in> set vs. destroyed m2 v"
    using walk by blast
  have inv2: "pool_inv e m2 p S [] (rev cl @ fr)"
    using left_children(2) [OF ok rel ent w(2)] mutex by simp
  have nd2: "nodes_inv e m2 p S" and bl2: "blocks_ok (blocks m2)" and pg: "page_ok e"
    using inv2 by (simp_all add: pool_inv_def)
  let ?m' = "m2\<lparr>blocks := blocks_without (set (all_nodes S)) (blocks m2)\<rparr>"
  have live: "live_node m2 x" if x: "x \<in> set (all_nodes S)" for x
  proof -
    obtain i where i: "i < SPR_MAX_POOL_SLOT" "node_ok e m2 i x" using nodes_inv_slot [OF nd2 x] by blast
    have "512 \<le> unat (node_len e i)" using node_len_pos [OF pg, of i] i(1) by (simp add: SPR_MAX_POOL_SLOT_def)
    then have "node_len e i \<noteq> 0" by auto
    then show ?thesis using i(2) accessible_nonnull [OF node_ok_accessible [OF bl2 pg i]]
      by (simp add: live_node_def node_ok_def)
  qed
  have kept: "accessible e (blocks_without (set (concat (map S [0..<SPR_MAX_POOL_SLOT - 1]))) (blocks m2)) p"
    by (rule pool_kept_to_last_slot [OF inv2 fit])
  have dealloc: "dealloc_slots e p 0 m2 = Some ?m'"
    unfolding all_nodes_def
  proof (rule dealloc_slots_eq [OF le0])
    show "\<forall>x \<in> set (concat (map S [0..<SPR_MAX_POOL_SLOT])). live_node m2 x" using live by (simp add: all_nodes_def)
  qed (use nd2 kept in \<open>simp_all add: nodes_inv_def all_nodes_def\<close>)
  have "pl_child (pools m1 p) = pl_child (pools m p)" using r(8) by auto
  then have call: "destroy_depth (Suc d) e p m = Some ?m'"
    using acc own r(1) pool_inv_accessible [OF r(2)] w(1) dealloc by (simp add: load_pool_def)
  have "mutexes m2 = mutexes m" using w(2) mt by (simp add: walk_effect_def)
  then have "walk_effect (\<lambda>vs. set (vnodes vs)) m ((p, S, cl, fr) # vs) ?m'"
    using entered_others(4) [OF ok rel ent]
    by (intro visited_effect [OF ent w(2)]) simp_all
  moreover have "pl_cleanups (pools m2 p) = NULL"
    using inv2 by (simp add: pool_inv_def cleanups_inv_def)
  then have "destroyed ?m' (p, S, cl, fr)" by (auto simp: destroyed_def blocks_without_def)
  moreover have "destroyed ?m' v" if "v \<in> set vs" for v
    using w(3) that by (auto intro: destroyed_fewer [of m2] simp: blocks_without_def)
  ultimately show ?thesis using call by auto
qed

interpretation destroying: tree_walk e "\<lambda>d a m. destroy_depth d e a m" "\<lambda>d a m. destroy_children d e a m"
  "\<lambda>vs. set (vnodes vs)" destroyed "destroyable e" for e
proof
  fix m p S cl fr vs d
  assume "views_ok e m ((p, S, cl, fr) # vs)" "releases_all m ((p, S, cl, fr) # vs)"
    "\<not> not_owner e (pools m p)" "destroyable e (p, S, cl, fr)"
    "mutex_apart e m (set (vnodes vs)) ((p, S, cl, fr) # vs)"
    "\<forall>m1. entered e m (p, S, cl, fr) m1 \<longrightarrow>
      (\<exists>m2. destroy_children d e (pl_child (pools m p)) m1 = Some m2 \<and>
        walk_effect (\<lambda>vs. set (vnodes vs)) m1 vs m2 \<and> (\<forall>v \<in> set vs. destroyed m2 v))"
  then show "\<exists>m'. destroy_depth (Suc d) e p m = Some m' \<and>
      walk_effect (\<lambda>vs. set (vnodes vs)) m ((p, S, cl, fr) # vs) m' \<and> (\<forall>v \<in> set ((p, S, cl, fr) # vs). destroyed m' v)"
    by (rule destroy_visit)
qed (simp_all add: destroyed_untouched)

end
