(* ===== verification/Spr_Pool_Create.thy ===== *)
theory Spr_Pool_Create
  imports Spr_Pool_Inv
begin

text \<open>
  Creating a pool: the memory \<open>spr_pool_create1\<close> leaves behind, and that it satisfies the
  invariant.
\<close>

section \<open>Creation establishes the invariant\<close>

text \<open>The requests for which \<^verbatim>\<open>spr_pool_create1\<close> stays inside the twenty slots.\<close>

definition create_request :: "env \<Rightarrow> size \<Rightarrow> bool" where
  "create_request e n \<longleftrightarrow> round_up (unat n) + unat (SPR_SIZEOF_MEMPOOL_T_ALIGN e) + 48
     < 20 * unat (spr_get_page_size e)"

definition mutex_part :: "env \<Rightarrow> addr \<Rightarrow> size" where
  "mutex_part e parent = (if thread_safety e \<and> parent = NULL then SPR_SIZEOF_MUTEX_T_ALIGN else 0)"

lemma create_request_facts:
  assumes "page_ok e" "create_request e n"
  defines "k \<equiv> spr_align_allocation n + SPR_SIZEOF_MEMPOOL_T_ALIGN e"
  shows "spr_align_allocation n \<noteq> 0"
    "unat k = round_up (unat n) + unat (SPR_SIZEOF_MEMPOOL_T_ALIGN e)"
    "unat k + 48 < 2 ^ 64"
    "unat (spr_get_npages e k - 1) < SPR_MAX_POOL_SLOT"
proof -
  let ?p = "unat (spr_get_page_size e)" and ?z = "unat (SPR_SIZEOF_MEMPOOL_T_ALIGN e)"
  have "?p \<le> 2 ^ 32" using assms(1) by (simp add: page_ok_def)
  then have b: "round_up (unat n) + ?z + 48 < 20 * 2 ^ 32"
    using assms(2) by (simp add: create_request_def)
  then have "small_request e n" using assms(2) by (simp add: small_request_def create_request_def)
  note s = small_request_facts [OF assms(1) this]
  show "spr_align_allocation n \<noteq> 0" by (rule s(4))
  show v: "unat k = round_up (unat n) + ?z"
    unfolding k_def using b s(1) by (subst unat_add_exact) simp_all
  show lim: "unat k + 48 < 2 ^ 64" using b v by simp
  have "unat (spr_get_npages e k) = (unat k + 48) div ?p + 1"
    using assms(1) lim by (intro unat_npages) (auto simp: page_ok_def)
  then have "unat (spr_get_npages e k - 1) = (unat k + 48) div ?p"
    by (subst unat_diff_exact) simp_all
  also have "\<dots> < 20"
    using assms(1,2) by (simp add: create_request_def v page_ok_def less_mult_imp_div_less)
  finally show "unat (spr_get_npages e k - 1) < SPR_MAX_POOL_SLOT"
    by (simp add: SPR_MAX_POOL_SLOT_def)
qed

text \<open>The node of a new pool as \<^verbatim>\<open>spr_pool_create1\<close> leaves it: the pool structure and, for
  a root pool, the mutex are carved out of it before anything is handed out.\<close>

definition home_node :: "env \<Rightarrow> addr \<Rightarrow> addr \<Rightarrow> size \<Rightarrow> memnode" where
  "home_node e parent a len =
     (let begin = a + 48 + SPR_SIZEOF_MEMPOOL_T_ALIGN e + mutex_part e parent;
          size = len - 48 - SPR_SIZEOF_MEMPOOL_T_ALIGN e - mutex_part e parent in
      \<lparr>mn_next = NULL, mn_begin = begin, mn_first_avail = begin,
       mn_size = size, mn_size_avail = size, mn_dealloc_size = len\<rparr>)"

lemma home_node_exact:
  fixes parent :: addr
  assumes "page_ok e" "i < SPR_MAX_POOL_SLOT" "blocks_ok ((a, node_len e i) # bs)"
  defines "z \<equiv> unat (SPR_SIZEOF_MEMPOOL_T_ALIGN e) + unat (mutex_part e parent)"
  shows "unat (mn_begin (home_node e parent a (node_len e i))) = unat a + 48 + z"
    "unat (mn_size (home_node e parent a (node_len e i))) = unat (node_len e i) - 48 - z"
    "48 + z \<le> unat (node_len e i)" "8 dvd z" "unat (a + 48) = unat a + 48"
proof -
  have len: "512 \<le> unat (node_len e i)"
    using node_len_pos [of e i] assms(1,2) by (simp add: SPR_MAX_POOL_SLOT_def)
  have blk: "unat a + unat (node_len e i) < 2 ^ 64" using assms(3) by simp
  have z: "z \<le> 256" "8 dvd z" unfolding z_def mutex_part_def size_constants by auto
  let ?z = "SPR_SIZEOF_MEMPOOL_T_ALIGN e + mutex_part e parent"
  have uz: "unat ?z = z"
    unfolding z_def by (subst unat_add_exact) (simp_all add: mutex_part_def size_constants)
  show a48: "unat (a + 48) = unat a + 48" using len blk by (subst unat_add_exact) auto
  have "unat (a + 48 + ?z) = unat a + 48 + z"
    using len blk z uz a48 by (subst unat_add_exact) simp_all
  then show "unat (mn_begin (home_node e parent a (node_len e i))) = unat a + 48 + z"
    by (simp add: home_node_def Let_def add.assoc)
  have "unat (node_len e i - 48) = unat (node_len e i) - 48"
    using len by (subst unat_diff_exact) auto
  then have "unat (node_len e i - 48 - ?z) = unat (node_len e i) - 48 - z"
    using len z uz by (subst unat_diff_exact) simp_all
  then show "unat (mn_size (home_node e parent a (node_len e i))) = unat (node_len e i) - 48 - z"
    by (simp add: home_node_def Let_def diff_diff_eq add.assoc)
  show "48 + z \<le> unat (node_len e i)" using len z by simp
  show "8 dvd z" by (rule z(2))
qed

definition pth_ok :: "env \<Rightarrow> bool" where
  "pth_ok e \<longleftrightarrow> (\<forall>call. pth_rc e call = 0)"

definition new_pool :: "env \<Rightarrow> nat \<Rightarrow> addr \<Rightarrow> addr \<Rightarrow> pool" where
  "new_pool e i node mutex = zero_pool\<lparr>pl_nodes := (\<lambda>_. NULL)(i := node),
     pl_mutex := (if thread_safety e then mutex else NULL),
     pl_owner := (if thread_safety e then current_thread e else 0)\<rparr>"

text \<open>The memory after the creation of a root pool.\<close>

definition root_created :: "env \<Rightarrow> addr \<Rightarrow> nat \<Rightarrow> size \<Rightarrow> mem \<Rightarrow> mem" where
  "root_created e a i c m =
     (let len = node_len e i; pool = a + 48; mutex = pool + SPR_SIZEOF_MEMPOOL_T_ALIGN e;
          m1 = m\<lparr>blocks := (a, len) # blocks m, memory_counter := c,
                 mnodes := (mnodes m)(a := fresh_memnode a len)\<rparr> in
      (spr_memzero pool (sizeof_pool e) m1)\<lparr>
        mnodes := (mnodes (spr_memzero pool (sizeof_pool e) m1))(a := home_node e NULL a len),
        pools := (pools (spr_memzero pool (sizeof_pool e) m1))(pool := new_pool e i a mutex),
        mutexes := (if thread_safety e then (mutexes (spr_memzero pool (sizeof_pool e) m1))
          (mutex := \<lparr>mx_recursive = True, mx_shared = True, mx_owner = None, mx_count = 0\<rparr>)
          else mutexes (spr_memzero pool (sizeof_pool e) m1))\<rparr>)"

lemma memzero_simps [simp]:
  "blocks (spr_memzero a n m) = blocks m" "errno (spr_memzero a n m) = errno m"
  "memory_counter (spr_memzero a n m) = memory_counter m"
  "calls (spr_memzero a n m) = calls m"
  by (simp_all add: spr_memzero_def)

lemma memzero_outside:
  "\<not> in_range a n x \<Longrightarrow> mnodes (spr_memzero a n m) x = mnodes m x"
  "\<not> in_range a n x \<Longrightarrow> mutexes (spr_memzero a n m) x = mutexes m x"
  "\<not> in_range a n x \<Longrightarrow> pools (spr_memzero a n m) x = pools m x"
  "\<not> in_range a n x \<Longrightarrow> cnodes (spr_memzero a n m) x = cnodes m x"
  by (simp_all add: spr_memzero_def)

lemma memzero_inside:
  "in_range a n x \<Longrightarrow> pools (spr_memzero a n m) x = zero_pool"
  "in_range a n x \<Longrightarrow> lists (spr_memzero a n m) x = zero_slist"
  "in_range a n x \<Longrightarrow> arrays (spr_memzero a n m) x = zero_sarray"
  by (simp_all add: spr_memzero_def)

lemmas create1_defs = spr_pool_create1_def Let_def load_node_def upd_node_def create_mutex_def
  set_slot_def upd_pool_def spr_mutex_init_def pth_ok_def attr_pshared_def attr_settype_def
  mutex_params spr_bit_is_set_def default_attr_def root_created_def fresh_memnode_def
  home_node_def mutex_part_def new_pool_def

lemma create_root_eq:
  assumes pg: "page_ok e" and pth: "pth_ok e" and n: "create_request e n"
    and i: "i = unat (spr_get_npages e (spr_align_allocation n + SPR_SIZEOF_MEMPOOL_T_ALIGN e) - 1)"
    and alloc: "spr_memnode_allocate e (node_len e i) m = Some (a, m\<lparr>blocks := (a, node_len e i) # blocks m,
       memory_counter := c, mnodes := (mnodes m)(a := fresh_memnode a (node_len e i))\<rparr>)"
    and ok: "blocks_ok ((a, node_len e i) # blocks m)"
  shows "spr_pool_create1 e n NULL m = Some (Inr (a + 48), root_created e a i c m)"
proof -
  note k = create_request_facts [OF pg n]
  have i20: "i < SPR_MAX_POOL_SLOT" unfolding i by (rule k(4))
  have np: "spr_get_npages e (spr_align_allocation n + SPR_SIZEOF_MEMPOOL_T_ALIGN e)
      * spr_get_page_size e = node_len e i"
    unfolding i by (rule npages_node_len [OF pg k(3,4)])
  have h: "48 + (unat (SPR_SIZEOF_MEMPOOL_T_ALIGN e) + unat (mutex_part e NULL)) \<le> unat (node_len e i)"
    "unat (a + 48) = unat a + 48"
    using home_node_exact [OF pg i20 ok] by auto
  have blk: "unat a + unat (node_len e i) < 2 ^ 64" and a: "a \<noteq> NULL" using ok by simp_all
  let ?bs = "(a, node_len e i) # blocks m"
  have acc: "accessible e ?bs a" "accessible e ?bs (a + 48)"
    using h by (auto intro!: block_accessible [OF ok] simp: size_constants(2) split: if_splits)
  have um: "unat (a + 48 + SPR_SIZEOF_MEMPOOL_T_ALIGN e)
      = unat a + 48 + unat (SPR_SIZEOF_MEMPOOL_T_ALIGN e)"
    using h blk by (subst unat_add_exact) auto
  have accm: "accessible e ?bs (a + 48 + SPR_SIZEOF_MEMPOOL_T_ALIGN e)" if "thread_safety e"
    using that h um by (intro block_accessible [OF ok]) (auto simp: mutex_part_def size_constants(3))
  have notin: "\<not> in_range (a + 48) (sizeof_pool e) a" using h by (simp add: in_range_def)
  have inr: "in_range (a + 48) (sizeof_pool e) (a + 48)"
    by (simp add: in_range_def sizeof_pool_def)
  note facts = k(1) i20 a alloc np acc accm notin inr pth
  show ?thesis
  proof (cases "thread_safety e")
    case True
    show ?thesis
      by (insert facts True, simp add: create1_defs i [symmetric] not_less less_imp_le memzero_outside
        memzero_inside, rule mem.equality, simp_all, simp_all add: zero_pool_def)
  next
    case False
    show ?thesis
      by (insert facts False, simp add: create1_defs i [symmetric] not_less less_imp_le memzero_outside
        memzero_inside, rule mem.equality, simp_all, simp_all add: zero_pool_def)
  qed
qed

lemma create_root_cases:
  assumes pg: "page_ok e" and al: "alloc_ok e" and bl: "blocks_ok (blocks m)"
    and pth: "pth_ok e" and n: "create_request e n"
    and i: "i = unat (spr_get_npages e (spr_align_allocation n + SPR_SIZEOF_MEMPOOL_T_ALIGN e) - 1)"
  obtains (fail) "spr_pool_create1 e n NULL m = Some (Inl ENOMEM, m\<lparr>errno := ENOMEM\<rparr>)"
      "sys_alloc e (blocks m) (node_len e i) = NULL"
  | (ok) a c where "spr_pool_create1 e n NULL m = Some (Inr (a + 48), root_created e a i c m)"
      "blocks_ok ((a, node_len e i) # blocks m)" "sys_alloc e (blocks m) (node_len e i) \<noteq> NULL"
proof -
  note k = create_request_facts [OF pg n]
  have np: "spr_get_npages e (spr_align_allocation n + SPR_SIZEOF_MEMPOOL_T_ALIGN e)
      * spr_get_page_size e = node_len e i"
    unfolding i by (rule npages_node_len [OF pg k(3,4)])
  have len: "512 \<le> unat (node_len e i)"
    using node_len_pos [of e i] pg k(4) by (simp add: i SPR_MAX_POOL_SLOT_def)
  from al bl len show thesis
  proof (cases rule: memnode_allocate_cases)
    case fail
    then show thesis
      using k(1,4) np by (intro that(1)) (simp_all add: spr_pool_create1_def Let_def not_less less_imp_le)
  next
    case (new a c)
    show thesis by (rule that(2) [OF create_root_eq [OF pg pth n i new(3,2)] new(2,4)])
  qed
qed

lemma distinct_singleton: "distinct xs \<Longrightarrow> set xs = {a} \<Longrightarrow> xs = [a]"
  by (cases xs; cases "tl xs") auto

text \<open>A pool structure with one node, as both kinds of creation leave it, satisfies the invariant.\<close>

lemma new_pool_inv:
  assumes pg: "page_ok e" and al: "alloc_ok e" and i: "i < SPR_MAX_POOL_SLOT"
    and bl: "blocks_ok ((a, node_len e i) # bs)" and m: "blocks m = (a, node_len e i) # bs"
      "mnodes m a = home_node e parent a (node_len e i)" "pl_nodes (pools m (a + 48)) = (\<lambda>_. NULL)(i := a)"
      "pl_cleanups (pools m (a + 48)) = NULL" "pl_free_cleanups (pools m (a + 48)) = NULL"
    and lk: "lock_ok e m (a + 48)"
  shows "pool_inv e m (a + 48) ((\<lambda>_. [])(i := [a])) [] []" "used_by m ((\<lambda>_. [])(i := [a])) = {}"
proof -
  let ?S = "(\<lambda>_. [])(i := [a])"
  note h = home_node_exact(1-4) [OF pg i bl, where parent = parent] home_node_exact(5) [OF pg i bl]
  have empty: "all_nodes (\<lambda>_. []) = []" by (auto simp: all_nodes_def)
  have nodes: "all_nodes ?S = [a]"
    using distinct_add_node [of "\<lambda>_. []" a i] i unfolding empty
    by (intro distinct_singleton) auto
  have a: "a \<noteq> NULL" "16 dvd unat a" "unat a + unat (node_len e i) < 2 ^ 64" using bl by auto
  then have "8 dvd unat a" by presburger
  then have nok: "node_ok e m i a"
    unfolding node_ok_def m using h by (auto simp: home_node_def Let_def)
  have "nodes_inv e m (a + 48) ?S"
    using nok a(1) by (auto simp: nodes_inv_def nodes m home_node_def Let_def)
  moreover have "home_ok e m (a + 48) ?S"
    using h by (auto simp: home_ok_def nodes m sizeof_pool_def size_constants)
  moreover have "cleanups_inv m (a + 48) ?S [] []" by (simp add: cleanups_inv_def m)
  ultimately show "pool_inv e m (a + 48) ?S [] []"
    using pg al bl lk by (simp add: pool_inv_def m)
  show "used_by m ?S = {}"
    by (simp add: used_by_def nodes handed_out_def m home_node_def Let_def)
qed

text \<open>Where the pool structure and the mutex lie.\<close>

lemma root_created_places:
  fixes c :: size
  assumes pg: "page_ok e" and i: "i < SPR_MAX_POOL_SLOT" and bl: "blocks_ok ((a, node_len e i) # blocks m)"
  defines "m' \<equiv> root_created e a i c m"
  shows "unat (a + 48) + unat (sizeof_pool e) \<le> unat (mn_begin (mnodes m' a))"
    "thread_safety e \<Longrightarrow> unat (a + 48) + unat (sizeof_pool e) \<le> unat (pl_mutex (pools m' (a + 48)))"
    "thread_safety e \<Longrightarrow> unat (pl_mutex (pools m' (a + 48))) + 40 \<le> unat (mn_begin (mnodes m' a))"
proof -
  note h = home_node_exact(1,3) [OF pg i bl, where parent = NULL] home_node_exact(5) [OF pg i bl]
  have m: "mnodes m' a = home_node e NULL a (node_len e i)"
    "pools m' (a + 48) = new_pool e i a (a + 48 + SPR_SIZEOF_MEMPOOL_T_ALIGN e)"
    by (simp_all add: m'_def root_created_def Let_def)
  have mutex: "unat (a + 48 + SPR_SIZEOF_MEMPOOL_T_ALIGN e) = unat a + 48 + unat (SPR_SIZEOF_MEMPOOL_T_ALIGN e)"
    if "thread_safety e"
    using h(2,3) bl that by (subst unat_add_exact) (auto simp: mutex_part_def size_constants)
  show "unat (a + 48) + unat (sizeof_pool e) \<le> unat (mn_begin (mnodes m' a))"
    using h by (simp add: m mutex_part_def size_constants sizeof_pool_def)
  show "unat (a + 48) + unat (sizeof_pool e) \<le> unat (pl_mutex (pools m' (a + 48)))" if "thread_safety e"
    using that mutex h(3) by (simp add: m new_pool_def size_constants sizeof_pool_def)
  show "unat (pl_mutex (pools m' (a + 48))) + 40 \<le> unat (mn_begin (mnodes m' a))" if "thread_safety e"
    using that mutex h by (simp add: m new_pool_def mutex_part_def size_constants)
qed

lemma root_created_inv:
  assumes pg: "page_ok e" and al: "alloc_ok e" and i: "i < SPR_MAX_POOL_SLOT"
    and bl: "blocks_ok ((a, node_len e i) # blocks m)"
  shows "pool_inv e (root_created e a i c m) (a + 48) ((\<lambda>_. [])(i := [a])) [] []"
    "used_by (root_created e a i c m) ((\<lambda>_. [])(i := [a])) = {}"
proof -
  let ?m = "root_created e a i c m"
  note h = home_node_exact(1-4) [OF pg i bl, where parent = NULL] home_node_exact(5) [OF pg i bl]
  have m: "blocks ?m = (a, node_len e i) # blocks m" "mnodes ?m a = home_node e NULL a (node_len e i)"
    "pools ?m (a + 48) = new_pool e i a (a + 48 + SPR_SIZEOF_MEMPOOL_T_ALIGN e)"
    by (simp_all add: root_created_def Let_def)
  have "accessible e (blocks ?m) (a + 48 + SPR_SIZEOF_MEMPOOL_T_ALIGN e)" if "thread_safety e"
  proof -
    have "48 + (unat (SPR_SIZEOF_MEMPOOL_T_ALIGN e) + 40) \<le> unat (node_len e i)"
      using h(3) that by (simp add: mutex_part_def size_constants)
    moreover from this have "unat (a + 48 + SPR_SIZEOF_MEMPOOL_T_ALIGN e)
        = unat a + 48 + unat (SPR_SIZEOF_MEMPOOL_T_ALIGN e)"
      using h(5) bl by (subst unat_add_exact) auto
    ultimately show ?thesis using bl unfolding m by (intro block_accessible) auto
  qed
  then have "lock_ok e ?m (a + 48)"
    by (simp add: lock_ok_def m(3) new_pool_def) (simp add: root_created_def Let_def)
  then show "pool_inv e ?m (a + 48) ((\<lambda>_. [])(i := [a])) [] []" "used_by ?m ((\<lambda>_. [])(i := [a])) = {}"
    using new_pool_inv [OF pg al i bl m(1,2)] by (simp_all add: m(3) new_pool_def zero_pool_def)
qed

end
