(* ===== verification/Spr_Instance.thy ===== *)
theory Spr_Instance
  imports Spr_Pool_Create Spr_Pool_Clear
begin

text \<open>
  A concrete environment that meets the hypotheses of the development: a system allocator
  that places every block after the live ones, a page of 4096 bytes, and POSIX calls that
  succeed. The witnesses run the operations in it from the empty memory.
\<close>

fun top_of :: "(addr \<times> size) list \<Rightarrow> nat" where
  "top_of [] = 4096"
| "top_of ((a, n) # bs) = max (unat a + unat n) (top_of bs)"

definition bump_alloc :: "(addr \<times> size) list \<Rightarrow> size \<Rightarrow> addr" where
  "bump_alloc bs n =
     (let t = (top_of bs + 15) div 16 * 16 in
      if t + unat n < 2 ^ 40 then of_nat t else NULL)"

definition sample_env :: env where
  "sample_env = \<lparr>sc_pagesize = Some 4096, thread_safety = True, uses_mmap = False,
     strict_mem = True, sys_alloc = bump_alloc, current_thread = 7, pth_rc = (\<lambda>_. 0)\<rparr>"

definition empty_mem :: mem where
  "empty_mem = \<lparr>blocks = [], memory_counter = 0, errno = 0, bytes = (\<lambda>_. 0),
     mnodes = (\<lambda>_. zero_memnode), pools = (\<lambda>_. zero_pool), cnodes = (\<lambda>_. zero_cleanup_node),
     mutexes = (\<lambda>_. zero_mutex), lists = (\<lambda>_. zero_slist), lnodes = (\<lambda>_. zero_list_node),
     arrays = (\<lambda>_. zero_sarray), calls = []\<rparr>"

lemma top_of_ge: "(b, k) \<in> set bs \<Longrightarrow> unat b + unat k \<le> top_of bs"
  by (induction bs rule: top_of.induct) auto

lemma top_of_pos: "4096 \<le> top_of bs"
  by (induction bs rule: top_of.induct) auto

lemma bump_alloc_ok:
  assumes "blocks_ok bs" "n \<noteq> 0" "bump_alloc bs n \<noteq> NULL"
  shows "blocks_ok ((bump_alloc bs n, n) # bs)"
proof -
  let ?t = "(top_of bs + 15) div 16 * 16"
  have t: "?t + unat n < 2 ^ 40" "bump_alloc bs n = of_nat ?t"
    using assms(3) by (auto simp: bump_alloc_def Let_def split: if_splits)
  have "?t < 2 ^ 40" using t(1) by linarith
  also have "(2::nat) ^ 40 \<le> 2 ^ LENGTH(64)" by simp
  finally have u: "unat (bump_alloc bs n) = ?t" unfolding t(2) by (rule unat_of_nat_exact)
  have ge: "top_of bs \<le> ?t" by presburger
  have "apart (bump_alloc bs n, n) b" if "b \<in> set bs" for b
    using top_of_ge [of "fst b" "snd b" bs] that ge by (cases b) (simp add: u)
  then show ?thesis
    using assms t(1) by (auto simp: u list_all_iff)
qed

lemma sample_env_ok: "alloc_ok sample_env" "page_ok sample_env" "pth_ok sample_env"
  by (auto simp: alloc_ok_def page_ok_def pth_ok_def sample_env_def spr_get_page_size_def
    simp del: blocks_ok.simps intro: bump_alloc_ok)

lemma empty_mem_ok: "blocks_ok (blocks empty_mem)"
  by (simp add: empty_mem_def)

text \<open>The memory and the pool after creating a root pool of 1000 bytes.\<close>

definition sample_pool :: addr where "sample_pool = 4144"

definition sample_mem :: mem where
  "sample_mem = root_created sample_env 4096 0 4096 empty_mem"

definition sample_slots :: slots where "sample_slots = (\<lambda>_. [])(0 := [4096])"

lemma sample_len: "node_len sample_env 0 = 4096"
  by (simp add: node_len_def spr_get_page_size_def sample_env_def)

lemma sample_inv: "pool_inv sample_env sample_mem sample_pool sample_slots [] []"
  "used_by sample_mem sample_slots = {}"
proof -
  have b: "blocks_ok ((4096, node_len sample_env 0) # blocks empty_mem)"
    by (simp add: sample_len empty_mem_def)
  show "pool_inv sample_env sample_mem sample_pool sample_slots [] []"
    "used_by sample_mem sample_slots = {}"
    using root_created_inv [OF sample_env_ok(2,1) _ b, of 4096]
    by (simp_all add: sample_mem_def sample_pool_def sample_slots_def SPR_MAX_POOL_SLOT_def)
qed

lemma sample_created: "spr_pool_create sample_env 1000 NULL empty_mem = Some (sample_pool, sample_mem)"
proof -
  have "spr_memnode_allocate sample_env 4096 empty_mem = Some (4096,
      empty_mem\<lparr>blocks := (4096, 4096) # blocks empty_mem, memory_counter := 4096,
        mnodes := (mnodes empty_mem)(4096 := fresh_memnode 4096 4096)\<rparr>)"
    by (simp add: spr_memnode_allocate_def spr_malloc_def sample_env_def bump_alloc_def
      empty_mem_def upd_node_def accessible_def in_range_def size_constants fresh_memnode_def)
  moreover have "create_request sample_env 1000"
    by (simp add: create_request_def round_up_def sample_env_def spr_get_page_size_def
      size_constants)
  moreover have "0 = unat (spr_get_npages sample_env (spr_align_allocation 1000 +
      SPR_SIZEOF_MEMPOOL_T_ALIGN sample_env) - 1)"
    by code_simp
  moreover have "blocks_ok ((4096, node_len sample_env 0) # blocks empty_mem)"
    by (simp add: sample_len empty_mem_def)
  ultimately have "spr_pool_create1 sample_env 1000 NULL empty_mem = Some (Inr (4096 + 48), sample_mem)"
    unfolding sample_mem_def
    by (intro create_root_eq [OF sample_env_ok(2,3)]) (simp_all only: sample_len)
  then show ?thesis by (simp add: spr_pool_create_def sample_pool_def)
qed

lemma sample_fields:
  "blocks sample_mem = [(4096, 4096)]"
  "mnodes sample_mem 4096 = \<lparr>mn_next = NULL, mn_begin = 4400, mn_first_avail = 4400,
     mn_size = 3792, mn_size_avail = 3792, mn_dealloc_size = 4096\<rparr>"
  "pools sample_mem sample_pool = zero_pool\<lparr>pl_nodes := (\<lambda>_. NULL)(0 := 4096),
     pl_mutex := 4360, pl_owner := 7\<rparr>"
  "mutexes sample_mem 4360 = \<lparr>mx_recursive = True, mx_shared = True, mx_owner = None, mx_count = 0\<rparr>"
  "calls sample_mem = []" "errno sample_mem = 0"
  by (simp_all add: sample_mem_def root_created_def sample_pool_def Let_def home_node_def
    mutex_part_def sample_env_def size_constants new_pool_def node_len_def spr_get_page_size_def
    empty_mem_def)

lemma sample_access: "accessible sample_env bs a \<longleftrightarrow> a \<noteq> NULL \<and> list_ex (\<lambda>(b, n). in_range b n a) bs"
  by (simp add: accessible_def sample_env_def)

lemma sample_env_fields [simp]:
  "thread_safety sample_env" "\<not> uses_mmap sample_env" "strict_mem sample_env"
  "current_thread sample_env = 7" "spr_get_page_size sample_env = 4096"
  "sys_alloc sample_env = bump_alloc" "pth_rc sample_env c = 0"
  by (simp_all add: sample_env_def spr_get_page_size_def)

lemma sample_small: "small_request sample_env n \<longleftrightarrow> round_up (unat n) + 48 < 81920"
  by (simp add: small_request_def)

definition sample_mem1 :: mem where
  "sample_mem1 = sample_mem\<lparr>mnodes := (mnodes sample_mem)(4096 := taken (mnodes sample_mem 4096) 24)\<rparr>"

lemma sample_palloc: "palloc_depth (Suc d) sample_env sample_pool 24 sample_mem = Some (4400, sample_mem1)"
proof -
  have al: "spr_align_allocation 24 = 24" "spr_get_npages sample_env 24 = 1"
    by (simp_all add: spr_align_allocation_def spr_align_default_def spr_align_def SPR_ALIGN_SIZE_def
      size_constants spr_get_npages_def)
  have lk: "lock_ok sample_env sample_mem sample_pool" using sample_inv by (simp add: pool_inv_def)
  have acc: "accessible sample_env [(4096, 4096)] 4144" "accessible sample_env [(4096, 4096)] 4096"
    "accessible sample_env [(4096, 4096)] 4360"
    by (simp_all add: sample_access in_range_def)
  let ?m = "sample_mem\<lparr>mutexes := locked sample_env sample_mem sample_pool\<rparr>"
  have lock: "pool_lock sample_env sample_pool sample_mem = Some ?m"
    using acc by (intro pool_lock_ok [OF lk]) (simp add: sample_fields sample_pool_def)
  have fs: "find_slot sample_env sample_pool 0 24 ?m = Some 4096"
    using acc by (subst find_slot.simps) (simp add: get_slot_def load_pool_def sample_fields
      sample_pool_def SPR_MAX_POOL_SLOT_def find_node.simps load_node_def sample_fields [unfolded sample_pool_def])
  have pn: "palloc_from_nodes sample_env sample_pool 24 1 ?m
      = Some (4400, sample_mem1\<lparr>mutexes := locked sample_env sample_mem sample_pool\<rparr>)"
    using acc fs by (simp add: palloc_from_nodes_def take_from_node_eq sample_fields sample_mem1_def)
  have "pool_unlock sample_env sample_pool (sample_mem1\<lparr>mutexes := locked sample_env sample_mem sample_pool\<rparr>)
      = Some (sample_mem1\<lparr>mutexes := locked sample_env sample_mem sample_pool\<rparr>\<lparr>mutexes := mutexes sample_mem\<rparr>)"
    using acc by (intro pool_unlock_ok [OF lk]) (simp_all add: sample_mem1_def sample_fields sample_pool_def
      sample_fields [unfolded sample_pool_def])
  then have "pool_unlock sample_env sample_pool (sample_mem1\<lparr>mutexes := locked sample_env sample_mem sample_pool\<rparr>)
      = Some sample_mem1" by (simp add: sample_mem1_def)
  then show ?thesis using lock pn by (simp add: palloc_depth.simps al Let_def)
qed
text \<open>The sample pool with one client cleanup registered: function 1, called on address 77.\<close>

definition sample_mem2 :: mem where
  "sample_mem2 = register sample_pool 4400 77 (H_user 1) sample_mem1"

lemma sample_inv1: "pool_inv sample_env sample_mem1 sample_pool sample_slots [] []"
  "used_by sample_mem1 sample_slots = {4400..<4424}"
proof -
  have nodes: "set (all_nodes sample_slots) = {4096}"
    by (auto simp: set_all_nodes sample_slots_def SPR_MAX_POOL_SLOT_def)
  have "hands_out sample_env sample_pool 24 sample_mem sample_slots
      (mn_first_avail (mnodes sample_mem 4096)) sample_mem1 sample_slots"
    using sample_inv(1) unfolding pool_inv_def
    by (intro take_hands_out) (auto simp: nodes sample_fields sample_mem1_def)
  then have h: "hands_out sample_env sample_pool 24 sample_mem sample_slots 4400 sample_mem1 sample_slots"
    by (simp add: sample_fields)
  show "pool_inv sample_env sample_mem1 sample_pool sample_slots [] []"
    by (rule hands_out_inv [OF sample_inv(1) h])
  show "used_by sample_mem1 sample_slots = {4400..<4424}"
    using h sample_inv(2) by (simp add: hands_out_def)
qed

lemma sample_inv2: "pool_inv sample_env sample_mem2 sample_pool sample_slots [4400] []"
  unfolding sample_mem2_def
  by (rule register_inv [OF sample_inv1(1)]) (simp_all add: sample_inv1(2))

lemma sample_pending: "pending sample_mem2 [4400] = [(H_user 1, 77)]"
  "frees (pending sample_mem2 [4400]) = []" "releases_ok sample_mem2 sample_pool sample_slots []"
  by (simp_all add: pending_def sample_mem2_def register_def releases_ok_def frees_ready_def)

lemma sample_fields2:
  "pl_child (pools sample_mem2 sample_pool) = NULL" "pl_owner (pools sample_mem2 sample_pool) = 7"
  "blocks sample_mem2 = [(4096, 4096)]" "calls sample_mem2 = []"
  by (simp_all add: sample_mem2_def register_def sample_mem1_def sample_fields zero_pool_def)

text \<open>The lenient environment: the same, without the check of live blocks.\<close>

definition lenient_env :: env where "lenient_env = sample_env\<lparr>strict_mem := False\<rparr>"
lemma lenient_env_fields [simp]: "thread_safety lenient_env" "\<not> strict_mem lenient_env"
  "current_thread lenient_env = 7" "spr_get_page_size lenient_env = 4096"
  by (simp_all add: lenient_env_def sample_env_def spr_get_page_size_def)

end
