(* ===== verification/Spr_Pool_Child.thy ===== *)
theory Spr_Pool_Child
  imports Spr_Pool_Tree Spr_Instance "HOL-Library.Multiset"
begin

text \<open>
  Creating, clearing and destroying pools that have children: the creation of a child keeps the
  invariant of the tree, and the walks over the tree have their effect on every pool of it.
\<close>

section \<open>Creating a child\<close>

text \<open>The memory after the creation of a child: its node holds only the pool structure, it shares its
  parent's mutex, and it is the first of its parent's children.\<close>

definition child_created :: "env \<Rightarrow> addr \<Rightarrow> addr \<Rightarrow> nat \<Rightarrow> size \<Rightarrow> mem \<Rightarrow> mem" where
  "child_created e parent a i c m =
     (let len = node_len e i; pool = a + 48;
          z = spr_memzero pool (sizeof_pool e) (m\<lparr>blocks := (a, len) # blocks m, memory_counter := c,
            mnodes := (mnodes m)(a := fresh_memnode a len)\<rparr>) in
      z\<lparr>mnodes := (mnodes z)(a := home_node e parent a len),
        pools := (pools z)(pool := (new_pool e i a (pl_mutex (pools m parent)))
            \<lparr>pl_parent := parent, pl_brother := pl_child (pools m parent)\<rparr>,
          parent := pools m parent\<lparr>pl_child := pool\<rparr>)\<rparr>)"

text \<open>An address in one block is not in another.\<close>

lemma not_in_new_block:
  assumes "blocks_ok (b # bs)" "(c, k) \<in> set bs" "unat c \<le> unat x" "unat x < unat c + unat k"
  shows "\<not> in_range (fst b) (snd b) x"
proof -
  have "apart b (c, k)" using assms(1,2) by (auto simp: list_all_iff)
  then show ?thesis using assms(3,4) by (cases b) (auto simp: in_range_def)
qed

lemma create_child_eq:
  assumes pg: "page_ok e" and n: "create_request e n"
    and i: "i = unat (spr_get_npages e (spr_align_allocation n + SPR_SIZEOF_MEMPOOL_T_ALIGN e) - 1)"
    and alloc: "spr_memnode_allocate e (node_len e i) m = Some (a, m\<lparr>blocks := (a, node_len e i) # blocks m,
       memory_counter := c, mnodes := (mnodes m)(a := fresh_memnode a (node_len e i))\<rparr>)"
    and ok: "blocks_ok ((a, node_len e i) # blocks m)"
    and p: "accessible e (blocks m) parent" "\<not> in_range a (node_len e i) parent"
  shows "spr_pool_create1 e n parent m = Some (Inr (a + 48), child_created e parent a i c m)"
proof -
  note k = create_request_facts [OF pg n]
  have i20: "i < SPR_MAX_POOL_SLOT" unfolding i by (rule k(4))
  have np: "spr_get_npages e (spr_align_allocation n + SPR_SIZEOF_MEMPOOL_T_ALIGN e)
      * spr_get_page_size e = node_len e i"
    unfolding i by (rule npages_node_len [OF pg k(3,4)])
  have nz: "parent \<noteq> NULL" using p(1) by (rule accessible_nonnull)
  have h: "48 + (unat (SPR_SIZEOF_MEMPOOL_T_ALIGN e) + unat (mutex_part e parent)) \<le> unat (node_len e i)"
    "unat (a + 48) = unat a + 48"
    using home_node_exact [OF pg i20 ok] by auto
  have sz: "unat (sizeof_pool e) = unat (SPR_SIZEOF_MEMPOOL_T_ALIGN e)" "0 < unat (sizeof_pool e)"
    by (simp_all add: sizeof_pool_def size_constants)
  have a: "a \<noteq> NULL" using ok by simp
  let ?bs = "(a, node_len e i) # blocks m"
  have acc: "accessible e ?bs a" "accessible e ?bs (a + 48)"
    using h sz by (auto intro!: block_accessible [OF ok])
  have accp: "accessible e ?bs parent" by (rule accessible_Cons [OF p(1)])
  have inr: "in_range (a + 48) (sizeof_pool e) (a + 48)" using sz(2) by (simp add: in_range_def)
  have notin: "\<not> in_range (a + 48) (sizeof_pool e) a" using h by (simp add: in_range_def)
  have notp: "\<not> in_range (a + 48) (sizeof_pool e) parent" "parent \<noteq> a + 48"
    using p(2) h sz by (auto simp: in_range_def)
  note facts = k(1) i20 a alloc np acc accp notin notp inr nz
  show ?thesis
    by (cases "thread_safety e"; cases "pl_child (pools m parent) = NULL"; insert facts;
      simp add: create1_defs child_created_def spr_pool_add_child_def load_pool_def i [symmetric]
        not_less less_imp_le memzero_outside memzero_inside;
      rule mem.equality; simp add: zero_pool_def fun_upd_twist)
qed

section \<open>Creation keeps the tree\<close>

text \<open>What lies in the live blocks is outside the new one, so the pools of the tree do not notice it.\<close>

lemma outside_new_block:
  assumes inv: "pool_inv e m q T dl gr" and st: "strict_mem e" and ok: "blocks_ok ((a, len) # blocks m)"
  shows "\<not> in_range a len q" "h \<in> set (all_nodes T) \<Longrightarrow> \<not> in_range a len h"
    "c \<in> set (dl @ gr) \<Longrightarrow> \<not> in_range a len c"
    "thread_safety e \<Longrightarrow> \<not> in_range a len (pl_mutex (pools m q))"
proof -
  have nd: "nodes_inv e m q T" and bl: "blocks_ok (blocks m)" and hm: "home_ok e m q T"
    and lk: "lock_ok e m q" and cl: "cleanups_inv m q T dl gr" using inv by (simp_all add: pool_inv_def)
  note out = not_in_new_block [OF ok, unfolded fst_conv snd_conv]
  show "\<not> in_range a len h" if h: "h \<in> set (all_nodes T)" for h
  proof -
    obtain n where n: "(h, n) \<in> set (blocks m)" by (rule node_block [OF nd h])
    then have "0 < unat n" using blocks_okD [OF bl n] by (simp add: unat_gt_0)
    then show ?thesis by (intro out [OF n]) simp_all
  qed
  have inside: "\<not> in_range a len x" if h: "h \<in> set (all_nodes T)" "unat h \<le> unat x"
    "unat x < unat (mn_first_avail (mnodes m h))" for h x
  proof -
    obtain n where n: "(h, n) \<in> set (blocks m)" "unat (mn_first_avail (mnodes m h)) \<le> unat h + unat n"
      by (rule node_block [OF nd h(1)])
    show ?thesis using h n(2) by (intro out [OF n(1)]) simp_all
  qed
  obtain h where h: "h \<in> set (all_nodes T)" "unat h + 48 \<le> unat q"
    "unat q + unat (sizeof_pool e) \<le> unat (mn_begin (mnodes m h))" using hm by (auto simp: home_ok_def)
  have "unat (mn_begin (mnodes m h)) \<le> unat (mn_first_avail (mnodes m h))" by (rule node_block [OF nd h(1)])
  moreover have "0 < unat (sizeof_pool e)" by (simp add: sizeof_pool_def)
  ultimately show "\<not> in_range a len q" using h by (intro inside [OF h(1)]) simp_all
  show "\<not> in_range a len c" if "c \<in> set (dl @ gr)"
  proof -
    have "{unat c..<unat c + 24} \<subseteq> used_by m T" using cl that by (simp add: cleanups_inv_def)
    then have "unat c \<in> used_by m T" by auto
    then obtain k where k: "k \<in> set (all_nodes T)" "unat (mn_begin (mnodes m k)) \<le> unat c"
      "unat c < unat (mn_first_avail (mnodes m k))" by (auto simp: used_by_def handed_out_def)
    moreover have "unat k + 48 \<le> unat (mn_begin (mnodes m k))" by (rule node_block [OF nd k(1)])
    ultimately show ?thesis by (intro inside [OF k(1)]) simp_all
  qed
  show "\<not> in_range a len (pl_mutex (pools m q))" if "thread_safety e"
  proof -
    have "accessible e (blocks m) (pl_mutex (pools m q))" using lk that by (simp add: lock_ok_def)
    then obtain c k where "(c, k) \<in> set (blocks m)" "unat c \<le> unat (pl_mutex (pools m q))"
      "unat (pl_mutex (pools m q)) < unat c + unat k"
      using st by (auto simp: accessible_def list_ex_iff in_range_def)
    then show ?thesis by (rule out)
  qed
qed

lemma pool_inv_new_block:
  assumes inv: "pool_inv e m q T dl gr" and st: "strict_mem e" and ok: "blocks_ok ((a, len) # blocks m)"
    and bs: "blocks m' = (a, len) # blocks m"
    and same: "\<forall>x. \<not> in_range a len x \<longrightarrow>
      mnodes m' x = mnodes m x \<and> cnodes m' x = cnodes m x \<and> mutexes m' x = mutexes m x"
    and pl: "\<exists>c. pools m' q = pools m q\<lparr>pl_child := c\<rparr>"
  shows "pool_inv e m' q T dl gr"
proof -
  have nd: "nodes_inv e m q T" and hm: "home_ok e m q T"
    and lk: "lock_ok e m q" and cl: "cleanups_inv m q T dl gr" using inv by (simp_all add: pool_inv_def)
  note out = outside_new_block [OF inv st ok]
  have mn: "mnodes m' h = mnodes m h" if "h \<in> set (all_nodes T)" for h using same out(2) that by simp
  have "node_ok e m' i h" if "i < SPR_MAX_POOL_SLOT" "h \<in> set (T i)" for i h
  proof -
    have "h \<in> set (all_nodes T)" "node_ok e m i h" using that nd by (auto simp: set_all_nodes nodes_inv_def)
    then show ?thesis by (simp add: node_ok_def mn bs)
  qed
  moreover have "chain (\<lambda>a. mn_next (mnodes m' a)) b (T i) = chain (\<lambda>a. mn_next (mnodes m a)) b (T i)"
    if "i < SPR_MAX_POOL_SLOT" for b i
    using that by (intro chain_cong, subst mn) (auto simp: set_all_nodes)
  ultimately have nd': "nodes_inv e m' q T" using nd pl by (auto simp: nodes_inv_def)
  have used: "used_by m' T = used_by m T" by (simp add: used_by_def handed_out_def mn)
  have hm': "home_ok e m' q T" using hm by (auto simp: home_ok_def mn)
  have "chain (\<lambda>a. cn_next (cnodes m' a)) b xs = chain (\<lambda>a. cn_next (cnodes m a)) b xs"
    if "set xs \<subseteq> set (dl @ gr)" for b xs
    using that same out(3) by (intro chain_cong) auto
  then have cl': "cleanups_inv m' q T dl gr" using cl pl used by (auto simp: cleanups_inv_def)
  have "mutexes m' (pl_mutex (pools m q)) = mutexes m (pl_mutex (pools m q))" if "thread_safety e"
    using same out(4) that by simp
  then have "lock_ok e m' q" using lk pl accessible_Cons by (auto simp: lock_ok_def bs)
  then show ?thesis using inv nd' hm' cl' ok by (simp add: pool_inv_def bs)
qed

lemma linked_cong:
  assumes "\<And>v. v \<in> set (flat t) \<Longrightarrow> pools m' (fst v) = pools m (fst v)"
  shows "linked e m' t = linked e m t"
  using assms
proof (induction t)
  case (PTree p S cl fr ts)
  have "pools m' p = pools m p" using PTree.prems [of "(p, S, cl, fr)"] by simp
  moreover have root: "pools m' (pool_of t) = pools m (pool_of t)" if "t \<in> set ts" for t
  proof -
    obtain q T dl gr us where "t = PTree q T dl gr us" by (cases t)
    then show ?thesis using PTree.prems [of "(q, T, dl, gr)"] that by force
  qed
  moreover have "linked e m' t = linked e m t" if "t \<in> set ts" for t
  proof (rule PTree.IH [OF that])
    show "pools m' (fst v) = pools m (fst v)" if "v \<in> set (flat t)" for v
      using PTree.prems [of v] that \<open>t \<in> set ts\<close> by auto
  qed
  moreover have "chain (\<lambda>a. pl_brother (pools m' a)) b (map pool_of ts)
      = chain (\<lambda>a. pl_brother (pools m a)) b (map pool_of ts)" for b
    using root by (intro chain_cong) auto
  ultimately show ?case by (simp add: list_all_iff)
qed

lemma child_created_fields:
  assumes "\<not> in_range a (node_len e i) parent" "48 + unat (sizeof_pool e) \<le> unat (node_len e i)" "unat (a + 48) = unat a + 48"
  shows "blocks (child_created e parent a i c m) = (a, node_len e i) # blocks m"
    "calls (child_created e parent a i c m) = calls m"
    "mnodes (child_created e parent a i c m) a = home_node e parent a (node_len e i)"
    "pools (child_created e parent a i c m) parent = pools m parent\<lparr>pl_child := a + 48\<rparr>"
    "pools (child_created e parent a i c m) (a + 48) = (new_pool e i a (pl_mutex (pools m parent)))
       \<lparr>pl_parent := parent, pl_brother := pl_child (pools m parent)\<rparr>"
    "\<not> in_range a (node_len e i) x \<Longrightarrow> mnodes (child_created e parent a i c m) x = mnodes m x \<and>
       cnodes (child_created e parent a i c m) x = cnodes m x \<and>
       mutexes (child_created e parent a i c m) x = mutexes m x \<and>
       (x \<noteq> parent \<longrightarrow> pools (child_created e parent a i c m) x = pools m x)"
proof -
  have "0 < unat (sizeof_pool e)" by (simp add: sizeof_pool_def)
  then have ne: "a + 48 \<noteq> parent" using assms by (auto simp: in_range_def)
  then show "pools (child_created e parent a i c m) (a + 48) = (new_pool e i a (pl_mutex (pools m parent)))
       \<lparr>pl_parent := parent, pl_brother := pl_child (pools m parent)\<rparr>"
    by (simp add: child_created_def Let_def)
  assume x: "\<not> in_range a (node_len e i) x"
  then have "\<not> in_range (a + 48) (sizeof_pool e) x" "x \<noteq> a" "x \<noteq> a + 48"
    using assms(2,3) \<open>0 < unat (sizeof_pool e)\<close> by (auto simp: in_range_def)
  then show "mnodes (child_created e parent a i c m) x = mnodes m x \<and>
       cnodes (child_created e parent a i c m) x = cnodes m x \<and>
       mutexes (child_created e parent a i c m) x = mutexes m x \<and>
       (x \<noteq> parent \<longrightarrow> pools (child_created e parent a i c m) x = pools m x)"
    by (simp add: child_created_def Let_def memzero_outside)
qed (simp_all add: child_created_def Let_def)

text \<open>The tree with a new child in front of the children of one of its pools.\<close>

fun add_child :: "addr \<Rightarrow> ptree \<Rightarrow> ptree \<Rightarrow> ptree" where
  "add_child p c (PTree q S cl fr ts) =
     PTree q S cl fr (if q = p then c # ts else map (add_child p c) ts)"

lemma pool_of_add_child [simp]: "pool_of (add_child p c t) = pool_of t"
  by (cases t) simp

lemma add_child_other: "p \<notin> fst ` set (flat t) \<Longrightarrow> add_child p c t = t"
  by (induction t) (auto simp: image_Un intro!: map_idI)

lemma flat_add_child:
  "p \<in> fst ` set (flat t) \<Longrightarrow> distinct (map fst (flat t)) \<Longrightarrow>
    mset (flat (add_child p c t)) = mset (flat c) + mset (flat t)"
proof (induction t)
  case (PTree q S cl fr ts)
  show ?case
  proof (cases "q = p")
    case False
    then obtain u where u: "u \<in> set ts" "p \<in> fst ` set (flat u)" using PTree.prems(1) by auto
    then obtain us ws where ts: "ts = us @ u # ws" by (meson split_list)
    have "distinct (map fst (concat (map flat ts)))" using PTree.prems(2) by simp
    then have d: "distinct (map fst (flat u))"
      "fst ` set (flat u) \<inter> fst ` set (concat (map flat us)) = {}"
      "fst ` set (flat u) \<inter> fst ` set (concat (map flat ws)) = {}"
      by (simp_all add: ts Int_commute Int_Un_distrib)
    have "add_child p c w = w" if "w \<in> set (us @ ws)" for w
    proof -
      have "fst ` set (flat w) \<subseteq> fst ` set (concat (map flat us)) \<or>
          fst ` set (flat w) \<subseteq> fst ` set (concat (map flat ws))" using that by auto
      then show ?thesis using d(2,3) u(2) by (intro add_child_other) blast
    qed
    then have "map (add_child p c) us = us" "map (add_child p c) ws = ws" by (simp_all add: map_idI)
    then show ?thesis using False PTree.IH [OF u(1) u(2) d(1)] by (simp add: ts)
  qed simp
qed

lemma views_ok_perm:
  assumes "mset us = mset vs"
  shows "views_ok e m us = views_ok e m vs" "set (vnodes us) = set (vnodes vs)" "set us = set vs"
proof -
  have "mset (vnodes xs) = (\<Sum>(p, S, cl, fr) \<in># mset xs. mset (all_nodes S))" for xs
    by (induction xs) auto
  then have n: "mset (vnodes us) = mset (vnodes vs)" using assms by simp
  then show "set (vnodes us) = set (vnodes vs)" by (rule mset_eq_setD)
  show "set us = set vs" using assms by (rule mset_eq_setD)
  then show "views_ok e m us = views_ok e m vs"
    using mset_eq_imp_distinct_iff [OF n] by (simp add: views_ok_def)
qed

lemma views_pools_distinct: "views_ok e m vs \<Longrightarrow> distinct (map fst vs)"
proof (induction vs)
  case (Cons v vs)
  then have "fst ` set [v] \<inter> fst ` set vs = {}" by (intro views_apart(1) [of e m]) simp
  moreover have "views_ok e m vs" using views_ok_appendD [of e m "[v]" vs] Cons.prems by simp
  ultimately show ?case using Cons.IH by auto
qed simp

text \<open>The links of the tree after a child is put in front of the others.\<close>

lemma linked_add_child:
  assumes ln: "linked e m t" and ds: "distinct (map fst (flat t))"
    and same: "\<And>v. v \<in> set (flat t) \<Longrightarrow> fst v \<noteq> p \<Longrightarrow> pools m' (fst v) = pools m (fst v)"
    and p: "pl_child (pools m' p) = q" "same_place (pools m p\<lparr>pl_child := q\<rparr>) (pools m' p)"
    and q: "q \<noteq> NULL" "pl_brother (pools m' q) = pl_child (pools m p)" "pl_parent (pools m' q) = p"
      "thread_safety e \<Longrightarrow> pl_mutex (pools m' q) = pl_mutex (pools m p)" "pl_child (pools m' q) = NULL"
  shows "linked e m' (add_child p (PTree q T dl gr []) t)"
  using ln ds same
proof (induction t)
  case (PTree r S cl fr ts)
  let ?f = "add_child p (PTree q T dl gr [])"
  have place: "pl_brother (pools m' (pool_of t)) = pl_brother (pools m (pool_of t))"
    "pl_parent (pools m' (pool_of t)) = pl_parent (pools m (pool_of t))"
    "pl_mutex (pools m' (pool_of t)) = pl_mutex (pools m (pool_of t))" if "t \<in> set ts" for t
  proof -
    obtain x X xl xr us where t: "t = PTree x X xl xr us" by (cases t)
    have "(x, X, xl, xr) \<in> set (flat t)" by (simp add: t)
    then have "(x, X, xl, xr) \<in> set (flat (PTree r S cl fr ts))" using that by auto
    then have "pools m' x = pools m x \<or> x = p" using PTree.prems(3) [of "(x, X, xl, xr)"]
      by (cases "x = p") (simp_all only: fst_conv simp_thms)
    then have "pl_brother (pools m' x) = pl_brother (pools m x) \<and> pl_parent (pools m' x) = pl_parent (pools m x) \<and>
        pl_mutex (pools m' x) = pl_mutex (pools m x)"
      using p(2) unfolding same_place_def by (elim disjE) simp_all
    then show "pl_brother (pools m' (pool_of t)) = pl_brother (pools m (pool_of t))"
      "pl_parent (pools m' (pool_of t)) = pl_parent (pools m (pool_of t))"
      "pl_mutex (pools m' (pool_of t)) = pl_mutex (pools m (pool_of t))"
      by (simp_all add: t)
  qed
  have mr: "pl_mutex (pools m' r) = pl_mutex (pools m r)"
  proof (cases "r = p")
    case False
    then show ?thesis using PTree.prems(3) [of "(r, S, cl, fr)"] by simp
  qed (use p(2) in \<open>simp add: same_place_def\<close>)
  have br: "chain (\<lambda>a. pl_brother (pools m' a)) b (map pool_of ts) = chain (\<lambda>a. pl_brother (pools m a)) b (map pool_of ts)" for b
    using place by (intro chain_cong) auto
  have ln: "chain (\<lambda>a. pl_brother (pools m a)) (pl_child (pools m r)) (map pool_of ts)"
    "\<And>t. t \<in> set ts \<Longrightarrow> pl_parent (pools m (pool_of t)) = r \<and>
       (thread_safety e \<longrightarrow> pl_mutex (pools m (pool_of t)) = pl_mutex (pools m r)) \<and> linked e m t"
    using PTree.prems(1) by (simp_all add: list_all_iff)
  show ?case
  proof (cases "r = p")
    case True
    have "linked e m' t" if t: "t \<in> set ts" for t
    proof -
      have "fst v \<noteq> p" if "v \<in> set (flat t)" for v
        using PTree.prems(2) t that True by (auto simp: image_iff)
      moreover have "v \<in> set (flat (PTree r S cl fr ts))" if "v \<in> set (flat t)" for v using that t by auto
      ultimately have "linked e m' t = linked e m t" using PTree.prems(3) by (intro linked_cong) blast
      then show ?thesis using ln(2) [OF t] by simp
    qed
    then show ?thesis using True ln place q p mr br by (simp add: list_all_iff)
  next
    case False
    have "linked e m' (?f t)" if t: "t \<in> set ts" for t
    proof (rule PTree.IH [OF t])
      show "linked e m t" using ln(2) [OF t] by simp
      show "distinct (map fst (flat t))"
        using PTree.prems(2) t by (auto simp: distinct_concat_iff map_concat)
      show "pools m' (fst v) = pools m (fst v)" if "v \<in> set (flat t)" "fst v \<noteq> p" for v
      proof (rule PTree.prems(3) [OF _ that(2)])
        show "v \<in> set (flat (PTree r S cl fr ts))" using that(1) t by auto
      qed
    qed
    moreover have "pools m' r = pools m r" using PTree.prems(3) [of "(r, S, cl, fr)"] False by simp
    ultimately show ?thesis using False ln place mr br by (simp add: list_all_iff o_def)
  qed
qed

lemma child_created_views:
  assumes vs: "views_ok e m vs" and p: "(p, S, cl, fr) \<in> set vs"
    and st: "strict_mem e" and i: "i < SPR_MAX_POOL_SLOT"
    and ok: "blocks_ok ((a, node_len e i) # blocks m)"
  shows "\<not> in_range a (node_len e i) p"
    "views_ok e (child_created e p a i c m) ((a + 48, (\<lambda>_. [])(i := [a]), [], []) # vs)"
    "used_by (child_created e p a i c m) ((\<lambda>_. [])(i := [a])) = {}"
    "v \<in> set vs \<Longrightarrow> fst v \<noteq> p \<Longrightarrow> pools (child_created e p a i c m) (fst v) = pools m (fst v)"
    "48 + unat (sizeof_pool e) \<le> unat (node_len e i)" "unat (a + 48) = unat a + 48"
proof -
  let ?len = "node_len e i" and ?m = "child_created e p a i c m"
  let ?T = "(\<lambda>_. [])(i := [a]) :: slots"
  have inv: "pool_inv e m p S cl fr" using vs p by (auto simp: views_ok_def)
  have pg: "page_ok e" and al: "alloc_ok e" using inv by (simp_all add: pool_inv_def)
  note ext = outside_new_block [OF _ st ok]
  show np: "\<not> in_range a ?len p" by (rule ext(1) [OF inv])
  show sz: "48 + unat (sizeof_pool e) \<le> unat ?len" and a48: "unat (a + 48) = unat a + 48"
    using home_node_exact(3) [OF pg i ok, of p] home_node_exact(5) [OF pg i ok]
    by (simp_all add: sizeof_pool_def size_constants split: if_splits)
  note f = child_created_fields [OF np sz a48]
  have same: "pools ?m q = pools m q" if "pool_inv e m q T dl gr" "q \<noteq> p" for q T dl gr
    using f(6) [OF ext(1) [OF that(1)]] that(2) by simp
  then show "v \<in> set vs \<Longrightarrow> fst v \<noteq> p \<Longrightarrow> pools ?m (fst v) = pools m (fst v)"
    using vs by (cases v) (auto simp: views_ok_def)
  have old: "pool_inv e ?m q T dl gr" if "(q, T, dl, gr) \<in> set vs" for q T dl gr
  proof -
    have inv': "pool_inv e m q T dl gr" using vs that by (auto simp: views_ok_def)
    have "\<exists>c'. pools ?m q = pools m q\<lparr>pl_child := c'\<rparr>"
      using same [OF inv'] f(4) by (cases "q = p") (auto intro: exI [of _ "pl_child (pools m q)"])
    then show ?thesis using f(6) by (intro pool_inv_new_block [OF inv' st ok f(1)]) auto
  qed
  have "lock_ok e ?m p" using old [OF p] by (simp add: pool_inv_def)
  then have new: "pool_inv e ?m (a + 48) ?T [] []" "used_by ?m ?T = {}"
    using new_pool_inv [OF pg al i ok f(1,3)] by (simp_all add: f(4,5) new_pool_def zero_pool_def lock_ok_def)
  show "used_by ?m ?T = {}" by (rule new(2))
  have "set (all_nodes ?T) = {a}" "distinct (all_nodes ?T)"
    using i new(1) by (auto simp: set_all_nodes pool_inv_def nodes_inv_def)
  moreover have "in_range a ?len a" using sz by (simp add: in_range_def)
  then have "a \<notin> set (vnodes vs)" using ext(2) vs unfolding views_ok_def vnodes_def by fastforce
  ultimately show "views_ok e ?m ((a + 48, ?T, [], []) # vs)"
    using old new(1) vs by (auto simp: views_ok_def)
qed

lemma child_created_tree:
  assumes tr: "tree_inv e m t" and p: "(p, S, cl, fr) \<in> set (flat t)"
    and st: "strict_mem e" and i: "i < SPR_MAX_POOL_SLOT"
    and ok: "blocks_ok ((a, node_len e i) # blocks m)"
  shows "\<not> in_range a (node_len e i) p"
    "tree_inv e (child_created e p a i c m) (add_child p (PTree (a + 48) ((\<lambda>_. [])(i := [a])) [] [] []) t)"
    "used_by (child_created e p a i c m) ((\<lambda>_. [])(i := [a])) = {}"
proof -
  let ?m = "child_created e p a i c m" and ?c = "PTree (a + 48) ((\<lambda>_. [])(i := [a])) [] [] []"
  have vs: "views_ok e m (flat t)" and ln: "linked e m t" using tr by (simp_all add: tree_inv_def)
  note new = child_created_views [OF vs p st i ok]
  show "\<not> in_range a (node_len e i) p" "used_by ?m ((\<lambda>_. [])(i := [a])) = {}" by (rule new)+
  note f = child_created_fields [OF new(1,5,6)]
  have ds: "distinct (map fst (flat t))" by (rule views_pools_distinct [OF vs])
  have pt: "p \<in> fst ` set (flat t)" using p by force
  have "mset (flat (add_child p ?c t)) = mset ((a + 48, (\<lambda>_. [])(i := [a]), [], []) # flat t)"
    using flat_add_child [OF pt ds, of ?c] by simp
  from views_ok_perm(1) [OF this] have "views_ok e ?m (flat (add_child p ?c t))" using new(2) by blast
  moreover have "a + 48 \<noteq> NULL"
    using new(2) [of c] pool_inv_accessible accessible_nonnull by (force simp: views_ok_def)
  then have "linked e ?m (add_child p ?c t)"
    using new(4) by (intro linked_add_child [OF ln ds]) (simp_all add: f(4,5) new_pool_def zero_pool_def same_place_def)
  ultimately show "tree_inv e ?m (add_child p ?c t)" by (simp add: tree_inv_def)
qed


section \<open>The home of the mutex\<close>

text \<open>All pools of a tree use one mutex.\<close>

lemma linked_mutex:
  "linked e m t \<Longrightarrow> thread_safety e \<Longrightarrow> v \<in> set (flat t) \<Longrightarrow>
    pl_mutex (pools m (fst v)) = pl_mutex (pools m (pool_of t))"
proof (induction t)
  case (PTree p S cl fr ts)
  show ?case
  proof (cases "v = (p, S, cl, fr)")
    case False
    then obtain t where "t \<in> set ts" "v \<in> set (flat t)" using PTree.prems by auto
    then show ?thesis using PTree by (simp add: list_all_iff)
  qed simp
qed

text \<open>The mutex that the pools of a tree share lies in a node of the root.\<close>

definition mutex_home :: "env \<Rightarrow> mem \<Rightarrow> ptree \<Rightarrow> bool" where
  "mutex_home e m t \<longleftrightarrow> (thread_safety e \<longrightarrow> (\<exists>h \<in> set (all_nodes (slots_of t)). \<exists>n.
     (h, n) \<in> set (blocks m) \<and> in_range h n (pl_mutex (pools m (pool_of t)))))"

lemma mutex_home_apart:
  assumes tr: "tree_inv e m t" and home: "mutex_home e m t"
  shows "mutex_apart e m (set (vnodes (tl (flat t)))) (flat t)"
  unfolding mutex_apart_def
proof (intro impI ballI notI)
  fix v b assume ts: "thread_safety e" and v: "v \<in> set (flat t)"
    and b: "b \<in> set (blocks m)" "fst b \<in> set (vnodes (tl (flat t)))"
    and r: "in_range (fst b) (snd b) (pl_mutex (pools m (fst v)))"
  obtain p S cl fr us where t: "t = PTree p S cl fr us" by (cases t)
  have vs: "views_ok e m ((p, S, cl, fr) # tl (flat t))" and ln: "linked e m t"
    using tr by (simp_all add: tree_inv_def t)
  have bl: "blocks_ok (blocks m)" using vs by (simp add: views_ok_def pool_inv_def)
  obtain h n where h: "h \<in> set (all_nodes S)" "(h, n) \<in> set (blocks m)" "in_range h n (pl_mutex (pools m p))"
    using home ts by (auto simp: mutex_home_def t)
  have "h \<noteq> fst b" using views_ok_ConsD [OF vs] h(1) b(2) by blast
  then have "(h, n) \<noteq> b" by auto
  then have "apart (h, n) b" by (rule blocks_ok_apart [OF bl h(2) b(1)])
  moreover have "pl_mutex (pools m (fst v)) = pl_mutex (pools m p)"
    using linked_mutex [OF ln ts v] by (simp add: t)
  ultimately show False using h(3) r by (cases b) (auto simp: in_range_def)
qed

section \<open>A sample tree\<close>

text \<open>The sample pool with its registered cleanup, and a child of it.\<close>

definition sample_child_mem :: mem where
  "sample_child_mem = child_created sample_env sample_pool 8192 0 8192 sample_mem2"

definition sample_child_slots :: slots where "sample_child_slots = (\<lambda>_. [])(0 := [8192])"

definition sample_tree :: ptree where
  "sample_tree = PTree sample_pool sample_slots [4400] [] [PTree 8240 sample_child_slots [] [] []]"

lemma sample_blocks2: "blocks_ok ((8192, node_len sample_env 0) # blocks sample_mem2)"
  by (simp add: sample_len sample_fields2)

lemma sample_leaf: "tree_inv sample_env sample_mem2 (PTree sample_pool sample_slots [4400] [] [])"
  using sample_inv2 sample_fields2(1)
  by (simp add: tree_inv_def views_ok_def pool_inv_def nodes_inv_def)

lemma sample_tree_inv: "tree_inv sample_env sample_child_mem sample_tree"
  using child_created_tree(2) [OF sample_leaf _ _ _ sample_blocks2, of sample_pool sample_slots "[4400]" "[]" 8192]
  by (simp add: sample_child_mem_def sample_tree_def sample_child_slots_def SPR_MAX_POOL_SLOT_def)

lemma sample_tree_fields:
  "blocks sample_child_mem = [(8192, 4096), (4096, 4096)]" "calls sample_child_mem = []"
  "cnodes sample_child_mem 4400 = cnodes sample_mem2 4400"
  "pl_owner (pools sample_child_mem sample_pool) = 7" "pl_owner (pools sample_child_mem 8240) = 7"
proof -
  have np: "\<not> in_range 8192 (node_len sample_env 0) sample_pool" "\<not> in_range 8192 (node_len sample_env 0) 4400"
    by (simp_all add: sample_len in_range_def sample_pool_def)
  have sz: "48 + unat (sizeof_pool sample_env) \<le> unat (node_len sample_env 0)" "unat (8192 + 48 :: addr) = unat (8192 :: addr) + 48"
    by (simp_all add: sample_len sizeof_pool_def)
  note f = child_created_fields [OF np(1) sz, where c = 8192 and m = sample_mem2]
  show "blocks sample_child_mem = [(8192, 4096), (4096, 4096)]" "calls sample_child_mem = []"
    "pl_owner (pools sample_child_mem sample_pool) = 7"
    by (simp_all add: sample_child_mem_def f sample_fields2 sample_len)
  show "cnodes sample_child_mem 4400 = cnodes sample_mem2 4400"
    using f(6) [OF np(2)] by (simp add: sample_child_mem_def)
  show "pl_owner (pools sample_child_mem 8240) = 7"
    using f(5) by (simp add: sample_child_mem_def new_pool_def)
qed

lemma sample_tree_ready:
  "owned sample_env sample_child_mem (flat sample_tree)" "vpending sample_child_mem (flat sample_tree) = [(H_user 1, 77)]"
  "releases_all sample_child_mem (flat sample_tree)"
proof -
  show "owned sample_env sample_child_mem (flat sample_tree)"
    by (simp add: owned_def sample_tree_def not_owner_def sample_tree_fields)
  have "pending sample_child_mem [4400] = pending sample_mem2 [4400]"
    by (simp add: pending_def sample_tree_fields)
  then show v: "vpending sample_child_mem (flat sample_tree) = [(H_user 1, 77)]"
    by (simp add: sample_tree_def sample_pending) (simp add: pending_def)
  show "releases_all sample_child_mem (flat sample_tree)"
    by (simp add: releases_all_def v Let_def frees_ready_def)
qed

section \<open>Properties of trees of pools\<close>

lemma cleared_pool_inv:
  assumes "views_ok e m vs" "releases_all m vs" "walk_effect (\<lambda>_. {}) m vs m'"
    and v: "(p, S, [], []) \<in> set vs" "cleared e m' (p, S, [], [])"
  shows "pool_inv e m' p S [] []"
proof -
  let ?F = "set (frees (vpending m vs))"
  have inv: "pool_inv e m p S [] []" using assms(1) v(1) by (auto simp: views_ok_def)
  have bs: "blocks m' = blocks_without ?F (blocks m)" and mt: "mutexes m' = mutexes m"
    and mx: "pl_mutex (pools m' p) = pl_mutex (pools m p)"
    using assms(3) by (simp_all add: walk_effect_def same_links_def)
  have "\<forall>(d, n) \<in> set (blocks m). d \<in> ?F \<longrightarrow> \<not> in_range d n (pl_mutex (pools m p))"
    using assms(2) v(1) by (force simp: releases_all_def Let_def)
  then have "lock_ok e m' p"
    using inv accessible_without by (auto simp: pool_inv_def lock_ok_def bs mt mx)
  moreover have "cleanups_inv m' p S [] []" using v(2) by (simp add: cleared_def cleanups_inv_def)
  moreover have "blocks_ok (blocks m')" using inv by (simp add: bs pool_inv_def blocks_ok_without)
  ultimately show ?thesis using inv v(2) by (simp add: pool_inv_def cleared_def)
qed

lemma create_child_cases:
  assumes "tree_inv e m t" "(parent, S, cl, fr) \<in> set (flat t)" "strict_mem e" "create_request e n"
  defines "i \<equiv> unat (spr_get_npages e (spr_align_allocation n + SPR_SIZEOF_MEMPOOL_T_ALIGN e) - 1)"
  obtains (fail) "spr_pool_create e n parent m = Some (NULL, m\<lparr>errno := ENOMEM\<rparr>)"
  | (ok) a c where "spr_pool_create e n parent m = Some (a + 48, child_created e parent a i c m)"
      "blocks_ok ((a, node_len e i) # blocks m)" "a + 48 \<noteq> NULL"
proof -
  have inv: "pool_inv e m parent S cl fr" using assms(1,2) by (auto simp: tree_inv_def views_ok_def)
  have pg: "page_ok e" and al: "alloc_ok e" and bl: "blocks_ok (blocks m)" using inv by (simp_all add: pool_inv_def)
  note k = create_request_facts [OF pg assms(4), folded i_def]
  note np = npages_node_len [OF pg k(3,4) [unfolded i_def], folded i_def]
  have "512 \<le> unat (node_len e i)" using node_len_pos [of e i] pg k(4) by (simp add: SPR_MAX_POOL_SLOT_def)
  from al bl this show thesis
  proof (cases rule: memnode_allocate_cases)
    case fail
    then have "spr_pool_create1 e n parent m = Some (Inl ENOMEM, m\<lparr>errno := ENOMEM\<rparr>)"
      using k(1,4) np by (simp add: spr_pool_create1_def Let_def not_less less_imp_le i_def)
    then show thesis by (intro that(1)) (simp add: spr_pool_create_def ENOMEM_def SPR_OK_def)
  next
    case (new a c)
    note tree = child_created_tree [OF assms(1-3) k(4) new(2)]
    have "spr_pool_create1 e n parent m = Some (Inr (a + 48), child_created e parent a i c m)"
      by (rule create_child_eq [OF pg assms(4) i_def [THEN meta_eq_to_obj_eq] new(3,2) pool_inv_accessible [OF inv] tree(1)])
    then have "spr_pool_create e n parent m = Some (a + 48, child_created e parent a i c m)"
      by (simp add: spr_pool_create_def)
    moreover have "unat (a + 48) = unat a + 48"
      using assms(1) by (intro child_created_views(6) [OF _ assms(2,3) k(4) new(2)]) (simp add: tree_inv_def)
    then have "a + 48 \<noteq> NULL" by auto
    ultimately show thesis using new(2) by (intro that(2))
  qed
qed

text \<open>C16: Creating a child of the slots' sizes, of any pool of a tree, either fails with \<^verbatim>\<open>ENOMEM\<close> and
  changes nothing else, or links a new pool in front of the parent's children: the tree of pools keeps its invariant
  (the brothers are the children, each names its parent and shares its mutex, every pool is in a good
  state and no two pools share memory), and the new pool has handed out nothing.\<close>

theorem pool_create_child:
  assumes "tree_inv e m t" "(parent, S, cl, fr) \<in> set (flat t)" "strict_mem e" "create_request e n"
  shows "spr_pool_create e n parent m = Some (NULL, m\<lparr>errno := ENOMEM\<rparr>) \<or>
    (\<exists>pool m' i a. spr_pool_create e n parent m = Some (pool, m') \<and> pool \<noteq> NULL \<and>
      tree_inv e m' (add_child parent (PTree pool ((\<lambda>_. [])(i := [a])) [] [] []) t) \<and>
      used_by m' ((\<lambda>_. [])(i := [a])) = {} \<and> blocks m' = (a, node_len e i) # blocks m \<and> calls m' = calls m)"
proof (rule create_child_cases [OF assms], goal_cases fail ok)
  case (ok a c)
  let ?i = "unat (spr_get_npages e (spr_align_allocation n + SPR_SIZEOF_MEMPOOL_T_ALIGN e) - 1)"
  have "page_ok e" using assms(1,2) by (auto simp: tree_inv_def views_ok_def pool_inv_def)
  note tree = child_created_tree [OF assms(1-3) create_request_facts(4) [OF this assms(4)] ok(2)]
  have "blocks (child_created e parent a ?i c m) = (a, node_len e ?i) # blocks m"
    "calls (child_created e parent a ?i c m) = calls m" by (simp_all add: child_created_def Let_def)
  then show ?case using ok(1,3) tree(2,3) by blast
qed simp

theorem pool_create_child_witness:
  "\<exists>pool m'. spr_pool_create sample_env 1000 sample_pool sample_mem2 = Some (pool, m')"
  using pool_create_child [OF sample_leaf, of sample_pool sample_slots "[4400]" "[]" 1000]
  by (auto simp: create_request_def round_up_def size_constants)

text \<open>C15: Clearing a pool clears its whole tree. Every registered cleanup of every pool runs exactly
  once, a pool's own before those of its children, the youngest child first; exactly the blocks named
  by \<^verbatim>\<open>spr_free\<close> cleanups are released; afterwards no pool of the tree has memory handed out or a
  cleanup registered, the nodes of its cleanups are reserved, a pool that never had a cleanup satisfies
  the invariant again, and the locks are as before. Two calls per pool are enough.\<close>

theorem clear_frees_tree:
  assumes "tree_inv e m t" "owned e m (flat t)" "releases_all m (flat t)" "2 * length (flat t) \<le> fuel"
  shows "\<exists>m'. spr_pool_clear fuel e (pool_of t) m = Some m' \<and>
    calls m' = calls m @ vpending m (flat t) \<and>
    blocks m' = blocks_without (set (frees (vpending m (flat t)))) (blocks m) \<and> mutexes m' = mutexes m \<and>
    linked e m' t \<and>
    (\<forall>(p, S, cl, fr) \<in> set (flat t). nodes_inv e m' p S \<and> used_by m' S = {} \<and>
      pl_cleanups (pools m' p) = NULL \<and>
      chain (\<lambda>a. cn_next (cnodes m' a)) (pl_free_cleanups (pools m' p)) (rev cl @ fr) \<and>
      (cl = [] \<and> fr = [] \<longrightarrow> pool_inv e m' p S [] []))"
proof -
  obtain m' where m': "clear_depth fuel e (pool_of t) m = Some m'" "walk_effect (\<lambda>_. {}) m (flat t) m'"
    "\<forall>v \<in> set (flat t). cleared e m' v"
    using clearing.visit_tree [of e m t fuel] assms by (auto simp: tree_inv_def)
  have "linked e m' t" using assms(1) m'(2) linked_same by (auto simp: tree_inv_def walk_effect_def)
  moreover have "pool_inv e m' p S [] []" if "(p, S, [], []) \<in> set (flat t)" for p S
    using that assms(1) m'(3) by (intro cleared_pool_inv [OF _ assms(3) m'(2) that]) (auto simp: tree_inv_def)
  ultimately show ?thesis using m'
    by (intro exI [of _ m']) (auto simp: spr_pool_clear_def walk_effect_def cleared_def)
qed

theorem clear_frees_tree_witness:
  "\<exists>m'. spr_pool_clear 4 sample_env sample_pool sample_child_mem = Some m' \<and> calls m' = [(H_user 1, 77)] \<and>
    used_by m' sample_slots = {} \<and> used_by m' sample_child_slots = {}"
  using clear_frees_tree [OF sample_tree_inv sample_tree_ready(1,3), of 4]
  by (auto simp: sample_tree_ready(2) sample_tree_fields) (auto simp: sample_tree_def)

text \<open>C13: Destroying a pool whose tree consists of pools that live in nodes of the last slot, the largest
  size a pool can be created with, runs every cleanup of the tree exactly once, in the same order, and gives
  back exactly the memory of the tree: the blocks the \<^verbatim>\<open>spr_free\<close> cleanups name and every node of every
  pool. No released memory is read on the way: not the pool, whose structure the loop over the slots
  reads until the last one, and not the mutex the pools share, which lies in a node of the root.\<close>

theorem destroy_releases_tree:
  assumes "tree_inv e m t" "owned e m (flat t)" "releases_all m (flat t)" "2 * length (flat t) \<le> fuel"
    "\<forall>v \<in> set (flat t). in_last_slot e v" "mutex_home e m t"
  shows "\<exists>m'. spr_pool_destroy fuel e (pool_of t) m = Some m' \<and>
    calls m' = calls m @ vpending m (flat t) \<and>
    blocks m' = blocks_without (set (frees (vpending m (flat t))) \<union> set (vnodes (flat t))) (blocks m)"
proof -
  have "\<forall>v \<in> set (flat t). destroyable e v" using assms(5) by (simp add: destroyable_def)
  then show ?thesis
    using destroying.visit_tree [of e m t fuel] assms(1-4) mutex_home_apart [OF assms(1,6)]
    by (auto simp: tree_inv_def spr_pool_destroy_def walk_effect_def)
qed

text \<open>A root pool and a child of it that live in nodes of the last slot.\<close>

definition last_mem :: mem where
  "last_mem = root_created sample_env 4096 19 81920 empty_mem"

definition last_child_mem :: mem where
  "last_child_mem = child_created sample_env 4144 86016 19 163840 last_mem"

definition last_slots :: "addr \<Rightarrow> slots" where "last_slots a = (\<lambda>_. [])(19 := [a])"

definition last_tree :: ptree where
  "last_tree = PTree 4144 (last_slots 4096) [] [] [PTree 86064 (last_slots 86016) [] [] []]"

lemma last_len: "node_len sample_env 19 = 81920"
  by (simp add: node_len_def)

lemma last_fields:
  "blocks last_mem = [(4096, 81920)]" "calls last_mem = []"
  "pools last_mem 4144 = zero_pool\<lparr>pl_nodes := (\<lambda>_. NULL)(19 := 4096), pl_mutex := 4360, pl_owner := 7\<rparr>"
  by (simp_all add: last_mem_def root_created_def Let_def home_node_def mutex_part_def size_constants
    new_pool_def last_len empty_mem_def)

lemma last_inv: "pool_inv sample_env last_mem 4144 (last_slots 4096) [] []"
proof -
  have b: "blocks_ok ((4096, node_len sample_env 19) # blocks empty_mem)"
    by (simp add: last_len empty_mem_def)
  show ?thesis
    using root_created_inv(1) [OF sample_env_ok(2,1) _ b, of 81920]
    by (simp add: last_mem_def last_slots_def SPR_MAX_POOL_SLOT_def)
qed

lemma last_tree_inv: "tree_inv sample_env last_child_mem last_tree"
proof -
  have leaf: "tree_inv sample_env last_mem (PTree 4144 (last_slots 4096) [] [] [])"
    using last_inv by (simp add: tree_inv_def views_ok_def pool_inv_def nodes_inv_def last_fields zero_pool_def)
  have "blocks_ok ((86016, node_len sample_env 19) # blocks last_mem)" by (simp add: last_len last_fields)
  from child_created_tree(2) [OF leaf _ _ _ this, of 4144 "last_slots 4096" "[]" "[]" 163840] show ?thesis
    by (simp add: last_child_mem_def last_tree_def last_slots_def SPR_MAX_POOL_SLOT_def)
qed

lemma last_tree_fields:
  "blocks last_child_mem = [(86016, 81920), (4096, 81920)]" "calls last_child_mem = []"
  "pl_owner (pools last_child_mem 4144) = 7" "pl_owner (pools last_child_mem 86064) = 7"
  "pl_mutex (pools last_child_mem 4144) = 4360"
proof -
  have np: "\<not> in_range 86016 (node_len sample_env 19) 4144" by (simp add: last_len in_range_def)
  have sz: "48 + unat (sizeof_pool sample_env) \<le> unat (node_len sample_env 19)"
    "unat (86016 + 48 :: addr) = unat (86016 :: addr) + 48"
    by (simp_all add: last_len sizeof_pool_def)
  note f = child_created_fields [OF np sz, where c = 163840 and m = last_mem]
  show "blocks last_child_mem = [(86016, 81920), (4096, 81920)]" "calls last_child_mem = []"
    "pl_owner (pools last_child_mem 4144) = 7" "pl_mutex (pools last_child_mem 4144) = 4360"
    by (simp_all add: last_child_mem_def f last_fields last_len)
  show "pl_owner (pools last_child_mem 86064) = 7" using f(5) by (simp add: last_child_mem_def new_pool_def)
qed

theorem destroy_releases_tree_witness:
  "\<exists>m'. spr_pool_destroy 4 sample_env 4144 last_child_mem = Some m' \<and> blocks m' = []"
proof -
  let ?vs = "[(4144, last_slots 4096, [], []), (86064, last_slots 86016, [], [])] :: view list"
  have vs: "flat last_tree = ?vs" "pool_of last_tree = 4144" "slots_of last_tree = last_slots 4096"
    by (simp_all add: last_tree_def)
  have nodes: "set (all_nodes (last_slots a)) = {a}" for a
    by (auto simp: set_all_nodes last_slots_def SPR_MAX_POOL_SLOT_def)
  have pend: "vpending last_child_mem ?vs = []" by (simp add: pending_def)
  have "owned sample_env last_child_mem ?vs" by (simp add: owned_def not_owner_def last_tree_fields)
  moreover have "releases_all last_child_mem ?vs"
    unfolding releases_all_def pend by (simp add: Let_def frees_ready_def)
  moreover have "\<forall>v \<in> set ?vs. in_last_slot sample_env v"
    by (simp add: in_last_slot_def last_slots_def last_len in_range_def SPR_MAX_POOL_SLOT_def)
  moreover have "mutex_home sample_env last_child_mem last_tree"
    by (auto simp: mutex_home_def vs nodes last_tree_fields in_range_def)
  ultimately show ?thesis
    using destroy_releases_tree [OF last_tree_inv, of 4]
    unfolding vs pend by (simp add: nodes last_tree_fields blocks_without_def) blast
qed

section \<open>Destroying a child alone\<close>

lemma pool_inv_lenient:
  assumes "pool_inv e m p S cl fr"
  shows "pool_inv (e\<lparr>strict_mem := False\<rparr>) m p S cl fr"
proof -
  let ?e = "e\<lparr>strict_mem := False\<rparr>"
  have acc: "accessible ?e bs x" if "accessible e bs x" for bs x
    using that by (simp add: accessible_def)
  have same: "node_len ?e i = node_len e i" "sizeof_pool ?e = sizeof_pool e"
    "spr_get_page_size ?e = spr_get_page_size e" "alloc_ok ?e = alloc_ok e" for i
    by (simp_all add: node_len_def sizeof_pool_def spr_get_page_size_def alloc_ok_def)
  have "nodes_inv ?e m p S" using assms by (simp add: pool_inv_def nodes_inv_def node_ok_def same)
  then show ?thesis
    using assms acc by (simp add: pool_inv_def home_ok_def lock_ok_def page_ok_def same)
qed

lemma dealloc_slots_gone:
  assumes "i \<le> SPR_MAX_POOL_SLOT" "\<not> strict_mem e" "q \<noteq> NULL"
    and "\<forall>j<SPR_MAX_POOL_SLOT. pl_nodes (pools m q) j = NULL \<or> pl_nodes (pools m q) j \<notin> fst ` set (blocks m)"
    and "\<exists>j<SPR_MAX_POOL_SLOT. i \<le> j \<and> pl_nodes (pools m q) j \<noteq> NULL"
  shows "dealloc_slots e q i m = None"
  using assms(1,5)
proof (induction i rule: inc_induct)
  case (step i)
  let ?a = "pl_nodes (pools m q) i"
  have i: "i < SPR_MAX_POOL_SLOT" using step.hyps by simp
  show ?case
  proof (cases "?a = NULL")
    case True
    then have "\<exists>j<SPR_MAX_POOL_SLOT. Suc i \<le> j \<and> pl_nodes (pools m q) j \<noteq> NULL"
      using step.prems le_eq_less_or_eq by (metis Suc_le_eq)
    then show ?thesis using True i step.IH assms(2,3)
      by (subst dealloc_slots.simps) (simp add: get_slot_def load_pool_def accessible_lenient dealloc_nodes.simps)
  next
    case False
    have "?a \<notin> fst ` set (blocks m)" using assms(4) i False by blast
    then have "spr_memnode_deallocate e ?a m = None"
      using False assms(2) by (force simp: spr_memnode_deallocate_def load_node_def accessible_lenient sys_munmap_def spr_free_def)
    then have "dealloc_nodes e ?a m = None"
      using False assms(2) by (subst dealloc_nodes.simps) (simp add: load_node_def accessible_lenient)
    then show ?thesis using i assms(2,3)
      by (subst dealloc_slots.simps) (simp add: get_slot_def load_pool_def accessible_lenient)
  qed
qed auto

text \<open>A pool without registered cleanups and children destroyed once cannot be destroyed again.\<close>

lemma destroy_destroyed_leaf:
  assumes len: "\<not> strict_mem e" and q: "q \<noteq> NULL" "\<not> not_owner e (pools m q)" "pl_child (pools m q) = NULL"
    and gone: "destroyed m (q, T, dl, gr)" and home: "all_nodes T \<noteq> []"
    and ch: "\<forall>i<SPR_MAX_POOL_SLOT. chain nx (pl_nodes (pools m q) i) (T i)"
  shows "destroy_depth d e q m = None"
proof (cases d)
  case (Suc d')
  have cl: "pl_cleanups (pools m q) = NULL" and gone': "fst ` set (blocks m) \<inter> set (all_nodes T) = {}"
    using gone by (simp_all add: destroyed_def)
  let ?m = "m\<lparr>pools := (pools m)(q := pools m q\<lparr>pl_cleanups := NULL\<rparr>)\<rparr>"
  have run: "spr_pool_cleanup_run_all e q m = Some ?m"
    using len q(1) cl
    by (simp add: spr_pool_cleanup_run_all_def load_pool_def upd_pool_def accessible_lenient run_all_loop.simps)
  have slot: "pl_nodes (pools m q) j = NULL \<and> T j = [] \<or> pl_nodes (pools m q) j \<in> set (T j)"
    if "j < SPR_MAX_POOL_SLOT" for j
    using ch that by (cases "T j") auto
  then have out: "\<forall>j<SPR_MAX_POOL_SLOT. pl_nodes (pools ?m q) j = NULL \<or> pl_nodes (pools ?m q) j \<notin> fst ` set (blocks ?m)"
    using gone' by (fastforce simp: set_all_nodes)
  obtain x where "x \<in> set (all_nodes T)" using home by (cases "all_nodes T") auto
  then obtain j where "j < SPR_MAX_POOL_SLOT" "x \<in> set (T j)" by (auto simp: set_all_nodes)
  then have "j < SPR_MAX_POOL_SLOT \<and> pl_nodes (pools m q) j \<noteq> NULL"
    using ch [rule_format, of j] by (cases "T j") auto
  then have "\<exists>j<SPR_MAX_POOL_SLOT. 0 \<le> j \<and> pl_nodes (pools ?m q) j \<noteq> NULL" by auto
  then have "dealloc_slots e q 0 ?m = None"
    by (rule dealloc_slots_gone [OF le0 len q(1) out])
  then show ?thesis
    using Suc len q run by (cases d') (simp_all add: load_pool_def accessible_lenient)
qed simp

text \<open>C38: \<^verbatim>\<open>spr_pool_destroy\<close> of a child does not unlink it from its parent. Destroying the parent
  afterwards finds the child again and gives back its nodes a second time, which has no defined
  result, even where released memory stays readable.\<close>

theorem destroyed_child_is_destroyed_again:
  assumes tr: "tree_inv e m (PTree p S [] fr [PTree q T dl gr []])" and len: "\<not> strict_mem e"
    and own: "owned e m [(p, S, [], fr), (q, T, dl, gr)]" and rel: "releases_all m [(q, T, dl, gr)]" and "2 \<le> fuel"
  shows "\<exists>m'. spr_pool_destroy fuel e q m = Some m' \<and> spr_pool_destroy fuel' e p m' = None"
proof -
  let ?c = "PTree q T dl gr []"
  have vs: "views_ok e m ([(q, T, dl, gr)] @ [(p, S, [], fr)])"
    using tr by (auto simp: tree_inv_def views_ok_def)
  then have inv: "pool_inv e m q T dl gr" "pool_inv e m p S [] fr" by (simp_all add: views_ok_def)
  have ln: "linked e m ?c" "pl_child (pools m p) = q" "q \<noteq> NULL" "pl_child (pools m q) = NULL"
    using tr by (auto simp: tree_inv_def)
  have "destroyable e (q, T, dl, gr)" using len by (simp add: destroyable_def)
  then obtain m' where m': "destroy_depth fuel e q m = Some m'" "walk_effect (\<lambda>vs. set (vnodes vs)) m [(q, T, dl, gr)] m'"
    "destroyed m' (q, T, dl, gr)"
    using destroying.visit_tree [of e m ?c fuel] vs ln(1) own rel assms(5) by (auto simp: views_ok_def owned_def)
  have same: "same_links (pools m x) (pools m' x)" for x using m'(2) by (simp add: walk_effect_def)
  have "p \<noteq> q" using views_apart(1) [OF vs] by auto
  then have p: "pools m' p = pools m p" using m'(2) by (simp add: walk_effect_def)
  have nz: "p \<noteq> NULL" using pool_inv_accessible [OF inv(2)] by (rule accessible_nonnull)
  have clp: "pl_cleanups (pools m p) = NULL" using inv(2) by (simp add: pool_inv_def cleanups_inv_def)
  let ?m = "m'\<lparr>pools := (pools m')(p := pools m' p\<lparr>pl_cleanups := NULL\<rparr>)\<rparr>"
  have run: "spr_pool_cleanup_run_all e p m' = Some ?m"
    using len nz clp p
    by (simp add: spr_pool_cleanup_run_all_def load_pool_def upd_pool_def accessible_lenient run_all_loop.simps)
  have "destroy_depth d e q ?m = None" for d
  proof (rule destroy_destroyed_leaf [OF len ln(3)])
    show "\<not> not_owner e (pools ?m q)" "pl_child (pools ?m q) = NULL"
      using own ln(4) same [of q] \<open>p \<noteq> q\<close> by (simp_all add: owned_def not_owner_def same_links_def)
    show "destroyed ?m (q, T, dl, gr)" using m'(3) \<open>p \<noteq> q\<close> by (simp add: destroyed_def)
    show "all_nodes T \<noteq> []" using inv(1) by (auto simp: pool_inv_def home_ok_def)
    show "\<forall>i<SPR_MAX_POOL_SLOT. chain (\<lambda>a. mn_next (mnodes m a)) (pl_nodes (pools ?m q) i) (T i)"
      using inv(1) same [of q] \<open>p \<noteq> q\<close> by (simp add: pool_inv_def nodes_inv_def same_links_def)
  qed
  then have "destroy_children d e (pl_child (pools ?m p)) ?m = None" for d
    using ln(2,3) p len by (cases d) (simp_all add: load_pool_def accessible_lenient)
  then have "destroy_depth fuel' e p m' = None"
    using run nz len own p by (cases fuel') (simp_all add: load_pool_def accessible_lenient owned_def)
  then show ?thesis using m'(1) by (auto simp: spr_pool_destroy_def)
qed

text \<open>The weakest assumption on memory: what was released can still be read.\<close>

lemma lenient_tree_inv:
  assumes "tree_inv sample_env m t"
  shows "tree_inv lenient_env m t"
proof -
  have "linked lenient_env m t = linked sample_env m t" by (induction t) (simp add: list_all_iff)
  then show ?thesis using assms pool_inv_lenient [of sample_env m]
    by (fastforce simp: tree_inv_def views_ok_def lenient_env_def)
qed

theorem destroyed_child_is_destroyed_again_witness:
  "\<exists>m m'. spr_pool_destroy 2 lenient_env 8240 m = Some m' \<and> spr_pool_destroy 9 lenient_env sample_pool m' = None"
proof -
  let ?m = "child_created sample_env sample_pool 8192 0 8192 sample_mem"
  have ok: "blocks_ok ((8192, node_len sample_env 0) # blocks sample_mem)" by (simp add: sample_len sample_fields)
  have "tree_inv sample_env sample_mem (PTree sample_pool sample_slots [] [] [])"
    using sample_inv(1) by (simp add: tree_inv_def views_ok_def pool_inv_def nodes_inv_def sample_fields zero_pool_def)
  from child_created_tree(2) [OF this _ _ _ ok, of sample_pool sample_slots "[]" "[]" 8192]
  have tr: "tree_inv sample_env ?m (PTree sample_pool sample_slots [] [] [PTree 8240 sample_child_slots [] [] []])"
    by (simp add: sample_child_slots_def SPR_MAX_POOL_SLOT_def)
  have np: "\<not> in_range 8192 (node_len sample_env 0) sample_pool"
    by (simp add: sample_len in_range_def sample_pool_def)
  have "48 + unat (sizeof_pool sample_env) \<le> unat (node_len sample_env 0)" "unat (8192 + 48 :: addr) = unat (8192 :: addr) + 48"
    by (simp_all add: sample_len sizeof_pool_def)
  note f = child_created_fields [OF np this, where c = 8192 and m = sample_mem]
  have "owned lenient_env ?m [(sample_pool, sample_slots, [], []), (8240, sample_child_slots, [], [])]"
    using f(4,5) by (simp add: owned_def not_owner_def sample_fields new_pool_def)
  moreover have "releases_all ?m [(8240, sample_child_slots, [], [])]"
    by (simp add: releases_all_def Let_def frees_ready_def pending_def)
  ultimately show ?thesis
    using destroyed_child_is_destroyed_again [OF lenient_tree_inv [OF tr], of 2 9] by auto
qed

end
