(* ===== verification/Spr_Pool_Props.thy ===== *)
theory Spr_Pool_Props
  imports Spr_Instance
begin

text \<open>
  The pool as the region allocator of \<^verbatim>\<open>Spr_Region\<close>, and the properties of the pool.
\<close>

section \<open>The pool as a region allocator\<close>

text \<open>The addresses in use by a pool in a state where its invariant holds.\<close>

definition pool_uses :: "env \<Rightarrow> addr \<Rightarrow> mem \<Rightarrow> nat set \<Rightarrow> bool" where
  "pool_uses e pool m U \<longleftrightarrow> (\<exists>S cl fr. pool_inv e m pool S cl fr \<and> used_by m S = U)"

lemma palloc_depth3: "spr_palloc e pool n m = palloc_depth (Suc (Suc (Suc 0))) e pool n m"
  by (simp add: spr_palloc_def numeral_3_eq_3)

lemma nodes_inv_clients [spr_frame]:
  "nodes_inv e (m\<lparr>lnodes := f\<rparr>) pool S = nodes_inv e m pool S"
  "nodes_inv e (m\<lparr>lists := g\<rparr>) pool S = nodes_inv e m pool S"
  "nodes_inv e (m\<lparr>arrays := h\<rparr>) pool S = nodes_inv e m pool S"
  "nodes_inv e (m\<lparr>bytes := b\<rparr>) pool S = nodes_inv e m pool S"
  "nodes_inv e (m\<lparr>errno := x\<rparr>) pool S = nodes_inv e m pool S"
  by (simp_all add: inv_parts)

lemma home_ok_clients [spr_frame]:
  "home_ok e (m\<lparr>lnodes := f\<rparr>) pool S = home_ok e m pool S"
  "home_ok e (m\<lparr>lists := g\<rparr>) pool S = home_ok e m pool S"
  "home_ok e (m\<lparr>arrays := h\<rparr>) pool S = home_ok e m pool S"
  "home_ok e (m\<lparr>bytes := b\<rparr>) pool S = home_ok e m pool S"
  "home_ok e (m\<lparr>errno := x\<rparr>) pool S = home_ok e m pool S"
  by (simp_all add: home_ok_def)

lemma used_by_clients [spr_frame]:
  "used_by (m\<lparr>lnodes := f\<rparr>) S = used_by m S"
  "used_by (m\<lparr>lists := g\<rparr>) S = used_by m S"
  "used_by (m\<lparr>arrays := h\<rparr>) S = used_by m S"
  "used_by (m\<lparr>bytes := b\<rparr>) S = used_by m S"
  "used_by (m\<lparr>errno := x\<rparr>) S = used_by m S"
  by (simp_all add: used_by_def handed_out_def)

lemma pool_inv_clients [spr_frame]:
  "pool_inv e (m\<lparr>lnodes := f\<rparr>) pool S cl fr = pool_inv e m pool S cl fr"
  "pool_inv e (m\<lparr>lists := g\<rparr>) pool S cl fr = pool_inv e m pool S cl fr"
  "pool_inv e (m\<lparr>arrays := h\<rparr>) pool S cl fr = pool_inv e m pool S cl fr"
  "pool_inv e (m\<lparr>bytes := b\<rparr>) pool S cl fr = pool_inv e m pool S cl fr"
  "pool_inv e (m\<lparr>errno := x\<rparr>) pool S cl fr = pool_inv e m pool S cl fr"
  by (simp_all add: pool_inv_def lock_ok_def cleanups_inv_def spr_frame)

lemma used_bounded:
  assumes "pool_inv e m pool S cl fr" "k \<in> used_by m S"
  shows "k < 2 ^ 64"
proof -
  obtain h where h: "h \<in> set (all_nodes S)" "k \<in> handed_out m h"
    using assms(2) by (auto simp: used_by_def)
  then have "k < unat (mn_first_avail (mnodes m h))" by (simp add: handed_out_def)
  also have "\<dots> < 2 ^ 64" using unsigned_less [of "mn_first_avail (mnodes m h)"] by simp
  finally show ?thesis .
qed

lemma palloc_region:
  assumes inv: "pool_inv e m pool S cl fr" and n: "small_request e n"
  shows "\<exists>a m'. spr_palloc e pool n m = Some (a, m') \<and> same_client_memory m m' \<and>
    calls m' = calls m \<and> set (blocks m) \<subseteq> set (blocks m') \<and>
    (a = NULL \<and> errno m' = ENOMEM \<and> pool_inv e m' pool S cl fr \<and> used_by m' S = used_by m S \<or>
     a \<noteq> NULL \<and> 8 dvd unat a \<and> region a n \<inter> used_by m S = {} \<and>
      (\<exists>S'. pool_inv e m' pool S' cl fr \<and> used_by m S \<union> region a n \<subseteq> used_by m' S'))"
proof (rule palloc_small_cases [OF inv n, of 2], goal_cases fail ok)
  case fail
  then show ?case using inv
    by (simp add: palloc_depth3 numeral_2_eq_2 same_client_memory_def spr_frame)
next
  case (ok a m' S')
  have "unat n \<le> unat (spr_align_allocation n)"
    using inv n by (intro small_request_facts) (auto simp: pool_inv_def)
  then have "region a n \<subseteq> {unat a..<unat a + unat (spr_align_allocation n)}"
    by (auto simp: region_def)
  then have r: "region a n \<inter> used_by m S = {}" "used_by m S \<union> region a n \<subseteq> used_by m' S'"
    using ok(2) unfolding hands_out_def by blast+
  have "a \<noteq> NULL" "8 dvd unat a" "same_client_memory m m'" "calls m' = calls m"
    "set (blocks m) \<subseteq> set (blocks m')"
    using ok(2) by (simp_all add: hands_out_def same_client_memory_def)
  moreover have "pool_inv e m' pool S' cl fr" by (rule hands_out_inv [OF inv ok(2)])
  ultimately show ?case using ok(1) r by (auto simp: palloc_depth3 numeral_2_eq_2)
qed

interpretation palloc: region_allocator e "spr_palloc e pool" "pool_uses e pool" "small_request e"
  for e pool
proof
  fix m U n assume "pool_uses e pool m U" "small_request e n"
  then obtain S cl fr where S: "pool_inv e m pool S cl fr" "used_by m S = U" "small_request e n"
    by (auto simp: pool_uses_def)
  show "\<exists>a m'. spr_palloc e pool n m = Some (a, m') \<and> same_client_memory m m' \<and> calls m' = calls m \<and>
      set (blocks m) \<subseteq> set (blocks m') \<and>
      (a = NULL \<and> errno m' \<noteq> 0 \<and> pool_uses e pool m' U \<or>
       a \<noteq> NULL \<and> 8 dvd unat a \<and> region a n \<inter> U = {} \<and>
         (\<exists>U'. pool_uses e pool m' U' \<and> U \<union> region a n \<subseteq> U'))"
    using palloc_region [OF S(1,3)] S(2) unfolding pool_uses_def by (auto simp: ENOMEM_def) blast+
next
  fix m U and a :: addr assume "pool_uses e pool m U" "unat a \<in> U"
  then show "accessible e (blocks m) a"
    by (auto simp: pool_uses_def pool_inv_def intro: used_accessible)
next
  fix m U and k :: nat assume "pool_uses e pool m U" "k \<in> U"
  then show "k < 2 ^ 64" using used_bounded unfolding pool_uses_def by blast
qed (simp_all add: pool_uses_def spr_frame)

section \<open>The properties of allocation\<close>

text \<open>A small request (rounded up and with the node header below twenty pages) to a pool in
  a good state either fails with null and \<^verbatim>\<open>ENOMEM\<close>, leaving the pool as it was, or returns an
  8-aligned address whose n bytes the pool had not handed out, keeps the pool in a good state
  with these bytes in use, and changes neither client data nor the mutexes.\<close>

theorem palloc_small_request:
  assumes "pool_inv e m pool S cl fr" "small_request e n"
  shows "\<exists>a m'. spr_palloc e pool n m = Some (a, m') \<and> same_client_memory m m' \<and>
    calls m' = calls m \<and> set (blocks m) \<subseteq> set (blocks m') \<and>
    (a = NULL \<and> errno m' = ENOMEM \<and> pool_inv e m' pool S cl fr \<and> used_by m' S = used_by m S \<or>
     a \<noteq> NULL \<and> 8 dvd unat a \<and> region a n \<inter> used_by m S = {} \<and>
      (\<exists>S'. pool_inv e m' pool S' cl fr \<and> used_by m S \<union> region a n \<subseteq> used_by m' S'))"
  using assms by (rule palloc_region)

theorem palloc_small_request_witness:
  "\<exists>a m'. spr_palloc sample_env sample_pool 100 sample_mem = Some (a, m') \<and>
    same_client_memory sample_mem m'"
  using palloc_small_request [OF sample_inv(1), of 100] by (auto simp: sample_small round_up_def)

text \<open>A client that asks a pool for any sequence of small blocks gets blocks that are
  8-aligned, apart from everything the pool had handed out before, and pairwise disjoint; the
  sequence only stops at a failed request.\<close>

theorem palloc_sequence_disjoint:
  assumes "pool_inv e m pool S cl fr" "\<forall>n \<in> set ns. small_request e n"
  shows "\<exists>bs m'. alloc_seq (spr_palloc e pool) ns m = Some (bs, m') \<and> length bs \<le> length ns \<and>
    map snd bs = take (length bs) ns \<and>
    (\<forall>(a, n) \<in> set bs. a \<noteq> NULL \<and> 8 dvd unat a \<and> region a n \<inter> used_by m S = {}) \<and>
    sorted_wrt (\<lambda>(a, n) (b, k). region a n \<inter> region b k = {}) bs"
  using assms by (intro palloc.alloc_seq_disjoint) (auto simp: pool_uses_def)

theorem palloc_sequence_disjoint_witness:
  "\<exists>bs m'. alloc_seq (spr_palloc sample_env sample_pool) [24, 5000, 8] sample_mem = Some (bs, m') \<and>
    sorted_wrt (\<lambda>(a, n) (b, k). region a n \<inter> region b k = {}) bs"
  using palloc_sequence_disjoint [OF sample_inv(1), of "[24, 5000, 8]"]
  by (auto simp: sample_small round_up_def)

text \<open>The rounded size \<^verbatim>\<open>spr_align_allocation\<close> computes, for every request: zero when the
  request is so large that rounding wraps, else the next multiple of eight, at least 16.\<close>

theorem align_allocation_rounds_up:
  "unat (spr_align_allocation n) =
     (if 2 ^ 64 \<le> unat n + 7 then 0 else max 16 ((unat n + 7) div 8 * 8))"
  by (rule align_allocation_value)

text \<open>C19: Creating a root pool of a size the slots serve fails with \<^verbatim>\<open>ENOMEM\<close> and changes nothing else
  when the system does not give a block of the pages it needs, and otherwise returns a pool that satisfies the invariant, has one node, has handed out
  nothing, and has no cleanups. The pool structure and, with thread safety, after it the 40 bytes of the
  mutex lie in the node, between its header and the memory it can hand out.\<close>

theorem pool_create_establishes_inv:
  assumes "page_ok e" "alloc_ok e" "blocks_ok (blocks m)" "pth_ok e" "create_request e n"
  shows "let i = unat (spr_get_npages e (spr_align_allocation n + SPR_SIZEOF_MEMPOOL_T_ALIGN e) - 1) in
    if sys_alloc e (blocks m) (node_len e i) = NULL
    then spr_pool_create e n NULL m = Some (NULL, m\<lparr>errno := ENOMEM\<rparr>)
    else (\<exists>pool m' a. spr_pool_create e n NULL m = Some (pool, m') \<and> pool \<noteq> NULL \<and>
      pool_inv e m' pool ((\<lambda>_. [])(i := [a])) [] [] \<and> used_by m' ((\<lambda>_. [])(i := [a])) = {} \<and>
      blocks m' = (a, node_len e i) # blocks m \<and> unat a + 48 \<le> unat pool \<and>
      unat pool + unat (sizeof_pool e) \<le> unat (mn_begin (mnodes m' a)) \<and>
      (thread_safety e \<longrightarrow> unat pool + unat (sizeof_pool e) \<le> unat (pl_mutex (pools m' pool)) \<and>
        unat (pl_mutex (pools m' pool)) + 40 \<le> unat (mn_begin (mnodes m' a))))"
proof -
  let ?i = "unat (spr_get_npages e (spr_align_allocation n + SPR_SIZEOF_MEMPOOL_T_ALIGN e) - 1)"
  have i: "?i < SPR_MAX_POOL_SLOT" by (rule create_request_facts(4) [OF assms(1,5)])
  show ?thesis
  proof (rule create_root_cases [OF assms(1-5) refl], goal_cases fail ok)
    case fail
    then show ?case by (simp add: spr_pool_create_def ENOMEM_def SPR_OK_def Let_def)
  next
    case (ok a c)
    note inv = root_created_inv [OF assms(1,2) i ok(2), of c]
    have "a + 48 \<noteq> NULL" using pool_inv_accessible [OF inv(1)] by (simp add: accessible_def)
    moreover have "blocks (root_created e a ?i c m) = (a, node_len e ?i) # blocks m"
      by (simp add: root_created_def Let_def)
    moreover note root_created_places [OF assms(1) i ok(2), of c] home_node_exact(5) [OF assms(1) i ok(2)]
    ultimately show ?case using ok(1,3) inv unfolding Let_def by (auto simp: spr_pool_create_def)
  qed
qed

theorem pool_create_establishes_inv_witness:
  "\<exists>i a. pool_inv sample_env sample_mem sample_pool ((\<lambda>_. [])(i := [a])) [] [] \<and>
    unat sample_pool + 216 \<le> unat (pl_mutex (pools sample_mem sample_pool)) \<and>
    unat (pl_mutex (pools sample_mem sample_pool)) + 40 \<le> unat (mn_begin (mnodes sample_mem a))"
proof -
  have "create_request sample_env 1000" by (simp add: create_request_def round_up_def size_constants)
  from pool_create_establishes_inv [OF sample_env_ok(2,1) empty_mem_ok sample_env_ok(3) this]
  show ?thesis unfolding sample_created by (auto simp: sizeof_pool_def sample_pool_def Let_def split: if_splits)
qed

text \<open>The result is null exactly when there is no memory.\<close>

lemma palloc_null_iff:
  assumes "pool_inv e m pool S cl fr" "small_request e n" "spr_palloc e pool n m = Some (a, m')"
  shows "a = NULL \<longleftrightarrow> no_room e pool (spr_align_allocation n) m"
  by (rule palloc_small_cases [OF assms(1,2), of 2])
    (use assms(3) in \<open>auto simp: palloc_depth3 numeral_2_eq_2 hands_out_def\<close>)

text \<open>C31: \<^verbatim>\<open>spr_pcalloc\<close> for a size that the slots serve (rounded up and with the 48 bytes of a
  node header below twenty pages; the sizes above go to \<^verbatim>\<open>malloc\<close> or, with 21 pages, are undefined)
  returns a block whose n bytes are all zero, and writes no byte outside that block. It returns null
  exactly when no memory node of the slots from the one for that size on has room and the system gives
  no new node.\<close>

theorem pcalloc_zeroes:
  assumes "pool_inv e m pool S cl fr" "small_request e n"
  shows "\<exists>a m'. spr_pcalloc e pool n m = Some (a, m') \<and>
    (a = NULL \<longleftrightarrow> (let k = spr_align_allocation n; c = spr_get_npages e k in
      (\<forall>h \<in> set (concat (map S [unat (c - 1)..<SPR_MAX_POOL_SLOT])). mn_size_avail (mnodes m h) < k) \<and>
      sys_alloc e (blocks m) (c * spr_get_page_size e) = NULL)) \<and>
    (a = NULL \<or> 8 dvd unat a \<and> region a n \<inter> used_by m S = {} \<and>
      (\<forall>x. unat x \<in> region a n \<longrightarrow> bytes m' x = 0)) \<and>
    (\<forall>x. unat x \<notin> region a n \<longrightarrow> bytes m' x = bytes m x)"
proof -
  obtain a m' where a: "spr_palloc e pool n m = Some (a, m')" "same_client_memory m m'"
    "a = NULL \<or> 8 dvd unat a \<and> region a n \<inter> used_by m S = {}"
    using palloc_region [OF assms] by blast
  have inv: "page_ok e" "blocks_ok (blocks m)" "nodes_inv e m pool S" using assms(1) by (simp_all add: pool_inv_def)
  note no_room_iff [OF inv(2,1,3) pool_inv_accessible [OF assms(1)] refl small_request_facts(6) [OF inv(1) assms(2)]]
  with a palloc_null_iff [OF assms a(1)] show ?thesis unfolding Let_def
    by (auto simp: spr_pcalloc_def spr_memzero_def in_range_def region_def same_client_memory_def)
qed

theorem pcalloc_zeroes_witness:
  "\<exists>a m'. spr_pcalloc sample_env sample_pool 40 sample_mem = Some (a, m') \<and> a \<noteq> NULL \<and>
    (\<forall>x. unat x \<notin> region a 40 \<longrightarrow> bytes m' x = bytes sample_mem x)"
proof -
  have k: "spr_align_allocation 40 = 40" "spr_get_npages sample_env 40 = 1"
    by (simp_all add: spr_align_allocation_def spr_align_default_def spr_align_def SPR_ALIGN_SIZE_def
      spr_get_npages_def size_constants)
  have h: "\<exists>i \<in> {0..<SPR_MAX_POOL_SLOT}. \<exists>h \<in> set (sample_slots i). \<not> mn_size_avail (mnodes sample_mem h) < 40"
    by (intro bexI [of _ 0] bexI [of _ 4096]) (simp_all add: sample_slots_def sample_fields SPR_MAX_POOL_SLOT_def)
  show ?thesis
    using pcalloc_zeroes [OF sample_inv(1), of 40] h by (auto simp: sample_small round_up_def Let_def k)
qed

section \<open>The properties of cleanups\<close>

lemma cleanup_add2: "spr_pool_cleanup_add1 e pool data h m
    = cleanup_add_depth (Suc (Suc 0)) e pool data h m"
  by (simp add: spr_pool_cleanup_add1_def numeral_2_eq_2)

text \<open>C26: Registering a cleanup puts a node with the given data and handler, distinct from
  every registered one, at the front of the pool's list, takes it from the reserved nodes when
  there is one, and keeps the invariant. There is exactly one exception: when no node is reserved,
  no memory node of the pool has 24 bytes left and the system gives no page, the call has no
  defined result, since it dereferences null.\<close>

theorem cleanup_add_registers:
  assumes "pool_inv e m pool S cl fr"
  shows "if fr = [] \<and> (\<forall>a \<in> set (all_nodes S). mn_size_avail (mnodes m a) < 24) \<and>
       sys_alloc e (blocks m) (spr_get_page_size e) = NULL
    then spr_pool_cleanup_add1 e pool data h m = None
    else \<exists>m' S' c. spr_pool_cleanup_add1 e pool data h m = Some m' \<and> c \<notin> set cl \<and>
      pool_inv e m' pool S' (c # cl) (tl fr) \<and> (fr = [] \<or> c = hd fr) \<and>
      pending m' (c # cl) = (h, data) # pending m cl \<and>
      calls m' = calls m \<and> used_by m S \<subseteq> used_by m' S'"
  unfolding no_cleanup_node_iff [OF assms, symmetric]
proof (rule cleanup_add_cases [OF assms, of 0 data h], goal_cases null ok)
  case null
  then show ?case by (simp add: cleanup_add2)
next
  case (ok m' S' c)
  then have "pending m' (c # cl) = (h, data) # pending m cl" by (auto simp: pending_def)
  with ok(1-3,6,7,13,14) show ?case by (auto simp: cleanup_add2)
qed

theorem cleanup_add_registers_witness:
  "\<exists>m' S' c. spr_pool_cleanup_add1 sample_env sample_pool 77 (H_user 1) sample_mem = Some m' \<and>
     pool_inv sample_env m' sample_pool S' [c] [] \<and> pending m' [c] = [(H_user 1, 77)]"
  using cleanup_add_registers [OF sample_inv(1), of 77 "H_user 1"]
  by (auto simp: sample_slots_def all_nodes_def sample_fields bump_alloc_def pending_def)

text \<open>C11: \<^verbatim>\<open>spr_pool_cleanup_run_all\<close> calls every registered cleanup exactly once, the last
  registered first, and releases exactly the blocks the \<^verbatim>\<open>spr_free\<close> cleanups name; afterwards
  no cleanup is registered, all nodes are reserved in reverse order, the pool's nodes and its
  other state are unchanged and the invariant holds.\<close>

theorem cleanup_run_all_lifo:
  assumes "pool_inv e m pool S cl fr" "releases_ok m pool S (frees (pending m cl))"
  shows "\<exists>m'. spr_pool_cleanup_run_all e pool m = Some m' \<and>
    pool_inv e m' pool S [] (rev cl @ fr) \<and>
    calls m' = calls m @ pending m cl \<and> used_by m' S = used_by m S \<and>
    blocks m' = blocks_without (set (frees (pending m cl))) (blocks m) \<and>
    same_client_memory m m' \<and> mnodes m' = mnodes m"
  by (rule run_all_ok [OF assms]) blast

theorem cleanup_run_all_lifo_witness:
  "\<exists>m'. spr_pool_cleanup_run_all sample_env sample_pool sample_mem2 = Some m' \<and>
    calls m' = [(H_user 1, 77)]"
  using cleanup_run_all_lifo [OF sample_inv2] sample_pending sample_fields2 by auto

text \<open>C25: \<^verbatim>\<open>spr_pool_cleanup_run1\<close> with a registered data and handler runs exactly the first such
  cleanup, removes exactly this one from the list, moves its node to the reserved ones, keeps
  the invariant and leaves the pool unlocked as it was before.\<close>

theorem cleanup_run1_first_match:
  assumes "pool_inv e m pool S cl fr" "find (is_cleanup m data h) cl = Some c"
    "releases_ok m pool S (frees [(h, data)])"
  shows "\<exists>m'. spr_pool_cleanup_run1 e pool data h m = Some m' \<and>
    pool_inv e m' pool S (remove1 c cl) (c # fr) \<and> calls m' = calls m @ [(h, data)] \<and>
    mutexes m' = mutexes m \<and> blocks m' = blocks_without (set (frees [(h, data)])) (blocks m) \<and>
    pending m' (remove1 c cl) = pending m (remove1 c cl)"
  by (rule cleanup_run1_ok [OF assms]) (auto simp: same_client_memory_def)

theorem cleanup_run1_first_match_witness:
  "\<exists>m'. spr_pool_cleanup_run1 sample_env sample_pool 77 (H_user 1) sample_mem2 = Some m' \<and>
    pool_inv sample_env m' sample_pool sample_slots [] [4400] \<and> calls m' = [(H_user 1, 77)]"
  using cleanup_run1_first_match [OF sample_inv2, of 77 "H_user 1" 4400] sample_pending sample_fields2
  by (auto simp: is_cleanup_def pending_def)

text \<open>\<^verbatim>\<open>spr_pool_cleanup_remove1\<close> removes exactly the first registered cleanup with this data
  and handler without running anything.\<close>

theorem cleanup_remove1_first_match:
  assumes "pool_inv e m pool S cl fr" "find (is_cleanup m data h) cl = Some c"
  shows "\<exists>m'. spr_pool_cleanup_remove1 e pool data h m = Some m' \<and>
    pool_inv e m' pool S (remove1 c cl) (c # fr) \<and> calls m' = calls m \<and>
    mutexes m' = mutexes m \<and> blocks m' = blocks m \<and>
    pending m' (remove1 c cl) = pending m (remove1 c cl)"
  by (rule cleanup_remove1_ok [OF assms]) (auto simp: same_client_memory_def)

theorem cleanup_remove1_first_match_witness:
  "\<exists>m'. spr_pool_cleanup_remove1 sample_env sample_pool 77 (H_user 1) sample_mem2 = Some m' \<and>
    pool_inv sample_env m' sample_pool sample_slots [] [4400] \<and> calls m' = []"
  using cleanup_remove1_first_match [OF sample_inv2, of 77 "H_user 1" 4400] sample_pending sample_fields2
  by (auto simp: is_cleanup_def pending_def)

text \<open>When no registered cleanup has this data and handler, \<^verbatim>\<open>spr_pool_cleanup_run1\<close> and
  \<^verbatim>\<open>spr_pool_cleanup_remove1\<close> return early without unlocking: with thread safety the calling
  thread still owns the pool's mutex afterwards, with one more lock than before, and every
  other thread that needs the pool waits for it.\<close>

theorem cleanup_not_found_keeps_lock:
  assumes "pool_inv e m pool S cl fr" "find (is_cleanup m data h) cl = None" "thread_safety e"
  shows "\<exists>m'. spr_pool_cleanup_run1 e pool data h m = Some m' \<and>
    spr_pool_cleanup_remove1 e pool data h m = Some m' \<and>
    mx_owner (mutexes m' (pl_mutex (pools m pool))) = Some (current_thread e) \<and>
    mx_count (mutexes m' (pl_mutex (pools m pool))) =
      Suc (mx_count (mutexes m (pl_mutex (pools m pool)))) \<and>
    (current_thread e' \<noteq> current_thread e \<longrightarrow> thread_safety e' \<longrightarrow>
      pool_lock e' pool m' = None)"
  using cleanup_not_found [OF assms(1,2)] assms(3)
  by (auto simp: locked_def Let_def pool_lock_def load_pool_def mutex_defs)

theorem cleanup_not_found_keeps_lock_witness:
  "\<exists>m'. spr_pool_cleanup_run1 sample_env sample_pool 78 (H_user 1) sample_mem2 = Some m' \<and>
    mx_owner (mutexes m' (pl_mutex (pools sample_mem2 sample_pool))) = Some 7"
  using cleanup_not_found_keeps_lock [OF sample_inv2, of 78 "H_user 1" sample_env]
  by (auto simp: is_cleanup_def sample_mem2_def register_def)

section \<open>The properties of clearing, destroying and sizes\<close>

text \<open>With thread safety, a thread that did not create the pool can neither clear nor
  destroy it: the calls return without any effect.\<close>

theorem foreign_thread_cannot_clear:
  assumes "accessible e (blocks m) pool" "thread_safety e" "pl_owner (pools m pool) \<noteq> current_thread e"
    "0 < fuel"
  shows "spr_pool_clear fuel e pool m = Some m \<and> spr_pool_destroy fuel e pool m = Some m"
proof -
  obtain d where "fuel = Suc d" using assms(4) gr0_implies_Suc by blast
  then show ?thesis
    using not_owner_clear_destroy [OF assms(1), of d] assms(2,3) by (simp add: not_owner_def)
qed

theorem foreign_thread_cannot_clear_witness:
  "spr_pool_clear 2 (sample_env\<lparr>current_thread := 8\<rparr>) sample_pool sample_mem = Some sample_mem"
  using foreign_thread_cannot_clear [of "sample_env\<lparr>current_thread := 8\<rparr>" sample_mem sample_pool 2]
  by (simp add: sample_fields accessible_def in_range_def sample_pool_def sample_fields [unfolded sample_pool_def])

text \<open>The sum over the slots is the sum over all nodes when the measure ignores the slot.\<close>

lemma sum_all_nodes:
  "(\<Sum>j \<leftarrow> xs. \<Sum>x \<leftarrow> S j. g x) = (\<Sum>x \<leftarrow> concat (map S xs). g x)"
  by (induction xs) simp_all

lemma size_parts:
  assumes "node_ok e m i a"
  shows "mn_size (mnodes m a) = mn_size_avail (mnodes m a) + of_nat (card (handed_out m a))"
proof -
  have "of_nat (unat (mn_begin (mnodes m a)) + unat (mn_size (mnodes m a)))
      = (of_nat (unat (mn_first_avail (mnodes m a)) + unat (mn_size_avail (mnodes m a))) :: size)"
    using assms by (simp only: node_ok_def)
  then have "mn_begin (mnodes m a) + mn_size (mnodes m a)
      = mn_first_avail (mnodes m a) + mn_size_avail (mnodes m a)" by simp
  moreover have "mn_first_avail (mnodes m a) = mn_begin (mnodes m a) + of_nat (card (handed_out m a))"
    using assms by (simp add: handed_out_def node_ok_def of_nat_diff)
  ultimately have "mn_begin (mnodes m a) + mn_size (mnodes m a)
      = mn_begin (mnodes m a) + (mn_size_avail (mnodes m a) + of_nat (card (handed_out m a)))"
    by (simp only: ac_simps)
  then show ?thesis by (simp only: add_left_cancel)
qed

lemma of_nat_sums: "of_nat (\<Sum>x \<leftarrow> xs. f x) = (\<Sum>x \<leftarrow> xs. of_nat (f x))"
  by (induction xs) simp_all

lemma card_used:
  assumes "pool_inv e m pool S cl fr"
  shows "of_nat (card (used_by m S)) = (\<Sum>a \<leftarrow> all_nodes S. of_nat (card (handed_out m a)) :: size)"
proof -
  have bl: "blocks_ok (blocks m)" and nd: "nodes_inv e m pool S" using assms by (simp_all add: pool_inv_def)
  have "handed_out m a \<inter> handed_out m b = {}"
    if ab: "a \<in> set (all_nodes S)" "b \<in> set (all_nodes S)" "a \<noteq> b" for a b
  proof -
    obtain i j where ij: "node_ok e m i a" "node_ok e m j b"
      using nodes_inv_slot [OF nd ab(1)] nodes_inv_slot [OF nd ab(2)] by auto
    then have "{unat a..<unat a + unat (node_len e i)} \<inter> {unat b..<unat b + unat (node_len e j)} = {}"
      using ab(3) by (intro blocks_disjoint [OF bl]) (auto simp: node_ok_def)
    then show ?thesis using handed_out_in_block ij by blast
  qed
  then have "card (used_by m S) = (\<Sum>a \<in> set (all_nodes S). card (handed_out m a))"
    unfolding used_by_def by (intro card_UN_disjoint) (auto simp: handed_out_def)
  also have "\<dots> = (\<Sum>a \<leftarrow> all_nodes S. card (handed_out m a))"
    using nd by (simp add: sum_list_distinct_conv_sum_set nodes_inv_def)
  finally show ?thesis by (simp add: of_nat_sums)
qed


lemma pool_sizes_eq:
  assumes "pool_inv e m pool S cl fr"
  shows "spr_pool_get_size e pool m = Some (\<Sum>a \<leftarrow> all_nodes S. mn_size (mnodes m a))"
    "spr_pool_get_free_size e pool m = Some (\<Sum>a \<leftarrow> all_nodes S. mn_size_avail (mnodes m a))"
    "spr_pool_get_total_size e pool m = Some (\<Sum>i \<leftarrow> [0..<20]. \<Sum>a \<leftarrow> S i. node_len e i)"
proof -
  have bl: "blocks_ok (blocks m)" and nd: "nodes_inv e m pool S" and pg: "page_ok e"
    using assms by (simp_all add: pool_inv_def)
  have accn: "\<forall>x \<in> set (all_nodes S). accessible e (blocks m) x"
    using nodes_inv_slot [OF nd] node_ok_accessible [OF bl pg] by blast
  note eq = sum_slots_eq [OF le0 nd accn pool_inv_accessible [OF assms]]
  show "spr_pool_get_size e pool m = Some (\<Sum>a \<leftarrow> all_nodes S. mn_size (mnodes m a))"
    "spr_pool_get_free_size e pool m = Some (\<Sum>a \<leftarrow> all_nodes S. mn_size_avail (mnodes m a))"
    "spr_pool_get_total_size e pool m = Some (\<Sum>i \<leftarrow> [0..<20]. \<Sum>a \<leftarrow> S i. node_len e i)"
    by (simp_all add: spr_pool_get_size_def spr_pool_get_free_size_def spr_pool_get_total_size_def
      eq sum_all_nodes all_nodes_def node_len_def SPR_MAX_POOL_SLOT_def add.commute)
qed

text \<open>C32: The sizes of a pool, each a sum over every node of every slot: \<^verbatim>\<open>spr_pool_get_size\<close> adds up the
  nodes' usable sizes, \<^verbatim>\<open>spr_pool_get_free_size\<close> what is available of them, and
  \<^verbatim>\<open>spr_pool_get_total_size\<close> the blocks they live in. The size is the free size and the number of
  bytes handed out.\<close>

theorem pool_sizes_add_up:
  assumes "pool_inv e m pool S cl fr"
  shows "spr_pool_get_size e pool m = Some (\<Sum>a \<leftarrow> all_nodes S. mn_size (mnodes m a)) \<and>
    spr_pool_get_free_size e pool m = Some (\<Sum>a \<leftarrow> all_nodes S. mn_size_avail (mnodes m a)) \<and>
    spr_pool_get_total_size e pool m = Some (\<Sum>i \<leftarrow> [0..<20]. \<Sum>a \<leftarrow> S i. node_len e i) \<and>
    (\<Sum>a \<leftarrow> all_nodes S. mn_size (mnodes m a)) =
      (\<Sum>a \<leftarrow> all_nodes S. mn_size_avail (mnodes m a)) + of_nat (card (used_by m S))"
proof -
  have nd: "nodes_inv e m pool S" using assms by (simp add: pool_inv_def)
  have parts: "(\<Sum>a \<leftarrow> all_nodes S. mn_size (mnodes m a)) =
      (\<Sum>a \<leftarrow> all_nodes S. mn_size_avail (mnodes m a)) + of_nat (card (used_by m S))"
  proof -
    have "mn_size (mnodes m a) = mn_size_avail (mnodes m a) + of_nat (card (handed_out m a))"
      if "a \<in> set (all_nodes S)" for a
      using nodes_inv_slot [OF nd that] size_parts by blast
    then have "(\<Sum>a \<leftarrow> all_nodes S. mn_size (mnodes m a)) =
        (\<Sum>a \<leftarrow> all_nodes S. mn_size_avail (mnodes m a) + of_nat (card (handed_out m a)))"
      by (intro arg_cong [of _ _ sum_list] map_cong) simp_all
    then show ?thesis by (simp add: sum_list_addf card_used [OF assms])
  qed
  then show ?thesis by (simp add: pool_sizes_eq [OF assms])
qed

theorem pool_sizes_add_up_witness:
  "spr_pool_get_size sample_env sample_pool sample_mem = Some 3792 \<and>
    spr_pool_get_free_size sample_env sample_pool sample_mem = Some 3792 \<and>
    spr_pool_get_total_size sample_env sample_pool sample_mem = Some 4096"
proof -
  let ?g = "\<lambda>i. \<Sum>a \<leftarrow> sample_slots i. node_len sample_env i"
  have "map ?g [1..<20] = map (\<lambda>_. 0) [1..<20]"
    by (intro map_cong) (simp_all add: sample_slots_def)
  then have "sum_list (map ?g [1..<20]) = 0" by (simp only: sum_list_0)
  moreover have "[0..<20] = 0 # [1..<20 :: nat]" by (simp add: upt_rec)
  then have "sum_list (map ?g [0..<20]) = ?g 0 + sum_list (map ?g [1..<20])"
    by (simp only: list.map sum_list.Cons)
  ultimately have "sum_list (map ?g [0..<20]) = 4096" by (simp add: sample_slots_def sample_len)
  moreover have "all_nodes sample_slots = [4096]"
    by (simp add: all_nodes_def sample_slots_def SPR_MAX_POOL_SLOT_def upt_rec)
  ultimately show ?thesis using pool_sizes_add_up [OF sample_inv(1)] by (simp add: sample_fields)
qed

section \<open>At and beyond the last slot\<close>

lemma palloc_depth_small:
  assumes inv: "pool_inv e m pool S cl fr"
    and k: "spr_align_allocation n = k" "k \<noteq> 0" "unat (spr_get_npages e k - 1) \<le> SPR_MAX_POOL_SLOT"
  shows "spr_palloc e pool n m = do {
      (a, m) \<leftarrow> palloc_from_nodes e pool k (spr_get_npages e k) (m\<lparr>mutexes := locked e m pool\<rparr>);
      m \<leftarrow> pool_unlock e pool m; Some (a, m) }"
proof -
  have "lock_ok e m pool" using inv by (simp add: pool_inv_def)
  then have "pool_lock e pool m = Some (m\<lparr>mutexes := locked e m pool\<rparr>)"
    by (rule pool_lock_ok) (rule pool_inv_accessible [OF inv])
  then show ?thesis using k by (simp add: palloc_depth3 palloc_depth.simps Let_def)
qed

text \<open>Requests of twenty-one pages.\<close>

lemma request_21_pages:
  assumes pg: "page_ok e" and n: "(round_up (unat n) + 48) div unat (spr_get_page_size e) = 20"
  shows "spr_align_allocation n \<noteq> 0" "spr_get_npages e (spr_align_allocation n) = 21"
proof -
  let ?p = "unat (spr_get_page_size e)" and ?k = "spr_align_allocation n"
  have "round_up (unat n) + 48 < 21 * ?p"
    using n pg dividend_less_times_div [of ?p "round_up (unat n) + 48"]
    by (simp add: page_ok_def algebra_simps)
  also have "\<dots> \<le> 21 * 2 ^ 32" using pg by (simp add: page_ok_def)
  finally have b: "round_up (unat n) + 48 < 21 * 2 ^ 32" .
  then have k: "unat ?k = round_up (unat n)" by (simp add: align_allocation_value round_up_def)
  then show "?k \<noteq> 0" by (auto simp: round_up_def)
  have "unat (spr_get_npages e ?k) = 21"
    using b k n pg by (subst unat_npages) (auto simp: page_ok_def)
  then show "spr_get_npages e ?k = 21" by (intro unsigned_word_eqI) simp
qed

text \<open>C36: The guard of \<^verbatim>\<open>spr_palloc\<close> lets the slot number 20 through although the array has the
  twenty elements 0 to 19: a request of exactly 21 pages reads and writes \<^verbatim>\<open>nodes[20]\<close>, one past
  the end of the array, as soon as the system gives it memory.\<close>

theorem palloc_slot_20_out_of_bounds:
  assumes inv: "pool_inv e m pool S cl fr"
    and n: "(round_up (unat n) + 48) div unat (spr_get_page_size e) = 20"
    and alloc: "sys_alloc e (blocks m) (21 * spr_get_page_size e) \<noteq> NULL"
  shows "spr_palloc e pool n m = None"
proof -
  let ?m = "m\<lparr>mutexes := locked e m pool\<rparr>" and ?k = "spr_align_allocation n"
  have pg: "page_ok e" and al: "alloc_ok e" and bl: "blocks_ok (blocks ?m)"
    using inv by (simp_all add: pool_inv_def)
  have eq: "spr_palloc e pool n m = do {
      (a, m) \<leftarrow> palloc_from_nodes e pool ?k 21 ?m; m \<leftarrow> pool_unlock e pool m; Some (a, m) }"
    using palloc_depth_small [OF inv refl, of n] request_21_pages [OF pg n]
    by (simp add: SPR_MAX_POOL_SLOT_def)
  have len: "512 \<le> unat (21 * spr_get_page_size e)"
    using node_len_pos [OF pg, of 20] by (simp add: node_len_def mult.commute)
  have fs: "find_slot e pool 20 ?k ?m = Some NULL" by (simp add: find_slot.simps SPR_MAX_POOL_SLOT_def)
  have "sys_alloc e (blocks ?m) (21 * spr_get_page_size e) \<noteq> NULL" using alloc by simp
  with al bl len have "palloc_from_nodes e pool ?k 21 ?m = None"
  proof (cases rule: memnode_allocate_served)
    case (new a c)
    then show ?thesis using fs
      by (auto simp: palloc_from_nodes_def get_slot_def SPR_MAX_POOL_SLOT_def split: Option.bind_split)
  qed
  then show ?thesis unfolding eq by simp
qed

theorem palloc_slot_20_out_of_bounds_witness:
  "spr_palloc sample_env sample_pool 82000 sample_mem = None"
  by (rule palloc_slot_20_out_of_bounds [OF sample_inv(1)])
    (simp_all add: round_up_def sample_fields bump_alloc_def)

text \<open>Requests for which adding the node header wraps: one page, and no node has room for them.\<close>

lemma wrapped_request:
  assumes pg: "page_ok e" and n: "unat n + 7 < 2 ^ 64" "2 ^ 64 \<le> round_up (unat n) + 48"
  shows "spr_get_npages e (spr_align_allocation n) = 1" "2 ^ 63 \<le> unat (spr_align_allocation n)"
    "2 ^ 32 < unat n"
proof -
  let ?k = "spr_align_allocation n"
  have k: "unat ?k = round_up (unat n)" using n by (simp add: align_allocation_value round_up_def)
  have "unat ?k < 2 ^ 64" using unsigned_less [of ?k] by simp
  then have "unat (?k + 48) < 48" using n(2) k by (simp add: unat_word_ariths mod_if) linarith
  then show "spr_get_npages e ?k = 1"
    using pg by (simp add: spr_get_npages_def size_constants Let_def word_less_nat_alt page_ok_def)
  show "2 ^ 63 \<le> unat ?k" "2 ^ 32 < unat n" using n(2) k by (auto simp: round_up_def)
qed

lemma no_node_has_room:
  assumes pg: "page_ok e" and nd: "nodes_inv e m pool S" and bl: "blocks_ok (blocks m)"
    and acc: "accessible e (blocks m) pool" and k: "2 ^ 63 \<le> unat k"
  shows "find_slot e pool 0 k m = Some NULL"
proof -
  have small: "\<not> k \<le> mn_size_avail (mnodes m a)" if a: "a \<in> set (all_nodes S)" for a
  proof -
    obtain i where i: "i < SPR_MAX_POOL_SLOT" "node_ok e m i a" using nodes_inv_slot [OF nd a] by auto
    have "unat (node_len e i) = unat (spr_get_page_size e) * Suc i"
      using node_len_pos [OF pg, of i] i(1) by (simp add: SPR_MAX_POOL_SLOT_def)
    also have "\<dots> \<le> 2 ^ 32 * 20"
      using i(1) pg by (intro mult_le_mono) (simp_all add: SPR_MAX_POOL_SLOT_def page_ok_def)
    finally have "unat (mn_size_avail (mnodes m a)) + unat (mn_first_avail (mnodes m a)) \<le> unat a + 2 ^ 32 * 20"
      "unat a \<le> unat (mn_first_avail (mnodes m a))"
      using i(2) by (auto simp: node_ok_def)
    then have "unat (mn_size_avail (mnodes m a)) \<le> 2 ^ 32 * 20" by linarith
    then show ?thesis using k by (simp add: word_le_nat_alt)
  qed
  then have "find (\<lambda>x. k \<le> mn_size_avail (mnodes m x)) (all_nodes S) = None"
    by (auto simp: find_None_iff)
  then show ?thesis
    using find_slot_first_fit [OF bl pg nd acc le0, of k] by (simp add: all_nodes_def)
qed

text \<open>A request so close to the largest size that adding the node header wraps is taken for a
  request of one page: \<^verbatim>\<open>spr_palloc\<close> returns an address with at most a page behind it as if the
  whole request had been served.\<close>

theorem palloc_wraps_to_one_page:
  assumes inv: "pool_inv e m pool S cl fr"
    and n: "unat n + 7 < 2 ^ 64" "2 ^ 64 \<le> round_up (unat n) + 48"
    and alloc: "sys_alloc e (blocks m) (spr_get_page_size e) \<noteq> NULL"
  shows "\<exists>a m'. spr_palloc e pool n m = Some (a, m') \<and> a \<noteq> NULL \<and>
    blocks m' = (a - 48, spr_get_page_size e) # blocks m \<and> unat (spr_get_page_size e) < unat n"
proof -
  let ?p = "spr_get_page_size e" and ?k = "spr_align_allocation n"
  let ?m = "m\<lparr>mutexes := locked e m pool\<rparr>"
  have pg: "page_ok e" and al: "alloc_ok e" and bl: "blocks_ok (blocks ?m)"
    and nd: "nodes_inv e ?m pool S" and lk: "lock_ok e m pool"
    using inv by (simp_all add: pool_inv_def spr_frame)
  have acc: "accessible e (blocks ?m) pool" using pool_inv_accessible [OF inv] by simp
  have p: "512 \<le> unat ?p" "unat ?p \<le> 2 ^ 32" using pg by (simp_all add: page_ok_def)
  note w = wrapped_request [OF pg n]
  have "?k \<noteq> 0" using w(2) by auto
  then have eq: "spr_palloc e pool n m = do {
      (a, m) \<leftarrow> palloc_from_nodes e pool ?k 1 ?m; m \<leftarrow> pool_unlock e pool m; Some (a, m) }"
    using palloc_depth_small [OF inv refl, of n] w(1) by simp
  have fs: "find_slot e pool (unat (1 - 1 :: size)) ?k ?m = Some NULL"
    using no_node_has_room [OF pg nd bl acc w(2)] by simp
  have "sys_alloc e (blocks ?m) ?p \<noteq> NULL" using alloc by simp
  with al bl p(1) show ?thesis
  proof (cases rule: memnode_allocate_served)
    case (new a c)
    let ?m1 = "with_node pool 0 a ?p c ?m"
    let ?m2 = "?m1\<lparr>mnodes := (mnodes ?m1)(a := taken (mnodes ?m1 a) ?k)\<rparr>"
    have "palloc_from_nodes e pool ?k 1 ?m = Some (a + 48, ?m2)"
      using palloc_from_fresh_node [OF fs _ _ _ new acc] p(1) by (simp add: SPR_MAX_POOL_SLOT_def)
    moreover have "pool_unlock e pool ?m2 = Some (?m2\<lparr>mutexes := mutexes m\<rparr>)"
      using lk acc by (intro pool_unlock_ok [OF lk])
        (auto simp: with_node_def lock_ok_def intro: accessible_Cons)
    moreover have "unat (a + 48) = unat a + 48" using new(2) p by (subst unat_add_exact) auto
    then have "a + 48 \<noteq> NULL" by auto
    ultimately show ?thesis unfolding eq using p w(3) by (simp add: with_node_def)
  qed
qed

theorem palloc_wraps_to_one_page_witness:
  "\<exists>a m'. spr_palloc sample_env sample_pool (- 16) sample_mem = Some (a, m') \<and>
    blocks m' = [(a - 48, 4096), (4096, 4096)]"
  using palloc_wraps_to_one_page [OF sample_inv(1), of "- 16"]
  by (auto simp: round_up_def sample_fields bump_alloc_def)

section \<open>Large requests\<close>

definition large_request :: "env \<Rightarrow> size \<Rightarrow> bool" where
  "large_request e n \<longleftrightarrow> round_up (unat n) + 48 < 2 ^ 64 \<and>
     20 < (round_up (unat n) + 48) div unat (spr_get_page_size e)"

definition unlocked :: "env \<Rightarrow> mem \<Rightarrow> addr \<Rightarrow> bool" where
  "unlocked e m pool \<longleftrightarrow> (thread_safety e \<longrightarrow> mx_owner (mutexes m (pl_mutex (pools m pool))) = None)"

lemma pool_inv_more_blocks:
  assumes inv: "pool_inv e m pool S cl fr" and bl: "blocks_ok (b # blocks m)"
  shows "pool_inv e (m\<lparr>blocks := b # blocks m, memory_counter := c\<rparr>) pool S cl fr"
proof -
  let ?m = "m\<lparr>blocks := b # blocks m, memory_counter := c\<rparr>"
  have "used_by ?m S = used_by m S" by (simp add: used_by_def handed_out_def)
  moreover have "node_ok e ?m i a" if "node_ok e m i a" for i a
    using that by (simp add: node_ok_def)
  ultimately show ?thesis
    using inv bl accessible_Cons
    by (simp add: pool_inv_def nodes_inv_def home_ok_def lock_ok_def cleanups_inv_def del: blocks_ok.simps)
qed

lemma pool_unlock_free:
  assumes "lock_ok e m pool" "unlocked e m pool" "accessible e (blocks m) pool"
  shows "pool_unlock e pool m = Some m"
  using assms by (auto simp: pool_unlock_def load_pool_def mutex_defs unlocked_def lock_ok_def)

text \<open>What a large request does: \<^verbatim>\<open>malloc\<close>, and the registration of \<^verbatim>\<open>spr_free\<close>.\<close>

lemma palloc_large_eq:
  assumes pg: "page_ok e" and n: "large_request e n"
  shows "spr_align_allocation n \<noteq> 0"
    "spr_palloc e pool n m = (case spr_malloc e (spr_align_allocation n) m of (a, m) \<Rightarrow> do {
       m \<leftarrow> (if a \<noteq> NULL then cleanup_add_depth (Suc (Suc 0)) e pool a H_spr_free m else Some m);
       m \<leftarrow> pool_unlock e pool m;
       Some (a, m) })"
proof -
  let ?k = "spr_align_allocation n" and ?p = "unat (spr_get_page_size e)"
  have "unat n + 7 < 2 ^ 64" using n by (simp add: large_request_def round_up_def) linarith
  then have k: "unat ?k = round_up (unat n)" by (simp add: align_allocation_value round_up_def)
  then show nz: "?k \<noteq> 0" by (auto simp: round_up_def)
  have "unat (spr_get_npages e ?k) = (round_up (unat n) + 48) div ?p + 1"
    using n k pg by (subst unat_npages) (auto simp: page_ok_def large_request_def)
  then have "SPR_MAX_POOL_SLOT < unat (spr_get_npages e ?k - 1)"
    using n by (subst unat_diff_exact) (simp_all add: SPR_MAX_POOL_SLOT_def large_request_def)
  with nz show "spr_palloc e pool n m = (case spr_malloc e ?k m of (a, m) \<Rightarrow> do {
       m \<leftarrow> (if a \<noteq> NULL then cleanup_add_depth (Suc (Suc 0)) e pool a H_spr_free m else Some m);
       m \<leftarrow> pool_unlock e pool m;
       Some (a, m) })"
    by (simp add: palloc_depth3 palloc_depth.simps(2) Let_def)
qed

lemma malloc_inv:
  assumes inv: "pool_inv e m pool S cl fr" and n: "large_request e n"
    and a: "sys_alloc e (blocks m) (spr_align_allocation n) \<noteq> NULL"
  shows "blocks_ok ((sys_alloc e (blocks m) (spr_align_allocation n), spr_align_allocation n) # blocks m)"
    "pool_inv e (snd (spr_malloc e (spr_align_allocation n) m)) pool S cl fr"
proof -
  have "page_ok e" "alloc_ok e" "blocks_ok (blocks m)" using inv by (simp_all add: pool_inv_def)
  then show bl: "blocks_ok ((sys_alloc e (blocks m) (spr_align_allocation n), spr_align_allocation n) # blocks m)"
    using a palloc_large_eq(1) n by (simp add: alloc_ok_def del: blocks_ok.simps)
  show "pool_inv e (snd (spr_malloc e (spr_align_allocation n) m)) pool S cl fr"
    using pool_inv_more_blocks [OF inv bl] a by (simp add: spr_malloc_def Let_def)
qed

lemma no_cleanup_node_malloc:
  assumes inv: "pool_inv e m pool S cl fr" and n: "large_request e n"
    and a: "sys_alloc e (blocks m) (spr_align_allocation n) \<noteq> NULL"
  shows "no_cleanup_node e pool (snd (spr_malloc e (spr_align_allocation n) m)) \<longleftrightarrow>
    fr = [] \<and> (\<forall>h \<in> set (all_nodes S). mn_size_avail (mnodes m h) < 24) \<and>
    sys_alloc e ((sys_alloc e (blocks m) (spr_align_allocation n), spr_align_allocation n) # blocks m)
      (spr_get_page_size e) = NULL"
  using a by (simp add: no_cleanup_node_iff [OF malloc_inv(2) [OF assms]]) (simp add: spr_malloc_def Let_def)

lemma palloc_large_cases:
  assumes inv: "pool_inv e m pool S cl fr" and n: "large_request e n" and free: "unlocked e m pool"
  obtains (fail) "spr_palloc e pool n m = Some (NULL, m\<lparr>errno := ENOMEM\<rparr>)"
      "sys_alloc e (blocks m) (spr_align_allocation n) = NULL"
  | (null_node) "spr_palloc e pool n m = None" "sys_alloc e (blocks m) (spr_align_allocation n) \<noteq> NULL"
      "no_cleanup_node e pool (snd (spr_malloc e (spr_align_allocation n) m))"
  | (ok) a m' S' c where "spr_palloc e pool n m = Some (a, m')" "a \<noteq> NULL"
      "blocks_ok ((a, spr_align_allocation n) # blocks m)" "(a, spr_align_allocation n) \<in> set (blocks m')"
      "pool_inv e m' pool S' (c # cl) (tl fr)" "c \<notin> set cl"
      "pending m' (c # cl) = (H_spr_free, a) # pending m cl" "same_client_memory m m'" "calls m' = calls m"
      "set (blocks m) \<subseteq> set (blocks m')" "pool_frame m pool S m' S'"
      "new_blocks m m' (insert a (set (all_nodes S')))" "a \<notin> set (all_nodes S')"
      "c \<in> set fr \<or> {unat c..<unat c + 24} \<inter> used_by m S = {}"
      "a = sys_alloc e (blocks m) (spr_align_allocation n)"
      "\<not> no_cleanup_node e pool (snd (spr_malloc e (spr_align_allocation n) m))"
proof -
  let ?k = "spr_align_allocation n"
  have pg: "page_ok e" and al: "alloc_ok e" and bl: "blocks_ok (blocks m)" and lk: "lock_ok e m pool"
    and nd: "nodes_inv e m pool S" using inv by (simp_all add: pool_inv_def)
  note eq = palloc_large_eq [OF pg n]
  let ?a = "sys_alloc e (blocks m) ?k"
  show thesis
  proof (cases "?a = NULL")
    case True
    have "pool_unlock e pool (m\<lparr>errno := ENOMEM\<rparr>) = Some (m\<lparr>errno := ENOMEM\<rparr>)"
      using lk free pool_inv_accessible [OF inv]
      by (intro pool_unlock_free) (simp_all add: lock_ok_def unlocked_def)
    then show thesis using True by (intro fail) (simp_all add: eq(2) spr_malloc_def)
  next
    case False
    let ?m1 = "m\<lparr>blocks := (?a, ?k) # blocks m, memory_counter := memory_counter m + ?k\<rparr>"
    have bl1: "blocks_ok ((?a, ?k) # blocks m)"
      using al bl False eq(1) by (simp add: alloc_ok_def del: blocks_ok.simps)
    have malloc: "spr_malloc e ?k m = (?a, ?m1)" using False by (simp add: spr_malloc_def Let_def)
    have inv1: "pool_inv e ?m1 pool S cl fr" by (rule pool_inv_more_blocks [OF inv bl1])
    have used1: "used_by ?m1 S = used_by m S" by (simp add: used_by_def handed_out_def)
    have frame1: "pool_frame m pool S ?m1 S" by (simp add: pool_frame_def used_by_def handed_out_def)
    show thesis
    proof (rule cleanup_add_cases [OF inv1, of 0 ?a H_spr_free], goal_cases null ok)
      case null
      show thesis
        by (rule null_node) (use False malloc null in \<open>simp_all add: eq(2)\<close>)
    next
      case (ok m' S' c)
      have "lock_ok e m' pool" "unlocked e m' pool"
        using ok(2,5,8) free by (simp_all add: pool_inv_def unlocked_def same_client_memory_def)
      then have "pool_unlock e pool m' = Some m'"
        by (rule pool_unlock_free [OF _ _ pool_inv_accessible [OF ok(2)]])
      then have call: "spr_palloc e pool n m = Some (?a, m')"
        using False malloc ok(1) by (simp add: eq(2))
      have pend: "pending m' (c # cl) = (H_spr_free, ?a) # pending m cl"
        using ok(3,4) by (auto simp: pending_def)
      have frame: "pool_frame m pool S m' S'"
        using ok(10) by (rule pool_frame_trans [OF frame1]) auto
      have "?a \<notin> set (all_nodes S)" by (rule fresh_block_not_node [OF bl1 pg nd])
      then have "?a \<notin> set (all_nodes S')" using pool_frameD(2) [OF ok(10), of ?a] by auto
      then show ?case
        using bl1 ok(2,3,5,6,9,11,12,13) frame False used1 malloc
        by (intro that(3) [OF call _ _ _ _ _ pend]) (auto simp: same_client_memory_def new_blocks_def)
    qed
  qed
qed

text \<open>C14: A request beyond the slots goes to \<^verbatim>\<open>malloc\<close>: the pool stays in a good state, the new
  block is live and apart from every other block, and \<^verbatim>\<open>spr_free\<close> of it is registered as the
  next cleanup to run, so that clearing or destroying the pool releases it. Exactly when \<^verbatim>\<open>malloc\<close>
  gives nothing the result is null with \<^verbatim>\<open>ENOMEM\<close>, and exactly when it gives the block but no
  cleanup node is reserved, no memory node of the pool has 24 bytes left and the system then gives
  no page, there is no defined result.\<close>

theorem palloc_large_request:
  assumes inv: "pool_inv e m pool S cl fr" and n: "large_request e n" and free: "unlocked e m pool"
  shows "let k = spr_align_allocation n; a = sys_alloc e (blocks m) k in
    if a = NULL then spr_palloc e pool n m = Some (NULL, m\<lparr>errno := ENOMEM\<rparr>)
    else if fr = [] \<and> (\<forall>h \<in> set (all_nodes S). mn_size_avail (mnodes m h) < 24) \<and>
       sys_alloc e ((a, k) # blocks m) (spr_get_page_size e) = NULL
    then spr_palloc e pool n m = None
    else \<exists>m' S' c. spr_palloc e pool n m = Some (a, m') \<and>
      blocks_ok ((a, k) # blocks m) \<and> (a, k) \<in> set (blocks m') \<and>
      pool_inv e m' pool S' (c # cl) (tl fr) \<and>
      pending m' (c # cl) = (H_spr_free, a) # pending m cl"
  unfolding Let_def
proof (rule palloc_large_cases [OF assms], goal_cases fail null ok)
  case fail
  then show ?case by simp
next
  case null
  then show ?case by (simp add: no_cleanup_node_malloc [OF inv n])
next
  case (ok a m' S' c)
  then show ?case by (auto simp: no_cleanup_node_malloc [OF inv n])
qed

theorem palloc_large_request_witness:
  "\<exists>m' S' c. spr_palloc sample_env sample_pool 100000 sample_mem = Some (8192, m') \<and>
     (8192, 100000) \<in> set (blocks m') \<and> pool_inv sample_env m' sample_pool S' [c] [] \<and>
     pending m' [c] = [(H_spr_free, 8192)]"
proof -
  have "large_request sample_env 100000" "unlocked sample_env sample_mem sample_pool"
    by (simp_all add: large_request_def round_up_def unlocked_def sample_fields)
  moreover have "spr_align_allocation 100000 = 100000"
    by (simp add: spr_align_allocation_def spr_align_default_def spr_align_def SPR_ALIGN_SIZE_def spr_size)
  ultimately show ?thesis using palloc_large_request [OF sample_inv(1), of 100000]
    by (simp add: sample_fields bump_alloc_def Let_def pending_def)
qed

section \<open>The order of release in destroying\<close>

lemma pool_gone:
  assumes bl: "blocks_ok (blocks m)" and st: "strict_mem e"
    and b: "(a, n) \<in> set (blocks m)" "unat a \<le> unat pool" "unat pool < unat a + unat n"
  shows "\<not> accessible e (blocks_without {a} (blocks m)) pool"
proof
  assume "accessible e (blocks_without {a} (blocks m)) pool"
  then obtain c k where c: "(c, k) \<in> set (blocks m)" "c \<noteq> a" "in_range c k pool"
    using st by (auto simp: accessible_def list_ex_iff blocks_without_def)
  then have "{unat a..<unat a + unat n} \<inter> {unat c..<unat c + unat k} = {}"
    using blocks_disjoint [OF bl b(1)] by simp
  then show False using b c(3) by (auto simp: in_range_def)
qed

lemma dealloc_slots_single:
  assumes inv: "pool_inv e m pool ((\<lambda>_. [])(i := [a])) cl fr"
    and st: "strict_mem e" "\<not> uses_mmap e" and i: "i < 19" and j: "j \<le> i"
  shows "dealloc_slots e pool j m = None"
  using j
proof (induction j rule: inc_induct)
  let ?S = "(\<lambda>_. [])(i := [a])"
  have bl: "blocks_ok (blocks m)" and nd: "nodes_inv e m pool ?S" and hm: "home_ok e m pool ?S"
    using inv by (simp_all add: pool_inv_def)
  note acc = pool_inv_accessible [OF inv]
  have i20: "i < SPR_MAX_POOL_SLOT" using i by (simp add: SPR_MAX_POOL_SLOT_def)
  have nok: "node_ok e m i a" and ch: "pl_nodes (pools m pool) i = a" "a \<noteq> NULL" "mn_next (mnodes m a) = NULL"
    using nd i20 by (auto simp: nodes_inv_def dest: spec [of _ i])
  have pg: "page_ok e" using inv by (simp add: pool_inv_def)
  have acca: "accessible e (blocks m) a" by (rule node_ok_accessible [OF bl pg i20 nok])
  have blk: "(a, node_len e i) \<in> set (blocks m)" using nok by (simp add: node_ok_def)
  case base
  have "set (all_nodes ?S) = {a}" using i20 by (auto simp: set_all_nodes)
  then have "unat a + 48 \<le> unat pool" "unat pool + unat (sizeof_pool e) \<le> unat (mn_begin (mnodes m a))"
    using hm by (simp_all add: home_ok_def)
  moreover have "0 < unat (sizeof_pool e)" by (simp add: sizeof_pool_def)
  ultimately have "\<not> accessible e (blocks_without {a} (blocks m)) pool"
    using nok by (intro pool_gone [OF bl st(1) blk]) (auto simp: node_ok_def)
  moreover have "spr_free a m = Some (m\<lparr>blocks := blocks_without {a} (blocks m)\<rparr>)"
    using image_eqI [OF _ blk, of a fst] ch(2)
    by (auto simp: spr_free_def blocks_without_def intro!: mem.equality filter_cong)
  ultimately have "dealloc_nodes e a m = Some (m\<lparr>blocks := blocks_without {a} (blocks m)\<rparr>)"
    "dealloc_slots e pool (Suc i) (m\<lparr>blocks := blocks_without {a} (blocks m)\<rparr>) = None"
    using ch acca st(2) i by (simp add: dealloc_nodes.simps load_node_def spr_memnode_deallocate_def)
      (subst dealloc_slots.simps, simp add: get_slot_def load_pool_def SPR_MAX_POOL_SLOT_def i
        \<open>\<not> accessible e (blocks_without {a} (blocks m)) pool\<close>)
  then show ?case using acc i20 ch by (subst dealloc_slots.simps) (simp add: get_slot_def load_pool_def)
next
  case (step j)
  have "j < SPR_MAX_POOL_SLOT" "j \<noteq> i" using step.hyps i by (simp_all add: SPR_MAX_POOL_SLOT_def)
  moreover from this have "pl_nodes (pools m pool) j = NULL"
    using inv by (auto simp: pool_inv_def nodes_inv_def dest: spec [of _ j])
  ultimately show ?case using step.IH pool_inv_accessible [OF inv]
    by (subst dealloc_slots.simps) (simp add: get_slot_def load_pool_def dealloc_nodes.simps)
qed

text \<open>C37: \<^verbatim>\<open>spr_pool_destroy\<close> keeps reading \<^verbatim>\<open>pool->nodes\<close> after it has released the node that
  holds the pool structure: where an access to released memory is undefined, destroying a pool
  with one node (such as every new root pool below the last slot) is undefined.\<close>

theorem destroy_uses_released_pool:
  assumes inv: "pool_inv e m pool ((\<lambda>_. [])(i := [a])) [] fr" and st: "strict_mem e" "\<not> uses_mmap e"
    and i: "i < 19" and leaf: "pl_child (pools m pool) = NULL" and own: "\<not> not_owner e (pools m pool)"
  shows "spr_pool_destroy fuel e pool m = None"
proof (cases fuel)
  case 0
  then show ?thesis by (simp add: spr_pool_destroy_def)
next
  case (Suc d)
  have "releases_ok m pool ((\<lambda>_. [])(i := [a])) (frees (pending m []))"
    by (simp add: releases_ok_def frees_ready_def pending_def)
  then obtain m2 where r: "spr_pool_cleanup_run_all e pool m = Some m2"
    "pool_inv e m2 pool ((\<lambda>_. [])(i := [a])) [] (rev [] @ fr)"
    "\<exists>f. pools m2 = (pools m)(pool := pools m pool\<lparr>pl_free_cleanups := f, pl_cleanups := NULL\<rparr>)"
    by (rule run_all_ok [OF inv])
  have "pl_child (pools m2 pool) = NULL" using r(3) leaf by auto
  then show ?thesis
    using Suc r(1) own pool_inv_accessible [OF inv] pool_inv_accessible [OF r(2)]
      dealloc_slots_single [OF r(2) st i, of 0]
    by (cases d) (simp_all add: spr_pool_destroy_def load_pool_def)
qed

theorem destroy_uses_released_pool_witness:
  "spr_pool_destroy 5 sample_env sample_pool sample_mem = None"
  using destroy_uses_released_pool [OF sample_inv(1) [unfolded sample_slots_def], of 5]
  by (simp add: sample_fields not_owner_def zero_pool_def)

end
