(* ===== verification/Spr_Pool_Step.thy ===== *)
theory Spr_Pool_Step
  imports Spr_Pool_Child Spr_Pool_Props
begin

text \<open>
  One pool among others: what a step of one pool does to a tree of pools, and the good states of a
  tree, which such steps keep.
\<close>

section \<open>What a step of one pool does\<close>

text \<open>\<open>F\<close> are the blocks that handlers of the step have released, \<open>A\<close> the blocks it has taken from
  \<^verbatim>\<open>malloc\<close> and registered for release. All other new blocks are new nodes, and new cleanup nodes lie in new memory.\<close>

definition pool_step :: "env \<Rightarrow> mem \<Rightarrow> view \<Rightarrow> mem \<Rightarrow> view \<Rightarrow> addr set \<Rightarrow> addr set \<Rightarrow> bool" where
  "pool_step e m v m' v' F A \<longleftrightarrow> (case v of (p, S, cl, fr) \<Rightarrow> case v' of (p', S', cl', fr') \<Rightarrow>
     p' = p \<and> pool_inv e m' p S' cl' fr' \<and> pool_frame m p S m' S' \<and> mutexes m' = mutexes m \<and>
     F \<subseteq> set (frees (pending m cl)) \<and> distinct (frees (pending m' cl')) \<and>
     set (frees (pending m' cl')) = set (frees (pending m cl)) - F \<union> A \<and> A \<inter> set (all_nodes S') = {} \<and>
     (\<forall>c \<in> set (cl' @ fr'). c \<in> set (cl @ fr) \<or> {unat c..<unat c + 24} \<inter> used_by m S = {}) \<and>
     (\<forall>b \<in> set (blocks m). fst b \<notin> F \<longrightarrow> b \<in> set (blocks m')) \<and>
     (\<forall>b \<in> set (blocks m'). b \<in> set (blocks m) \<and> fst b \<notin> F \<or>
        fst b \<in> (set (all_nodes S') - set (all_nodes S)) \<union> A) \<and>
     A \<subseteq> fst ` set (blocks m') \<and> A \<inter> fst ` set (blocks m) = {})"

text \<open>The mutex of every pool is free and lies outside the memory that pools hand out.\<close>

definition mutexes_free :: "env \<Rightarrow> mem \<Rightarrow> view list \<Rightarrow> bool" where
  "mutexes_free e m vs \<longleftrightarrow> (\<forall>v \<in> set vs. let x = pl_mutex (pools m (fst v)) in
     if thread_safety e then mx_owner (mutexes m x) = None \<and>
       (\<forall>h \<in> set (vnodes vs). \<forall>n. (h, n) \<in> set (blocks m) \<longrightarrow>
          \<not> (unat (mn_begin (mnodes m h)) \<le> unat x \<and> unat x < unat h + unat n))
     else x = NULL)"

lemma views_okD: "views_ok e m vs \<Longrightarrow> (q, T, dl, gr) \<in> set vs \<Longrightarrow> pool_inv e m q T dl gr"
  by (auto simp: views_ok_def)

text \<open>What another pool needs to stay as it is.\<close>

lemma nodes_kept:
  assumes nd: "nodes_inv e m q T" and pl: "pools m' q = pools m q"
    and mn: "\<And>a. a \<in> set (all_nodes T) \<Longrightarrow> mnodes m' a = mnodes m a"
    and bs: "\<And>a n. a \<in> set (all_nodes T) \<Longrightarrow> (a, n) \<in> set (blocks m) \<Longrightarrow> (a, n) \<in> set (blocks m')"
  shows "nodes_inv e m' q T"
proof -
  have "node_ok e m' i a" if "i < SPR_MAX_POOL_SLOT" "a \<in> set (T i)" for i a
  proof -
    have "a \<in> set (all_nodes T)" "node_ok e m i a" using that nd by (auto simp: set_all_nodes nodes_inv_def)
    then show ?thesis by (simp add: node_ok_def mn bs)
  qed
  moreover have "chain (\<lambda>a. mn_next (mnodes m' a)) b (T i) = chain (\<lambda>a. mn_next (mnodes m a)) b (T i)"
    if "i < SPR_MAX_POOL_SLOT" for b i
    using that by (intro chain_cong, subst mn) (auto simp: set_all_nodes)
  ultimately show ?thesis using nd pl by (auto simp: nodes_inv_def)
qed

lemma pool_inv_kept:
  assumes inv: "pool_inv e m q T dl gr" and bl: "blocks_ok (blocks m')" and lk: "lock_ok e m' q"
    and pl: "pools m' q = pools m q"
    and mn: "\<And>a. a \<in> set (all_nodes T) \<Longrightarrow> mnodes m' a = mnodes m a"
    and bs: "\<And>a n. a \<in> set (all_nodes T) \<Longrightarrow> (a, n) \<in> set (blocks m) \<Longrightarrow> (a, n) \<in> set (blocks m')"
    and cn: "\<And>c. c \<in> set (dl @ gr) \<Longrightarrow> cnodes m' c = cnodes m c"
  shows "pool_inv e m' q T dl gr"
proof -
  have nd: "nodes_inv e m q T" and hm: "home_ok e m q T" and cl: "cleanups_inv m q T dl gr"
    using inv by (simp_all add: pool_inv_def)
  have nd': "nodes_inv e m' q T" by (rule nodes_kept [OF nd pl mn bs])
  have used: "used_by m' T = used_by m T" by (simp add: used_by_def handed_out_def mn)
  have hm': "home_ok e m' q T" using hm by (auto simp: home_ok_def mn)
  have "chain (\<lambda>a. cn_next (cnodes m' a)) b xs = chain (\<lambda>a. cn_next (cnodes m a)) b xs"
    if "set xs \<subseteq> set (dl @ gr)" for b xs
    using that cn by (intro chain_cong) auto
  then have "cleanups_inv m' q T dl gr" using cl pl used by (auto simp: cleanups_inv_def)
  then show ?thesis using inv nd' hm' bl lk by (simp add: pool_inv_def)
qed

lemma releases_allD:
  assumes "releases_all m vs"
  shows "distinct (frees (vpending m vs))"
    "d \<in> set (frees (vpending m vs)) \<Longrightarrow> d \<notin> set (vnodes vs) \<and> d \<noteq> NULL \<and> d \<in> fst ` set (blocks m)"
    "v \<in> set vs \<Longrightarrow> b \<in> set (blocks m) \<Longrightarrow> fst b \<in> set (frees (vpending m vs)) \<Longrightarrow>
      \<not> in_range (fst b) (snd b) (pl_mutex (pools m (fst v)))"
  using assms unfolding releases_all_def Let_def frees_ready_def by blast+

text \<open>A live block that is not released stays accessible.\<close>

lemma accessible_live:
  assumes "accessible e bs x" "strict_mem e" "\<And>b. b \<in> set bs \<Longrightarrow> in_range (fst b) (snd b) x \<Longrightarrow> b \<in> set bs'"
  shows "accessible e bs' x"
  using assms by (fastforce simp: accessible_def list_ex_iff)

lemma step_others:
  assumes vs: "views_ok e m (us @ v # ws)" and rel: "releases_all m (us @ v # ws)" and st: "strict_mem e"
    and step: "pool_step e m v m' v' F A" and w: "(q, T, dl, gr) \<in> set (us @ ws)"
  shows "q \<noteq> fst v" "pool_inv e m' q T dl gr" "pools m' q = pools m q" "pending m' dl = pending m dl"
    "\<forall>a \<in> set (all_nodes T). mnodes m' a = mnodes m a"
    "set (all_nodes T) \<inter> set (all_nodes (fst (snd v'))) = {}"
proof -
  obtain p S cl fr where v: "v = (p, S, cl, fr)" by (cases v)
  obtain p' S' cl' fr' where v': "v' = (p', S', cl', fr')" by (cases v')
  note s = step [unfolded pool_step_def v v' prod.case]
  have inv: "pool_inv e m p S cl fr" "pool_inv e m q T dl gr"
    using views_okD [OF vs] w v by auto
  have dis: "set (all_nodes S) \<inter> set (all_nodes T) = {}"
    using vs views_member w unfolding v views_ok_def by fastforce
  show "q \<noteq> fst v" using pools_apart(1) [OF inv dis] v by simp
  have nd: "nodes_inv e m q T" and nd': "nodes_inv e m' p S'" and bl': "blocks_ok (blocks m')"
    using inv(2) s by (simp_all add: pool_inv_def)
  have frame: "pool_frame m p S m' S'" using s by simp
  have live: "a \<in> fst ` set (blocks m)" if a: "a \<in> set (all_nodes T)" for a
  proof -
    obtain n where "(a, n) \<in> set (blocks m)" by (rule node_block [OF nd a])
    then show ?thesis by force
  qed
  then have dis': "set (all_nodes T) \<inter> set (all_nodes S') = {}"
    using pool_frameD(2) [OF frame] dis by blast
  then show "set (all_nodes T) \<inter> set (all_nodes (fst (snd v'))) = {}" by (simp add: v')
  have mn: "mnodes m' a = mnodes m a" if "a \<in> set (all_nodes T)" for a
    using pool_frameD(3) [OF frame] dis' that by blast
  then show "\<forall>a \<in> set (all_nodes T). mnodes m' a = mnodes m a" by blast
  have pl: "pools m' q = pools m q" using pool_frameD(6) [OF frame] pools_apart(1) [OF inv dis] by simp
  then show "pools m' q = pools m q" .
  note rels = releases_allD [OF rel]
  have F: "F \<subseteq> set (frees (vpending m (us @ v # ws)))" using s by (auto simp: v)
  have "(q, T, dl, gr) \<in> set (us @ v # ws)" using w by auto
  then have "set (all_nodes T) \<subseteq> set (vnodes (us @ v # ws))" by (intro views_member [THEN conjunct1])
  then have notF: "a \<notin> F" if "a \<in> set (all_nodes T)" for a using F rels(2) that by blast
  have bs: "(a, n) \<in> set (blocks m')" if "a \<in> set (all_nodes T)" "(a, n) \<in> set (blocks m)" for a n
    using s notF [OF that(1)] that(2) by simp
  have used: "used_by m' T = used_by m T" by (simp add: used_by_def handed_out_def mn)
  have lk: "lock_ok e m' q"
  proof -
    have "b \<in> set (blocks m')" if "b \<in> set (blocks m)" "in_range (fst b) (snd b) (pl_mutex (pools m q))" for b
    proof -
      have "fst b \<notin> F" using rels(3) [OF \<open>(q, T, dl, gr) \<in> set (us @ v # ws)\<close> that(1)] F that(2) by auto
      then show ?thesis using s that(1) by simp
    qed
    then have "accessible e (blocks m') (pl_mutex (pools m q))"
      if "accessible e (blocks m) (pl_mutex (pools m q))"
      using accessible_live [OF that st] by blast
    then show ?thesis using inv(2) s by (simp add: pool_inv_def lock_ok_def pl)
  qed
  have nT: "nodes_inv e m' q T" by (rule nodes_kept [OF nd pl mn bs])
  have cn: "cnodes m' c = cnodes m c" if "c \<in> set (dl @ gr)" for c
  proof -
    have "unat c \<in> used_by m' T" using inv(2) that cleanup_in_use unfolding used pool_inv_def by blast
    then have "unat c \<notin> used_by m' S'" using used_apart [OF nT nd' bl' dis'] by blast
    then show ?thesis by (rule pool_frameD(5) [OF frame])
  qed
  then show "pending m' dl = pending m dl" by (intro pending_cong) simp
  show "pool_inv e m' q T dl gr" by (rule pool_inv_kept [OF inv(2) bl' lk pl mn bs cn])
qed

section \<open>Good states of a tree of pools\<close>

text \<open>The tree keeps its invariant, what its cleanups release is there to be released, the calling thread
  owns every pool and may lock it, and apart from the memory of the tree exactly the blocks \<open>B\<close> live.\<close>

definition outside_blocks :: "mem \<Rightarrow> view list \<Rightarrow> (addr \<times> size) set" where
  "outside_blocks m vs = {b \<in> set (blocks m). fst b \<notin> set (vnodes vs) \<union> set (frees (vpending m vs))}"

definition good_views :: "env \<Rightarrow> (addr \<times> size) set \<Rightarrow> mem \<Rightarrow> view list \<Rightarrow> bool" where
  "good_views e B m vs \<longleftrightarrow> views_ok e m vs \<and> releases_all m vs \<and> owned e m vs \<and> mutexes_free e m vs \<and>
     outside_blocks m vs = B"

lemma frees_in_range_unique:
  assumes "blocks_ok bs" "(a, n) \<in> set bs" "(b, k) \<in> set bs" "in_range a n x" "in_range b k x"
  shows "a = b"
proof (rule ccontr)
  assume "a \<noteq> b"
  then have "apart (a, n) (b, k)" using blocks_ok_apart [OF assms(1-3)] by simp
  then show False using assms(4,5) by (auto simp: in_range_def)
qed

text \<open>The mutex of a pool lies in an old block, and so in none of the new ones.\<close>

lemma mutex_not_in_new:
  assumes vs: "views_ok e m (us @ v # ws)" and rel: "releases_all m (us @ v # ws)" and st: "strict_mem e"
    and mx: "mutexes_free e m (us @ v # ws)" and step: "pool_step e m v m' v' F A"
    and w: "w \<in> set (us @ v # ws)" and b: "b \<in> set (blocks m')" "fst b \<notin> fst ` set (blocks m)"
  shows "\<not> in_range (fst b) (snd b) (pl_mutex (pools m (fst w)))"
proof
  obtain p S cl fr where v: "v = (p, S, cl, fr)" by (cases v)
  obtain p' S' cl' fr' where v': "v' = (p', S', cl', fr')" by (cases v')
  obtain q T dl gr where w': "w = (q, T, dl, gr)" by (cases w)
  note s = step [unfolded pool_step_def v v' prod.case]
  have bl': "blocks_ok (blocks m')" using s by (simp add: pool_inv_def)
  let ?x = "pl_mutex (pools m (fst w))"
  assume in_b: "in_range (fst b) (snd b) ?x"
  show False
  proof (cases "thread_safety e")
    case True
    have "pool_inv e m q T dl gr" using views_okD [OF vs] w w' by blast
    then have "accessible e (blocks m) ?x" using True by (simp add: pool_inv_def lock_ok_def w')
    then obtain c k where c: "(c, k) \<in> set (blocks m)" "in_range c k ?x"
      using st by (auto simp: accessible_def list_ex_iff)
    have "F \<subseteq> set (frees (vpending m (us @ v # ws)))" using s by (auto simp: v)
    then have "c \<notin> F" using releases_allD(3) [OF rel w c(1)] c(2) by auto
    then have "(c, k) \<in> set (blocks m')" using s c(1) by simp
    then have "c = fst b" using frees_in_range_unique [OF bl' _ _ c(2) in_b] b(1) by (cases b) simp
    moreover have "c \<in> fst ` set (blocks m)" using c(1) by force
    ultimately show False using b(2) by simp
  next
    case False
    then have "?x = NULL" using mx w by (auto simp: mutexes_free_def Let_def)
    moreover have "fst b \<noteq> NULL" using blocks_okD [OF bl' b(1)] by (cases b) simp
    ultimately show False using in_b by (simp add: in_range_def unat_eq_0)
  qed
qed

lemma vnodes_member: "x \<in> set (vnodes vs) \<longleftrightarrow> (\<exists>q T dl gr. (q, T, dl, gr) \<in> set vs \<and> x \<in> set (all_nodes T))"
  by (force simp: vnodes_def)

lemma step_old_block:
  assumes "pool_step e m v m' v' F A" "b \<in> set (blocks m')" "fst b \<in> fst ` set (blocks m)"
  shows "b \<in> set (blocks m)"
proof -
  obtain p S cl fr where v: "v = (p, S, cl, fr)" by (cases v)
  obtain p' S' cl' fr' where v': "v' = (p', S', cl', fr')" by (cases v')
  note s = assms(1) [unfolded pool_step_def v v' prod.case]
  have "fst b \<notin> set (all_nodes S') - set (all_nodes S)"
    using pool_frameD(2) [of m p S m' S' "fst b"] s assms(3) by blast
  moreover have "fst b \<notin> A" using s assms(3) by blast
  ultimately show ?thesis using s assms(2) by blast
qed

lemma step_place:
  assumes "views_ok e m (us @ v # ws)" "releases_all m (us @ v # ws)" "strict_mem e"
    "pool_step e m v m' v' F A" and w: "w \<in> set (us @ v # ws)"
  shows "same_place (pools m (fst w)) (pools m' (fst w))"
proof (cases "w = v")
  case True
  then show ?thesis using assms(4) pool_frameD(7) by (auto simp: pool_step_def split: prod.splits)
next
  case False
  then have "w \<in> set (us @ ws)" using w by auto
  then have "pools m' (fst w) = pools m (fst w)"
    using step_others(3) [OF assms(1-4), of "fst w"] by (metis prod.collapse)
  then show ?thesis by simp
qed

lemma step_pending:
  assumes "views_ok e m (us @ v # ws)" "releases_all m (us @ v # ws)" "strict_mem e"
    "pool_step e m v m' v' F A"
  shows "vpending m' us = vpending m us" "vpending m' ws = vpending m ws"
proof -
  have "vpending m' xs = vpending m xs" if "set xs \<subseteq> set (us @ ws)" for xs
    using that step_others(4) [OF assms] by (induction xs) (auto simp: vpending_def)
  then show "vpending m' us = vpending m us" "vpending m' ws = vpending m ws" by simp_all
qed

lemma step_views_ok:
  assumes vs: "views_ok e m (us @ v # ws)" and "releases_all m (us @ v # ws)" "strict_mem e"
    and step: "pool_step e m v m' v' F A"
  shows "views_ok e m' (us @ v' # ws)"
proof -
  obtain p S cl fr where v: "v = (p, S, cl, fr)" by (cases v)
  obtain p' S' cl' fr' where v': "v' = (p', S', cl', fr')" by (cases v')
  note oth = step_others [OF assms]
  have inv': "pool_inv e m' p' S' cl' fr'" using step by (simp add: pool_step_def v v')
  have "pool_inv e m' q T dl gr" if "(q, T, dl, gr) \<in> set (us @ v' # ws)" for q T dl gr
    using that inv' oth(2) v' by auto
  moreover have "set (vnodes xs) \<inter> set (all_nodes S') = {}" if xs: "set xs \<subseteq> set (us @ ws)" for xs
  proof (rule Int_emptyI)
    fix x assume "x \<in> set (vnodes xs)" "x \<in> set (all_nodes S')"
    moreover from this(1) obtain q T dl gr where "(q, T, dl, gr) \<in> set xs" "x \<in> set (all_nodes T)"
      unfolding vnodes_member by blast
    moreover from this(1) have "(q, T, dl, gr) \<in> set (us @ ws)" using xs by blast
    ultimately show False using oth(6) by (simp add: v') blast
  qed
  then have "set (vnodes us) \<inter> set (all_nodes S') = {}" "set (vnodes ws) \<inter> set (all_nodes S') = {}" by simp_all
  moreover have "distinct (all_nodes S')" using inv' by (simp add: pool_inv_def nodes_inv_def)
  ultimately show ?thesis using vs by (auto simp: views_ok_def v v')
qed

lemma step_releases:
  assumes vs: "views_ok e m (us @ v # ws)" and rel: "releases_all m (us @ v # ws)" and st: "strict_mem e"
    and mx: "mutexes_free e m (us @ v # ws)" and step: "pool_step e m v m' v' F A"
  shows "releases_all m' (us @ v' # ws)"
proof -
  obtain p S cl fr where v: "v = (p, S, cl, fr)" by (cases v)
  obtain p' S' cl' fr' where v': "v' = (p', S', cl', fr')" by (cases v')
  let ?vs = "us @ v # ws" and ?vs' = "us @ v' # ws"
  let ?D = "set (frees (vpending m us)) \<union> set (frees (vpending m ws))"
  let ?f = "frees (pending m cl)" and ?g = "frees (pending m' cl')"
  note s = step [unfolded pool_step_def v v' prod.case] and rels = releases_allD [OF rel]
  have g: "set ?g = set ?f - F \<union> A" "distinct ?g" "A \<inter> fst ` set (blocks m) = {}" "A \<subseteq> fst ` set (blocks m')"
    "A \<inter> set (all_nodes S') = {}" "F \<subseteq> set ?f"
    and frame: "pool_frame m p S m' S'" and kept: "\<And>b. b \<in> set (blocks m) \<Longrightarrow> fst b \<notin> F \<Longrightarrow> b \<in> set (blocks m')"
    using s by simp_all
  have ds: "frees (vpending m' ?vs') = frees (vpending m us) @ ?g @ frees (vpending m ws)"
    using step_pending [OF vs rel st step] by (simp add: v')
  have old: "x \<notin> set (vnodes us) \<union> set (all_nodes S) \<union> set (vnodes ws)" "x \<noteq> NULL" "x \<in> fst ` set (blocks m)"
    if "x \<in> ?D \<union> set ?f" for x using rels(2) [of x] that by (auto simp: v)
  have d: "distinct (frees (vpending m us) @ ?f @ frees (vpending m ws))" using rels(1) by (simp add: v)
  have notF: "x \<notin> F" if "x \<in> ?D" for x using d g(6) that by auto
  have notA: "x \<notin> A" if "x \<in> ?D" for x using old(3) [of x] g(3) that by blast
  have dist: "distinct (frees (vpending m' ?vs'))" unfolding ds using d g(1,2) notA by auto
  have live': "x \<in> fst ` set (blocks m')" if "x \<in> fst ` set (blocks m)" "x \<notin> F" for x using that kept by force
  have nS': "x \<notin> set (all_nodes S')" if "x \<in> ?D \<union> set ?f" for x
    using old [OF that] pool_frameD(2) [OF frame] by blast
  have A: "x \<notin> set (vnodes us) \<union> set (vnodes ws)" if "x \<in> A" for x
  proof
    assume "x \<in> set (vnodes us) \<union> set (vnodes ws)"
    then obtain q T dl gr where q: "(q, T, dl, gr) \<in> set ?vs" "x \<in> set (all_nodes T)"
      unfolding vnodes_member Un_iff by auto
    then have "nodes_inv e m q T" using views_okD [OF vs] by (simp add: pool_inv_def)
    then obtain n where "(x, n) \<in> set (blocks m)" using q(2) node_block by blast
    then show False using g(3) that by force
  qed
  have "blocks_ok (blocks m')" using s by (simp add: pool_inv_def)
  then have nz: "x \<noteq> NULL" if "x \<in> fst ` set (blocks m')" for x using that blocks_okD by force
  have all: "x \<in> ?D \<union> (set ?f - F \<union> A)" if "x \<in> set (frees (vpending m' ?vs'))" for x
    using that unfolding ds by (auto simp: g(1))
  have "x \<notin> set (vnodes ?vs') \<and> x \<noteq> NULL \<and> x \<in> fst ` set (blocks m')" if "x \<in> set (frees (vpending m' ?vs'))" for x
  proof (cases "x \<in> A")
    case True
    then have "x \<in> fst ` set (blocks m')" using g(4) by blast
    then show ?thesis using A [OF True] g(5) nz True by (auto simp: v')
  next
    case False
    then have x: "x \<in> ?D \<union> set ?f" "x \<notin> F" using all [OF that] notF by auto
    then show ?thesis using old [OF x(1)] nS' [OF x(1)] live' by (auto simp: v')
  qed
  moreover have "\<not> in_range (fst b) (snd b) (pl_mutex (pools m' (fst w)))"
    if "w \<in> set ?vs'" "b \<in> set (blocks m')" "fst b \<in> set (frees (vpending m' ?vs'))" for w b
  proof -
    define u where "u = (if w = v' then v else w)"
    have u: "u \<in> set ?vs" "fst u = fst w" using that(1) s by (auto simp: u_def v v')
    have pl: "pl_mutex (pools m' (fst w)) = pl_mutex (pools m (fst u))"
      using step_place [OF vs rel st step u(1)] u(2) by (simp add: same_place_def)
    show ?thesis
    proof (cases "fst b \<in> fst ` set (blocks m)")
      case True
      have "fst b \<notin> A" using True g(3) by blast
      then have "fst b \<in> set (frees (vpending m ?vs))" using all [OF that(3)] by (auto simp: v)
      moreover have "b \<in> set (blocks m)" using step_old_block [OF step that(2) True] .
      ultimately show ?thesis unfolding pl by (intro rels(3) [OF u(1)])
    next
      case False
      then show ?thesis unfolding pl by (rule mutex_not_in_new [OF vs rel st mx step u(1) that(2)])
    qed
  qed
  ultimately show ?thesis using dist unfolding releases_all_def Let_def frees_ready_def by blast
qed

lemma step_mutexes:
  assumes vs: "views_ok e m (us @ v # ws)" and rel: "releases_all m (us @ v # ws)" and st: "strict_mem e"
    and mx: "mutexes_free e m (us @ v # ws)" and step: "pool_step e m v m' v' F A"
  shows "mutexes_free e m' (us @ v' # ws)"
proof -
  obtain p S cl fr where v: "v = (p, S, cl, fr)" by (cases v)
  obtain p' S' cl' fr' where v': "v' = (p', S', cl', fr')" by (cases v')
  let ?vs = "us @ v # ws" and ?vs' = "us @ v' # ws"
  note s = step [unfolded pool_step_def v v' prod.case]
  have frame: "pool_frame m p S m' S'" using s by simp
  have "if thread_safety e then mx_owner (mutexes m' x) = None \<and>
      (\<forall>h \<in> set (vnodes ?vs'). \<forall>n. (h, n) \<in> set (blocks m') \<longrightarrow>
        \<not> (unat (mn_begin (mnodes m' h)) \<le> unat x \<and> unat x < unat h + unat n)) else x = NULL"
    if w: "w \<in> set ?vs'" and x: "x = pl_mutex (pools m' (fst w))" for w x
  proof -
    define u where "u = (if w = v' then v else w)"
    have u: "u \<in> set ?vs" "fst u = fst w" using w s by (auto simp: u_def v v')
    have pl: "x = pl_mutex (pools m (fst u))"
      using step_place [OF vs rel st step u(1)] u(2) x by (simp add: same_place_def)
    have mx': "if thread_safety e then mx_owner (mutexes m x) = None \<and>
        (\<forall>h \<in> set (vnodes ?vs). \<forall>n. (h, n) \<in> set (blocks m) \<longrightarrow>
          \<not> (unat (mn_begin (mnodes m h)) \<le> unat x \<and> unat x < unat h + unat n)) else x = NULL"
      using mx u(1) unfolding mutexes_free_def Let_def pl by blast
    have "\<not> (unat (mn_begin (mnodes m' h)) \<le> unat x \<and> unat x < unat h + unat n)"
      if h: "h \<in> set (vnodes ?vs')" "(h, n) \<in> set (blocks m')" "thread_safety e" for h n
    proof (cases "h \<in> fst ` set (blocks m)")
      case True
      then have hn: "(h, n) \<in> set (blocks m)" using step_old_block [OF step h(2)] by simp
      have hv: "h \<in> set (vnodes ?vs)"
        using h(1) pool_frameD(2) [OF frame] True by (auto simp: v v')
      have "mn_begin (mnodes m' h) = mn_begin (mnodes m h)"
      proof (cases "h \<in> set (all_nodes S)")
        case False
        then obtain q T dl gr where "(q, T, dl, gr) \<in> set (us @ ws)" "h \<in> set (all_nodes T)"
          using hv unfolding v views_simps set_append Un_iff vnodes_member by fastforce
        then show ?thesis using step_others(5) [OF vs rel st step] by simp
      qed (rule pool_frameD(8) [OF frame])
      then show ?thesis using mx' hv hn h(3) by simp
    next
      case False
      have "\<not> in_range h n x"
        using mutex_not_in_new [OF vs rel st mx step u(1) h(2)] False pl by simp
      moreover obtain q T dl gr where "(q, T, dl, gr) \<in> set ?vs'" "h \<in> set (all_nodes T)"
        using h(1) unfolding vnodes_member by blast
      then have "nodes_inv e m' q T" "h \<in> set (all_nodes T)"
        using views_okD [OF step_views_ok [OF vs rel st step]] by (auto simp: pool_inv_def)
      then have "unat h + 48 \<le> unat (mn_begin (mnodes m' h))" by (rule node_block)
      ultimately show ?thesis by (auto simp: in_range_def)
    qed
    then show ?thesis using mx' s by (simp split: if_splits)
  qed
  then show ?thesis unfolding mutexes_free_def Let_def by blast
qed

lemma step_outside:
  assumes vs: "views_ok e m (us @ v # ws)" and rel: "releases_all m (us @ v # ws)" and st: "strict_mem e"
    and step: "pool_step e m v m' v' F A"
  shows "outside_blocks m' (us @ v' # ws) = outside_blocks m (us @ v # ws)"
proof -
  obtain p S cl fr where v: "v = (p, S, cl, fr)" by (cases v)
  obtain p' S' cl' fr' where v': "v' = (p', S', cl', fr')" by (cases v')
  note s = step [unfolded pool_step_def v v' prod.case]
  let ?vs = "us @ v # ws" and ?vs' = "us @ v' # ws"
  have frame: "pool_frame m p S m' S'" using s by simp
  have g: "set (frees (pending m' cl')) = set (frees (pending m cl)) - F \<union> A" "F \<subseteq> set (frees (pending m cl))"
    "A \<inter> fst ` set (blocks m) = {}" using s by simp_all
  have in': "fst b \<in> set (vnodes ?vs') \<union> set (frees (vpending m' ?vs')) \<longleftrightarrow>
      fst b \<in> set (vnodes us) \<union> set (all_nodes S') \<union> set (vnodes ws) \<union> set (frees (vpending m us)) \<union>
        set (frees (vpending m ws)) \<union> (set (frees (pending m cl)) - F \<union> A)" for b :: "addr \<times> size"
    using step_pending [OF vs rel st step] g(1) by (auto simp: v')
  have in0: "fst b \<in> set (vnodes ?vs) \<union> set (frees (vpending m ?vs)) \<longleftrightarrow>
      fst b \<in> set (vnodes us) \<union> set (all_nodes S) \<union> set (vnodes ws) \<union> set (frees (vpending m us)) \<union>
        set (frees (vpending m ws)) \<union> set (frees (pending m cl))" for b :: "addr \<times> size"
    by (auto simp: v)
  have sub: "set (all_nodes S) \<subseteq> set (all_nodes S')" by (rule pool_frameD(1) [OF frame])
  have "b \<in> outside_blocks m' ?vs' \<longleftrightarrow> b \<in> outside_blocks m ?vs" for b
  proof
    assume "b \<in> outside_blocks m' ?vs'"
    then have b: "b \<in> set (blocks m')" "fst b \<notin> set (all_nodes S')" "fst b \<notin> A"
      and out: "fst b \<notin> set (vnodes ?vs') \<union> set (frees (vpending m' ?vs'))"
      by (auto simp: outside_blocks_def v' g(1))
    then have "b \<in> set (blocks m) \<and> fst b \<notin> F" using s by blast
    then show "b \<in> outside_blocks m ?vs"
      using out sub unfolding outside_blocks_def mem_Collect_eq in' in0 by blast
  next
    assume "b \<in> outside_blocks m ?vs"
    then have b: "b \<in> set (blocks m)"
      and out: "fst b \<notin> set (vnodes ?vs) \<union> set (frees (vpending m ?vs))"
      by (auto simp: outside_blocks_def)
    then have "fst b \<notin> F" "fst b \<notin> A" "fst b \<notin> set (all_nodes S')"
      using g pool_frameD(2) [OF frame] unfolding in0 by blast+
    moreover from this(1) b have "b \<in> set (blocks m')" using s by blast
    ultimately show "b \<in> outside_blocks m' ?vs'"
      using out unfolding outside_blocks_def mem_Collect_eq in' in0 by blast
  qed
  then show ?thesis by blast
qed

lemma step_owned:
  assumes "views_ok e m (us @ v # ws)" "releases_all m (us @ v # ws)" "strict_mem e"
    and own: "owned e m (us @ v # ws)" and step: "pool_step e m v m' v' F A"
  shows "owned e m' (us @ v' # ws)"
proof -
  have "\<not> not_owner e (pools m' (fst w))" if "w \<in> set (us @ v' # ws)" for w
  proof -
    define u where "u = (if w = v' then v else w)"
    have u: "u \<in> set (us @ v # ws)" "fst u = fst w"
      using that step by (auto simp: u_def pool_step_def split: prod.splits)
    have "pl_owner (pools m' (fst w)) = pl_owner (pools m (fst w))"
      using step_place [OF assms(1-3) step u(1)] u(2) by (simp add: same_place_def)
    moreover have "\<not> not_owner e (pools m (fst u))" using own u(1) unfolding owned_def by blast
    then have "\<not> not_owner e (pools m (fst w))" unfolding u(2) .
    ultimately show ?thesis by (simp add: not_owner_def)
  qed
  then show ?thesis by (simp add: owned_def)
qed

text \<open>A step of one pool keeps the state good.\<close>

lemma step_good:
  assumes "good_views e B m (us @ v # ws)" "strict_mem e" "pool_step e m v m' v' F A"
  shows "good_views e B m' (us @ v' # ws)"
  using assms step_views_ok [OF _ _ assms(2,3)] step_releases [OF _ _ assms(2) _ assms(3)]
    step_mutexes [OF _ _ assms(2) _ assms(3)] step_outside [OF _ _ assms(2,3)] step_owned [OF _ _ assms(2) _ assms(3)]
  unfolding good_views_def by blast

end
