(* ===== verification/Spr_Pool_Good.thy ===== *)
theory Spr_Pool_Good
  imports Spr_Pool_Step
begin

text \<open>
  Good trees of pools: every operation of a pool is a step of its pool in the sense of
  \<^verbatim>\<open>Spr_Pool_Step\<close>, so it keeps a tree good, and so does writing to memory that a pool has
  handed out.
\<close>

section \<open>One pool of a tree\<close>

text \<open>The tree after one of its pools has a new view, at the same place.\<close>

fun put_view :: "view \<Rightarrow> ptree \<Rightarrow> ptree" where
  "put_view (p, S, cl, fr) (PTree q T dl gr ts) =
     (if q = p then PTree q S cl fr ts else PTree q T dl gr (map (put_view (p, S, cl, fr)) ts))"

lemma pool_of_put_view [simp]: "pool_of (put_view v t) = pool_of t"
  by (cases v; cases t) simp

lemma put_view_other: "fst v \<notin> fst ` set (flat t) \<Longrightarrow> put_view v t = t"
  by (cases v; induction t) (auto simp: image_Un intro!: map_idI)

lemma flat_put_view:
  "distinct (map fst (flat t)) \<Longrightarrow>
    flat (put_view v t) = map (\<lambda>w. if fst w = fst v then v else w) (flat t)"
proof (induction t)
  case (PTree q T dl gr ts)
  obtain p S cl fr where v: "v = (p, S, cl, fr)" by (cases v)
  let ?g = "\<lambda>w. if fst w = p then v else w"
  have d: "distinct (map fst (flat t))" if "t \<in> set ts" for t
    using PTree.prems that by (auto simp: distinct_concat_iff map_concat)
  show ?case
  proof (cases "q = p")
    case True
    then have "?g w = w" if "w \<in> set (concat (map flat ts))" for w
      using PTree.prems that by (auto simp: image_iff)
    then have "map ?g (concat (map flat ts)) = concat (map flat ts)" by (rule map_idI)
    then show ?thesis using True by (simp add: v)
  next
    case False
    have "map flat (map (put_view v) ts) = map (map ?g) (map flat ts)"
      using PTree.IH d by (simp add: v)
    then show ?thesis using False by (simp add: v map_concat flip: map_map)
  qed
qed

lemma linked_put_view: "linked e m (put_view v t) = linked e m t"
  by (cases v; induction t) (auto simp: list_all_iff o_def)

lemma linked_same_place:
  "(\<And>v. v \<in> set (flat t) \<Longrightarrow> same_place (pools m (fst v)) (pools m' (fst v))) \<Longrightarrow> linked e m' t = linked e m t"
proof (induction t)
  case (PTree p S cl fr ts)
  have root: "same_place (pools m (pool_of t)) (pools m' (pool_of t))" if "t \<in> set ts" for t
  proof -
    obtain q T dl gr us where t: "t = PTree q T dl gr us" by (cases t)
    then have "(q, T, dl, gr) \<in> set (flat (PTree p S cl fr ts))" using that by force
    from PTree.prems [OF this] show ?thesis by (simp add: t)
  qed
  have "same_place (pools m p) (pools m' p)" using PTree.prems [of "(p, S, cl, fr)"] by simp
  moreover have "linked e m' t = linked e m t" if "t \<in> set ts" for t
  proof (rule PTree.IH [OF that])
    fix v assume "v \<in> set (flat t)"
    then show "same_place (pools m (fst v)) (pools m' (fst v))" using that by (intro PTree.prems) auto
  qed
  moreover have "chain (\<lambda>a. pl_brother (pools m' a)) b (map pool_of ts)
      = chain (\<lambda>a. pl_brother (pools m a)) b (map pool_of ts)" for b
    using root by (intro chain_cong) (auto simp: same_place_def)
  ultimately show ?case using root by (auto simp: list_all_iff same_place_def)
qed

section \<open>Good trees\<close>

text \<open>The registered cleanups with the pools that hold them.\<close>

definition tagged :: "mem \<Rightarrow> view list \<Rightarrow> (addr \<times> handler \<times> addr) list" where
  "tagged m vs = concat (map (\<lambda>(p, S, cl, fr). map (Pair p) (pending m cl)) vs)"

lemma tagged_simps [simp]:
  "tagged m [] = []" "tagged m ((p, S, cl, fr) # vs) = map (Pair p) (pending m cl) @ tagged m vs"
  "tagged m (us @ vs) = tagged m us @ tagged m vs"
  by (simp_all add: tagged_def)

lemma map_snd_tagged: "map snd (tagged m vs) = vpending m vs"
  by (simp add: tagged_def vpending_def map_concat case_prod_unfold o_def)

lemma tagged_single: "tagged m [v] = map (Pair (fst v)) (vpending m [v])"
  by (cases v) simp

lemma tagged_cong:
  "(\<And>q T dl gr. (q, T, dl, gr) \<in> set vs \<Longrightarrow> pending m' dl = pending m dl) \<Longrightarrow> tagged m' vs = tagged m vs"
  unfolding tagged_def by (intro arg_cong [of _ _ concat] map_cong) auto

lemma tagged_perm: "mset us = mset vs \<Longrightarrow> mset (tagged m us) = mset (tagged m vs)"
proof -
  have "mset (tagged m xs) = (\<Sum>(p, S, cl, fr) \<in># mset xs. mset (map (Pair p) (pending m cl)))" for xs
    by (induction xs) auto
  then show "mset us = mset vs \<Longrightarrow> mset (tagged m us) = mset (tagged m vs)" by simp
qed

definition good_tree :: "env \<Rightarrow> (addr \<times> size) set \<Rightarrow> mem \<Rightarrow> ptree \<Rightarrow> bool" where
  "good_tree e B m t \<longleftrightarrow> good_views e B m (flat t) \<and> linked e m t \<and> mutex_home e m t"

lemma good_treeD:
  assumes "good_tree e B m t" "(p, S, cl, fr) \<in> set (flat t)"
  shows "pool_inv e m p S cl fr" "distinct (map fst (flat t))" "releases_ok m p S (frees (pending m cl))"
    "unlocked e m p"
proof -
  have vs: "views_ok e m (flat t)" and rel: "releases_all m (flat t)" and mx: "mutexes_free e m (flat t)"
    using assms(1) by (simp_all add: good_tree_def good_views_def)
  show "pool_inv e m p S cl fr" by (rule views_okD [OF vs assms(2)])
  show "distinct (map fst (flat t))" by (rule views_pools_distinct [OF vs])
  show "unlocked e m p"
    using mx assms(2) by (auto simp: mutexes_free_def Let_def unlocked_def)
  obtain us ws where t: "flat t = us @ (p, S, cl, fr) # ws" using assms(2) by (meson split_list)
  note r = releases_allD [OF rel]
  have sub: "set (frees (pending m cl)) \<subseteq> set (frees (vpending m (flat t)))" by (auto simp: t)
  have "distinct (frees (pending m cl))" using r(1) by (simp add: t)
  moreover have "set (all_nodes S) \<subseteq> set (vnodes (flat t))" by (auto simp: t)
  moreover have "\<not> in_range (fst b) (snd b) (pl_mutex (pools m p))"
    if "b \<in> set (blocks m)" "fst b \<in> set (frees (pending m cl))" for b
    using r(3) [OF assms(2) that(1)] sub that(2) by auto
  ultimately show "releases_ok m p S (frees (pending m cl))"
    using r(2) sub unfolding releases_ok_def frees_ready_def by fastforce
qed

lemma flat_put_step:
  assumes good: "good_tree e B m t" and v: "v \<in> set (flat t)" and step: "pool_step e m v m' v' F A"
  obtains us ws where "flat t = us @ v # ws" "flat (put_view v' t) = us @ v' # ws"
proof -
  have ds: "distinct (map fst (flat t))" using good_treeD(2) [OF good] v by (cases v) blast
  obtain us ws where t: "flat t = us @ v # ws" using v by (meson split_list)
  have fst: "fst v' = fst v" using step by (auto simp: pool_step_def split: prod.splits)
  have "(if fst w = fst v' then v' else w) = w" if "w \<in> set (us @ ws)" for w
    using ds that unfolding t fst by (auto simp: image_iff)
  then have "map (\<lambda>w. if fst w = fst v' then v' else w) (us @ ws) = us @ ws" by (rule map_idI)
  then show thesis by (intro that [OF t]) (simp add: flat_put_view [OF ds] t fst)
qed

lemma frees_set: "d \<in> set (frees hs) \<longleftrightarrow> (H_spr_free, d) \<in> set hs"
  by (induction hs rule: frees.induct) auto

text \<open>A step leaves the mutex in a node of the root.\<close>

lemma slots_of_put_view:
  "slots_of (put_view (p, S, cl, fr) t) = (if pool_of t = p then S else slots_of t)"
  by (cases t) simp

lemma mutex_home_step:
  assumes good: "good_tree e B m t" and v: "v \<in> set (flat t)" and step: "pool_step e m v m' v' F A"
    and same: "same_place (pools m (pool_of t)) (pools m' (pool_of t))"
  shows "mutex_home e m' (put_view v' t)"
  unfolding mutex_home_def
proof
  assume ts: "thread_safety e"
  have rel: "releases_all m (flat t)" and "mutex_home e m t"
    using good by (simp_all add: good_tree_def good_views_def)
  then obtain h n where h: "h \<in> set (all_nodes (slots_of t))" "(h, n) \<in> set (blocks m)"
    "in_range h n (pl_mutex (pools m (pool_of t)))"
    using ts by (auto simp: mutex_home_def)
  obtain p S cl fr where p: "v = (p, S, cl, fr)" by (cases v)
  obtain p' S' cl' fr' where p': "v' = (p', S', cl', fr')" by (cases v')
  note s = step [unfolded pool_step_def p p' prod.case]
  have "F \<subseteq> set (frees (vpending m (flat t)))" using s v unfolding p by (force simp: vpending_def frees_set case_prod_unfold)
  moreover obtain q T dl gr us where t: "t = PTree q T dl gr us" by (cases t)
  then have "h \<in> set (vnodes (flat t))" using h(1) by simp
  ultimately have "h \<notin> F" using releases_allD(2) [OF rel] by blast
  then have "(h, n) \<in> set (blocks m')" using s h(2) by auto
  moreover have "h \<in> set (all_nodes (slots_of (put_view v' t)))"
  proof (cases "q = p")
    case True
    have "distinct (map fst (flat t))" using good_treeD(2) [OF good] v p by blast
    then have "T = S" using v True unfolding p t by (force simp: image_iff)
    moreover have "set (all_nodes S) \<subseteq> set (all_nodes S')" using s by (simp add: pool_frame_def)
    ultimately show ?thesis using h(1) s True by (auto simp: p' t slots_of_put_view)
  next
    case False
    then show ?thesis using h(1) s by (simp add: p' t slots_of_put_view)
  qed
  ultimately show "\<exists>h \<in> set (all_nodes (slots_of (put_view v' t))). \<exists>n. (h, n) \<in> set (blocks m') \<and>
      in_range h n (pl_mutex (pools m' (pool_of (put_view v' t))))"
    using h(3) same by (auto simp: same_place_def)
qed

lemma good_tree_step:
  assumes good: "good_tree e B m t" and st: "strict_mem e" and v: "v \<in> set (flat t)"
    and step: "pool_step e m v m' v' F A"
  shows "good_tree e B m' (put_view v' t)" "map fst (flat (put_view v' t)) = map fst (flat t)"
    "mset (tagged m' (flat (put_view v' t))) + mset (tagged m [v]) = mset (tagged m (flat t)) + mset (tagged m' [v'])"
proof -
  have gv: "good_views e B m (flat t)" and ln: "linked e m t" using good by (simp_all add: good_tree_def)
  obtain us ws where t: "flat t = us @ v # ws" and t': "flat (put_view v' t) = us @ v' # ws"
    by (rule flat_put_step [OF good v step])
  have fst: "fst v' = fst v" using step by (auto simp: pool_step_def split: prod.splits)
  show "map fst (flat (put_view v' t)) = map fst (flat t)" unfolding t t' by (simp add: fst)
  note parts = gv [unfolded good_views_def t]
  have "pending m' dl = pending m dl" if "(q, T, dl, gr) \<in> set (us @ ws)" for q T dl gr
    using step_others(4) [OF _ _ st step that] parts by blast
  then have "tagged m' (us @ ws) = tagged m (us @ ws)" by (rule tagged_cong)
  then have others: "mset (tagged m' us) + mset (tagged m' ws) = mset (tagged m us) + mset (tagged m ws)"
    by (metis mset_append tagged_simps(3))
  have split: "mset (tagged x (us @ u # ws)) = (mset (tagged x us) + mset (tagged x ws)) + mset (tagged x [u])" for x u
    by (cases u) simp
  show "mset (tagged m' (flat (put_view v' t))) + mset (tagged m [v])
      = mset (tagged m (flat t)) + mset (tagged m' [v'])"
    unfolding t t' split others by (simp only: union_ac)
  have "same_place (pools m (fst w)) (pools m' (fst w))" if "w \<in> set (flat t)" for w
    using that parts step_place [OF _ _ st step] unfolding t by blast
  note same = this
  then have "linked e m' t = linked e m t" by (rule linked_same_place)
  moreover have "same_place (pools m (pool_of t)) (pools m' (pool_of t))"
    using same [of "hd (flat t)"] by (cases t) simp
  then have "mutex_home e m' (put_view v' t)" by (rule mutex_home_step [OF good v step])
  ultimately show "good_tree e B m' (put_view v' t)"
    using step_good [OF gv [unfolded t] st step] ln by (simp add: good_tree_def t' linked_put_view)
qed

section \<open>The steps of the operations\<close>

lemma set_tl: "set (tl xs) \<subseteq> set xs"
  by (cases xs) auto

lemma step_grows:
  assumes inv: "pool_inv e m p S cl fr" and "pool_inv e m' p S' cl' fr'" and fr: "pool_frame m p S m' S'"
    and "mutexes m' = mutexes m" "set (blocks m) \<subseteq> set (blocks m')" and nb: "new_blocks m m' (A \<union> set (all_nodes S'))"
    and "set (frees (pending m' cl')) = set (frees (pending m cl)) \<union> A" "distinct (frees (pending m' cl'))"
    "A \<inter> set (all_nodes S') = {}" "A \<subseteq> fst ` set (blocks m')" "A \<inter> fst ` set (blocks m) = {}"
    "\<forall>c \<in> set (cl' @ fr'). c \<in> set (cl @ fr) \<or> {unat c..<unat c + 24} \<inter> used_by m S = {}"
  shows "pool_step e m (p, S, cl, fr) m' (p, S', cl', fr') {} A"
proof -
  have "b \<in> set (blocks m) \<or> fst b \<in> (set (all_nodes S') - set (all_nodes S)) \<union> A" if b: "b \<in> set (blocks m')" for b
  proof (cases "fst b \<in> set (all_nodes S)")
    case True
    moreover have "nodes_inv e m p S" using inv by (simp add: pool_inv_def)
    ultimately obtain n where n: "(fst b, n) \<in> set (blocks m)" by (auto elim: node_block)
    moreover have "blocks_ok (blocks m')" using assms(2) by (simp add: pool_inv_def)
    ultimately have "snd b = n" using b assms(5) blocks_ok_fst_inj [of "blocks m'" "fst b" "snd b" n] by auto
    then show ?thesis using n by (cases b) simp
  next
    case False
    then show ?thesis using nb b by (auto simp: new_blocks_def)
  qed
  then show ?thesis using assms by (auto simp: pool_step_def)
qed

lemma step_shrinks:
  assumes "pool_inv e m' p S cl' fr'" "pool_frame m p S m' S" "mutexes m' = mutexes m"
    "blocks m' = blocks_without F (blocks m)" "F \<subseteq> set (frees (pending m cl))"
    "set (frees (pending m' cl')) = set (frees (pending m cl)) - F" "distinct (frees (pending m' cl'))"
    "set (cl' @ fr') \<subseteq> set (cl @ fr)"
  shows "pool_step e m (p, S, cl, fr) m' (p, S, cl', fr') F {}"
  using assms by (auto simp: pool_step_def blocks_without_def)

lemma palloc_large_step:
  assumes good: "good_tree e B m t" and v: "(p, S, cl, fr) \<in> set (flat t)" and n: "large_request e n"
  obtains (fail) "spr_palloc e p n m = Some (NULL, m\<lparr>errno := ENOMEM\<rparr>)"
      "sys_alloc e (blocks m) (spr_align_allocation n) = NULL"
  | (null_node) "spr_palloc e p n m = None" "sys_alloc e (blocks m) (spr_align_allocation n) \<noteq> NULL"
      "no_cleanup_node e p (snd (spr_malloc e (spr_align_allocation n) m))"
  | (ok) a m' v' where "spr_palloc e p n m = Some (a, m')" "a \<noteq> NULL"
      "blocks_ok ((a, spr_align_allocation n) # blocks m)" "(a, spr_align_allocation n) \<in> set (blocks m')"
      "pool_step e m (p, S, cl, fr) m' v' {} {a}" "calls m' = calls m"
      "vpending m' [v'] = (H_spr_free, a) # pending m cl"
      "\<not> no_cleanup_node e p (snd (spr_malloc e (spr_align_allocation n) m))"
proof -
  note inv = good_treeD(1) [OF good v] and rel = good_treeD(3) [OF good v]
  show thesis
  proof (rule palloc_large_cases [OF inv n good_treeD(4) [OF good v]], goal_cases fail null ok)
    case fail
    then show ?case by (rule that(1))
  next
    case null
    then show ?case by (rule that(2))
  next
    case (ok a m' S' c)
    have a: "a \<notin> fst ` set (blocks m)" by (rule fresh_block [OF ok(3)])
    have "pool_step e m (p, S, cl, fr) m' (p, S', c # cl, tl fr) {} {a}"
      using ok rel a imageI [OF ok(4), of fst] set_tl [of fr]
      by (intro step_grows [OF inv ok(5) ok(11)]) (auto simp: same_client_memory_def releases_ok_def frees_ready_def)
    then show ?case using ok by (intro that(3) [of a m' "(p, S', c # cl, tl fr)"]) simp_all
  qed
qed

lemma cleanup_add_step:
  assumes good: "good_tree e B m t" and v: "(p, S, cl, fr) \<in> set (flat t)"
  obtains (null_node) "spr_pool_cleanup_add1 e p data (H_user k) m = None" "no_cleanup_node e p m"
  | (ok) m' v' where "spr_pool_cleanup_add1 e p data (H_user k) m = Some m'"
      "pool_step e m (p, S, cl, fr) m' v' {} {}" "calls m' = calls m"
      "vpending m' [v'] = (H_user k, data) # pending m cl" "\<not> no_cleanup_node e p m"
proof -
  note inv = good_treeD(1) [OF good v] and rel = good_treeD(3) [OF good v]
  show thesis
  proof (rule cleanup_add_cases [OF inv, of 0 data "H_user k"], goal_cases null ok)
    case null
    then show ?case by (intro that(1)) (simp_all add: cleanup_add2)
  next
    case (ok m' S' c)
    have pend: "pending m' (c # cl) = (H_user k, data) # pending m cl" using ok(3,4) by (auto simp: pending_def)
    then have "pool_step e m (p, S, cl, fr) m' (p, S', c # cl, tl fr) {} {}"
      using ok rel set_tl [of fr]
      by (intro step_grows [OF inv ok(2) ok(10)]) (auto simp: same_client_memory_def releases_ok_def frees_ready_def)
    then show ?case using ok(1,6,13) pend by (intro that(2) [of m' "(p, S', c # cl, tl fr)"]) (simp_all add: cleanup_add2)
  qed
qed

lemma find_registered:
  assumes inv: "pool_inv e m p S cl fr" and reg: "(h, d) \<in> set (pending m cl)"
  obtains z ys zs where "find (is_cleanup m d h) cl = Some z" "remove1 z cl = ys @ zs" "z \<in> set cl"
    "frees (pending m cl) = frees (pending m ys) @ frees [(h, d)] @ frees (pending m zs)"
    "mset (pending m cl) = add_mset (h, d) (mset (pending m (ys @ zs)))"
proof -
  have "\<exists>z. find (is_cleanup m d h) cl = Some z"
    using reg by (cases "find (is_cleanup m d h) cl") (auto simp: find_None_iff pending_def is_cleanup_def)
  then obtain z where z: "find (is_cleanup m d h) cl = Some z" ..
  then obtain ys zs where cl: "cl = ys @ z # zs" using find_SomeD split_list by metis
  have "distinct cl" using inv by (simp add: pool_inv_def cleanups_inv_def)
  then have "remove1 z cl = ys @ zs" unfolding cl by (rule remove1_split)
  moreover have "pending m cl = pending m ys @ [(h, d)] @ pending m zs"
    using find_SomeD [OF z] by (simp add: cl pending_def is_cleanup_def)
  moreover from this have "frees (pending m cl) = frees (pending m ys) @ frees [(h, d)] @ frees (pending m zs)"
    by (simp only: frees_append)
  moreover have "pending m (ys @ zs) = pending m ys @ pending m zs" by (simp add: pending_def)
  ultimately show thesis by (intro that [OF z, of ys zs]) (simp_all add: cl)
qed

lemma releases_ok_part:
  "releases_ok m p S (xs @ ds @ ys) \<Longrightarrow> releases_ok m p S ds"
  unfolding releases_ok_def frees_ready_def by (simp add: Int_Un_distrib2 case_prod_unfold)

lemma cleanup_run1_step:
  assumes good: "good_tree e B m t" and v: "(p, S, cl, fr) \<in> set (flat t)" and reg: "(h, d) \<in> set (pending m cl)"
  obtains m' v' where "spr_pool_cleanup_run1 e p d h m = Some m'" "calls m' = calls m @ [(h, d)]"
    "pool_step e m (p, S, cl, fr) m' v' (set (frees [(h, d)])) {}"
    "mset (pending m cl) = add_mset (h, d) (mset (vpending m' [v']))"
proof -
  note inv = good_treeD(1) [OF good v] and rel = good_treeD(3) [OF good v]
  obtain z ys zs where z: "find (is_cleanup m d h) cl = Some z" "remove1 z cl = ys @ zs"
    "frees (pending m cl) = frees (pending m ys) @ frees [(h, d)] @ frees (pending m zs)"
    "mset (pending m cl) = add_mset (h, d) (mset (pending m (ys @ zs)))" "z \<in> set cl"
    by (rule find_registered [OF inv reg]) blast
  have rel1: "releases_ok m p S (frees [(h, d)])" using rel unfolding z(3) by (rule releases_ok_part)
  obtain m' where m': "spr_pool_cleanup_run1 e p d h m = Some m'"
    "pool_inv e m' p S (remove1 z cl) (z # fr)" "calls m' = calls m @ [(h, d)]"
    "same_client_memory m m'" "blocks m' = blocks_without (set (frees [(h, d)])) (blocks m)"
    "pending m' (remove1 z cl) = pending m (remove1 z cl)" "pool_frame m p S m' S"
    by (rule cleanup_run1_ok [OF inv z(1) rel1])
  have fs: "frees (pending m' (remove1 z cl)) = frees (pending m ys) @ frees (pending m zs)"
    using m'(6) by (simp add: z(2)) (simp add: pending_def)
  have "distinct (frees (pending m cl))" using rel by (simp add: releases_ok_def frees_ready_def)
  then have "pool_step e m (p, S, cl, fr) m' (p, S, remove1 z cl, z # fr) (set (frees [(h, d)])) {}"
    using m'(4) z(5) set_remove1_subset [of z cl]
    by (intro step_shrinks [OF m'(2,7) _ m'(5)]) (auto simp: same_client_memory_def fs z(3) simp del: frees.simps)
  then show thesis using z(4) m'(6) by (intro that [OF m'(1,3), of "(p, S, remove1 z cl, z # fr)"]) (simp_all add: z(2))
qed

lemma cleanup_remove1_step:
  assumes good: "good_tree e B m t" and v: "(p, S, cl, fr) \<in> set (flat t)" and reg: "(H_user k, d) \<in> set (pending m cl)"
  obtains m' v' where "spr_pool_cleanup_remove1 e p d (H_user k) m = Some m'" "calls m' = calls m"
    "pool_step e m (p, S, cl, fr) m' v' {} {}"
    "mset (pending m cl) = add_mset (H_user k, d) (mset (vpending m' [v']))"
proof -
  note inv = good_treeD(1) [OF good v] and rel = good_treeD(3) [OF good v]
  obtain z ys zs where z: "find (is_cleanup m d (H_user k)) cl = Some z" "remove1 z cl = ys @ zs"
    "frees (pending m cl) = frees (pending m ys) @ frees [(H_user k, d)] @ frees (pending m zs)"
    "mset (pending m cl) = add_mset (H_user k, d) (mset (pending m (ys @ zs)))" "z \<in> set cl"
    by (rule find_registered [OF inv reg]) blast
  obtain m' where m': "spr_pool_cleanup_remove1 e p d (H_user k) m = Some m'"
    "pool_inv e m' p S (remove1 z cl) (z # fr)" "calls m' = calls m"
    "same_client_memory m m'" "blocks m' = blocks m"
    "pending m' (remove1 z cl) = pending m (remove1 z cl)" "pool_frame m p S m' S"
    by (rule cleanup_remove1_ok [OF inv z(1)])
  have fs: "frees (pending m' (remove1 z cl)) = frees (pending m ys) @ frees (pending m zs)"
    using m'(6) by (simp add: z(2)) (simp add: pending_def)
  have "distinct (frees (pending m cl))" using rel by (simp add: releases_ok_def frees_ready_def)
  then have "pool_step e m (p, S, cl, fr) m' (p, S, remove1 z cl, z # fr) {} {}"
    using m'(4,5) z(5) set_remove1_subset [of z cl]
    by (intro step_shrinks [OF m'(2,7)]) (auto simp: same_client_memory_def fs z(3))
  then show thesis using z(4) m'(6) by (intro that [OF m'(1,3), of "(p, S, remove1 z cl, z # fr)"]) (simp_all add: z(2))
qed

lemma cleanup_run_all_step:
  assumes good: "good_tree e B m t" and v: "(p, S, cl, fr) \<in> set (flat t)"
  obtains m' v' where "spr_pool_cleanup_run_all e p m = Some m'" "calls m' = calls m @ pending m cl"
    "pool_step e m (p, S, cl, fr) m' v' (set (frees (pending m cl))) {}" "vpending m' [v'] = []"
proof -
  note inv = good_treeD(1) [OF good v] and rel = good_treeD(3) [OF good v]
  obtain m' where m': "spr_pool_cleanup_run_all e p m = Some m'" "pool_inv e m' p S [] (rev cl @ fr)"
    "calls m' = calls m @ pending m cl" "blocks m' = blocks_without (set (frees (pending m cl))) (blocks m)"
    "same_client_memory m m'" "mnodes m' = mnodes m" "\<forall>x. x \<notin> set cl \<longrightarrow> cnodes m' x = cnodes m x"
    "\<exists>f. pools m' = (pools m)(p := pools m p\<lparr>pl_free_cleanups := f, pl_cleanups := NULL\<rparr>)"
    by (rule run_all_ok [OF inv rel])
  have "unat c \<in> used_by m S" if "c \<in> set cl" for c
    using inv that cleanup_in_use [of m p S cl fr c] by (simp add: pool_inv_def)
  then have "pool_frame m p S m' S"
    using m'(6-8) by (intro frame_cleanups) auto
  then have "pool_step e m (p, S, cl, fr) m' (p, S, [], rev cl @ fr) (set (frees (pending m cl))) {}"
    using m'(5) by (intro step_shrinks [OF m'(2) _ _ m'(4)]) (simp_all add: same_client_memory_def pending_def)
  then show thesis by (intro that [OF m'(1,3), of "(p, S, [], rev cl @ fr)"]) (simp_all add: pending_def)
qed

section \<open>Writing to memory\<close>

text \<open>A good state looks only at the pools, their nodes, cleanup nodes and mutexes.\<close>

lemma good_tree_agree:
  assumes good: "good_tree e B m t" and bl: "blocks m' = blocks m"
    and pl: "\<And>v. v \<in> set (flat t) \<Longrightarrow> pools m' (fst v) = pools m (fst v)"
    and mx: "\<And>v. v \<in> set (flat t) \<Longrightarrow> thread_safety e \<Longrightarrow>
      mutexes m' (pl_mutex (pools m (fst v))) = mutexes m (pl_mutex (pools m (fst v)))"
    and mn: "\<And>a. a \<in> set (vnodes (flat t)) \<Longrightarrow> mnodes m' a = mnodes m a"
    and cn: "\<And>c. c \<in> set (vcleans (flat t)) \<Longrightarrow> cnodes m' c = cnodes m c"
  shows "good_tree e B m' t" "tagged m' (flat t) = tagged m (flat t)"
    "\<forall>q T dl gr. (q, T, dl, gr) \<in> set (flat t) \<longrightarrow> used_by m' T = used_by m T"
proof -
  note parts = good [unfolded good_tree_def good_views_def]
  have un: "untouched m (q, T, dl, gr) m'" "lock_ok e m' q" "pool_inv e m' q T dl gr"
    if v: "(q, T, dl, gr) \<in> set (flat t)" for q T dl gr
  proof -
    note mem = views_member [OF v] and inv = good_treeD(1) [OF good v]
    have cs: "set (dl @ gr) \<subseteq> set (vcleans (flat t))" using v by (force simp: vcleans_def)
    show un: "untouched m (q, T, dl, gr) m'"
      using pl [OF v] mn mem cn cs blocks_without_simps(1) [of "blocks m"]
      by (auto simp: untouched_def bl intro!: exI [of _ "{}"])
    have "lock_ok e m q" using inv by (simp add: pool_inv_def)
    then show lk: "lock_ok e m' q" using pl [OF v] mx [OF v] by (simp add: lock_ok_def bl)
    show "pool_inv e m' q T dl gr" by (rule pool_inv_untouched [OF inv un lk])
  qed
  have vs: "views_ok e m' (flat t)" using parts un(3) by (auto simp: views_ok_def)
  have pend: "vpending m' (flat t) = vpending m (flat t)"
    using un(1) by (intro vpending_untouched) auto
  have "releases_all m' (flat t)"
    using parts pl unfolding releases_all_def Let_def pend frees_ready_def bl by simp
  moreover have "owned e m' (flat t)" using parts pl by (simp add: owned_def not_owner_def)
  moreover have "mutexes_free e m' (flat t)"
    using parts pl mx mn unfolding mutexes_free_def Let_def bl by simp
  moreover have "outside_blocks m' (flat t) = B" using parts unfolding outside_blocks_def pend bl by simp
  moreover have "linked e m' t" using parts linked_cong [of t m' m e, OF pl] by simp
  moreover have "pools m' (pool_of t) = pools m (pool_of t)" using pl [of "hd (flat t)"] by (cases t) simp
  then have "mutex_home e m' t" using parts by (simp add: mutex_home_def bl)
  ultimately show "good_tree e B m' t" using vs by (simp add: good_tree_def good_views_def)
  have "pending m' dl = pending m dl" if "(q, T, dl, gr) \<in> set (flat t)" for q T dl gr
    using un(1) [OF that] by (intro pending_cong) (auto simp: untouched_def)
  then show "tagged m' (flat t) = tagged m (flat t)" by (rule tagged_cong)
  have "used_by m' T = used_by m T" if "(q, T, dl, gr) \<in> set (flat t)" for q T dl gr
  proof -
    have "mnodes m' a = mnodes m a" if "a \<in> set (all_nodes T)" for a
      using mn views_member [OF \<open>(q, T, dl, gr) \<in> set (flat t)\<close>] that by blast
    then show ?thesis by (simp add: used_by_def handed_out_def)
  qed
  then show "\<forall>q T dl gr. (q, T, dl, gr) \<in> set (flat t) \<longrightarrow> used_by m' T = used_by m T" by blast
qed

lemma good_tree_clients:
  assumes "good_tree e B m t"
  shows "good_tree e B (m\<lparr>errno := x\<rparr>) t"
    "tagged (m\<lparr>errno := x\<rparr>) (flat t) = tagged m (flat t)"
    "good_tree e B (m\<lparr>bytes := b, lists := l, lnodes := n, arrays := y\<rparr>) t"
    "tagged (m\<lparr>bytes := b, lists := l, lnodes := n, arrays := y\<rparr>) (flat t) = tagged m (flat t)"
  by (rule good_tree_agree [OF assms]; simp)+

lemma memzero_good:
  assumes good: "good_tree e B m t"
    and out: "\<And>v. v \<in> set (flat t) \<Longrightarrow> \<not> in_range a n (fst v)"
      "\<And>v. v \<in> set (flat t) \<Longrightarrow> thread_safety e \<Longrightarrow> \<not> in_range a n (pl_mutex (pools m (fst v)))"
      "\<And>h. h \<in> set (vnodes (flat t)) \<Longrightarrow> \<not> in_range a n h"
      "\<And>c. c \<in> set (vcleans (flat t)) \<Longrightarrow> \<not> in_range a n c"
  shows "good_tree e B (spr_memzero a n m) t" "tagged (spr_memzero a n m) (flat t) = tagged m (flat t)"
    "\<forall>q T dl gr. (q, T, dl, gr) \<in> set (flat t) \<longrightarrow> used_by (spr_memzero a n m) T = used_by m T"
  by (rule good_tree_agree [OF good]; simp add: memzero_outside out)+

text \<open>Where the data of the library lie: a pool inside a node, a node in a block of its own.\<close>

lemma node_places_apart:
  assumes vs: "views_ok e m vs" and bl: "blocks_ok (blocks m)"
    and h: "h \<in> set (vnodes vs)" "k \<in> set (vnodes vs)" "h \<noteq> k"
    and x: "unat h \<le> x" "x < unat (mn_first_avail (mnodes m h))" and y: "unat k \<le> y" "y < unat (mn_first_avail (mnodes m k))"
  shows "x \<noteq> y"
proof -
  have block: "\<exists>n. (a, n) \<in> set (blocks m) \<and> unat (mn_first_avail (mnodes m a)) \<le> unat a + unat n"
    if av: "a \<in> set (vnodes vs)" for a
  proof -
    obtain q T dl gr where "(q, T, dl, gr) \<in> set vs" and a: "a \<in> set (all_nodes T)"
      using av unfolding vnodes_member by blast
    then have "nodes_inv e m q T" using views_okD [OF vs] by (simp add: pool_inv_def)
    then show ?thesis using a by (blast elim: node_block)
  qed
  obtain n where n: "(h, n) \<in> set (blocks m)" "unat (mn_first_avail (mnodes m h)) \<le> unat h + unat n"
    using block [OF h(1)] by blast
  obtain l where l: "(k, l) \<in> set (blocks m)" "unat (mn_first_avail (mnodes m k)) \<le> unat k + unat l"
    using block [OF h(2)] by blast
  have "apart (h, n) (k, l)" using blocks_ok_apart [OF bl n(1) l(1)] h(3) by simp
  then show ?thesis using x y n(2) l(2) by auto
qed

lemma used_not_data:
  assumes good: "good_tree e B m t" and v: "(p, S, cl, fr) \<in> set (flat t)" and x: "x \<in> used_by m S"
    and w: "(q, T, dl, gr) \<in> set (flat t)"
  shows "x \<noteq> unat q" "k \<in> set (all_nodes T) \<Longrightarrow> x \<noteq> unat k"
    "thread_safety e \<Longrightarrow> x \<noteq> unat (pl_mutex (pools m q))"
proof -
  note parts = good [unfolded good_tree_def good_views_def]
  have vs: "views_ok e m (flat t)" using parts by simp
  note invp = good_treeD(1) [OF good v] and invq = good_treeD(1) [OF good w]
  have bl: "blocks_ok (blocks m)" and ndp: "nodes_inv e m p S" and ndq: "nodes_inv e m q T" and hm: "home_ok e m q T"
    using invp invq by (simp_all add: pool_inv_def)
  obtain h where h: "h \<in> set (all_nodes S)" "unat h \<le> x" "unat (mn_begin (mnodes m h)) \<le> x"
    "x < unat (mn_first_avail (mnodes m h))" by (rule used_in_node [OF ndp x])
  have hv: "h \<in> set (vnodes (flat t))" using views_member [OF v] h(1) by blast
  note apart = node_places_apart [OF vs bl hv _ _ h(2,4)]
  show "x \<noteq> unat k" if k: "k \<in> set (all_nodes T)" for k
  proof (cases "h = k")
    case True
    have "unat h + 48 \<le> unat (mn_begin (mnodes m h))" by (rule node_block [OF ndp h(1)])
    then show ?thesis using True h(3) by simp
  next
    case False
    have kv: "k \<in> set (vnodes (flat t))" using views_member [OF w] k by blast
    have "unat k + 48 \<le> unat (mn_begin (mnodes m k))" by (rule node_block [OF ndq k])
    moreover have "unat (mn_begin (mnodes m k)) \<le> unat (mn_first_avail (mnodes m k))" by (rule node_block [OF ndq k])
    ultimately show ?thesis by (intro apart [OF kv False]) simp_all
  qed
  show "x \<noteq> unat q"
  proof -
    obtain k where k: "k \<in> set (all_nodes T)" "unat k \<le> unat q" "unat q < unat (mn_begin (mnodes m k))"
      "unat q < unat (mn_first_avail (mnodes m k))" by (rule home_in_node [OF ndq hm])
    have kv: "k \<in> set (vnodes (flat t))" using views_member [OF w] k(1) by blast
    show ?thesis
    proof (cases "h = k")
      case False
      then show ?thesis by (rule apart [OF kv _ k(2,4)])
    qed (use k(3) h(3) in simp)
  qed
  assume ts: "thread_safety e"
  obtain n where n: "(h, n) \<in> set (blocks m)" "unat (mn_first_avail (mnodes m h)) \<le> unat h + unat n"
    by (rule node_block [OF ndp h(1)])
  have "\<forall>h \<in> set (vnodes (flat t)). \<forall>n. (h, n) \<in> set (blocks m) \<longrightarrow>
      \<not> (unat (mn_begin (mnodes m h)) \<le> unat (pl_mutex (pools m q)) \<and> unat (pl_mutex (pools m q)) < unat h + unat n)"
    using parts w ts by (auto simp: mutexes_free_def Let_def)
  then show "x \<noteq> unat (pl_mutex (pools m q))" using hv n h(3,4) by fastforce
qed

lemma views_distinct_nodes:
  assumes "views_ok e m vs" "(p, S, cl, fr) \<in> set vs" "(q, T, dl, gr) \<in> set vs" "(q, T, dl, gr) \<noteq> (p, S, cl, fr)"
  shows "set (all_nodes S) \<inter> set (all_nodes T) = {}"
proof -
  obtain us ws where vs: "vs = us @ (p, S, cl, fr) # ws" using assms(2) by (meson split_list)
  then have "(q, T, dl, gr) \<in> set us \<or> (q, T, dl, gr) \<in> set ws" using assms(3,4) by auto
  then show ?thesis using assms(1) views_member unfolding views_ok_def vs by fastforce
qed

lemma cleanup_in_pool: "pool_inv e m p S cl fr \<Longrightarrow> c \<in> set (cl @ fr) \<Longrightarrow> unat c \<in> used_by m S"
  by (rule cleanup_in_use [of m p S cl fr]) (simp_all add: pool_inv_def)

lemma in_range_region: "in_range a n x \<longleftrightarrow> unat x \<in> region a n"
  by (auto simp: in_range_def region_def)

lemma vcleans_member: "c \<in> set (vcleans vs) \<longleftrightarrow> (\<exists>q T dl gr. (q, T, dl, gr) \<in> set vs \<and> c \<in> set (dl @ gr))"
  by (force simp: vcleans_def)

text \<open>A client may write to what a pool has handed out, except to the nodes of its cleanups.\<close>

lemma memzero_used:
  assumes good: "good_tree e B m t" and v: "(p, S, cl, fr) \<in> set (flat t)"
    and used: "region a n \<subseteq> used_by m S" and cln: "\<forall>c \<in> set (cl @ fr). unat c \<notin> region a n"
  shows "good_tree e B (spr_memzero a n m) t" "tagged (spr_memzero a n m) (flat t) = tagged m (flat t)"
    "\<forall>q T dl gr. (q, T, dl, gr) \<in> set (flat t) \<longrightarrow> used_by (spr_memzero a n m) T = used_by m T"
proof -
  note data = used_not_data [OF good v]
  have out1: "\<not> in_range a n (fst w)" if "w \<in> set (flat t)" for w
    using data(1) [of "unat (fst w)" "fst w"] that used by (cases w) (auto simp: in_range_region)
  have out2: "\<not> in_range a n (pl_mutex (pools m (fst w)))" if "w \<in> set (flat t)" "thread_safety e" for w
    using data(3) [of "unat (pl_mutex (pools m (fst w)))" "fst w"] that used by (cases w) (auto simp: in_range_region)
  have out3: "\<not> in_range a n h" if h: "h \<in> set (vnodes (flat t))" for h
  proof -
    obtain q T dl gr where "(q, T, dl, gr) \<in> set (flat t)" "h \<in> set (all_nodes T)"
      using h unfolding vnodes_member by blast
    then show ?thesis using data(2) [of "unat h" q T dl gr h] used by (auto simp: in_range_region)
  qed
  have out4: "\<not> in_range a n c" if c: "c \<in> set (vcleans (flat t))" for c
  proof -
    obtain q T dl gr where w: "(q, T, dl, gr) \<in> set (flat t)" "c \<in> set (dl @ gr)"
      using c unfolding vcleans_member by blast
    show ?thesis
    proof (cases "(q, T, dl, gr) = (p, S, cl, fr)")
      case True
      then show ?thesis using cln w(2) by (simp add: in_range_region)
    next
      case False
      have vs: "views_ok e m (flat t)" using good by (simp add: good_tree_def good_views_def)
      note invp = good_treeD(1) [OF good v] and invq = good_treeD(1) [OF good w(1)]
      have "set (all_nodes S) \<inter> set (all_nodes T) = {}" by (rule views_distinct_nodes [OF vs v w(1)]) (use False in auto)
      then have "used_by m S \<inter> used_by m T = {}" by (rule pools_apart(2) [OF invp invq])
      moreover have "unat c \<in> used_by m T" by (rule cleanup_in_pool [OF invq w(2)])
      ultimately show ?thesis using used by (auto simp: in_range_region)
    qed
  qed
  show "good_tree e B (spr_memzero a n m) t" "tagged (spr_memzero a n m) (flat t) = tagged m (flat t)"
    "\<forall>q T dl gr. (q, T, dl, gr) \<in> set (flat t) \<longrightarrow> used_by (spr_memzero a n m) T = used_by m T"
    by (rule memzero_good [OF good out1 out2 out3 out4]; assumption)+
qed

text \<open>The same for a block that a cleanup of the pool will release.\<close>

lemma memzero_owned:
  assumes good: "good_tree e B m t" and a: "(a, k) \<in> set (blocks m)" "a \<in> set (frees (vpending m (flat t)))"
    and n: "unat n \<le> unat k"
  shows "good_tree e B (spr_memzero a n m) t" "tagged (spr_memzero a n m) (flat t) = tagged m (flat t)"
    "\<forall>q T dl gr. (q, T, dl, gr) \<in> set (flat t) \<longrightarrow> used_by (spr_memzero a n m) T = used_by m T"
proof -
  have vs: "views_ok e m (flat t)" and rel: "releases_all m (flat t)"
    using good by (simp_all add: good_tree_def good_views_def)
  have in_node: "\<not> in_range a n x"
    if w: "(q, T, dl, gr) \<in> set (flat t)" and h: "h \<in> set (all_nodes T)" "unat h \<le> unat x"
      "unat x < unat (mn_first_avail (mnodes m h))" for q T dl gr h x
  proof -
    have inv: "pool_inv e m q T dl gr" by (rule good_treeD(1) [OF good w])
    then have nd: "nodes_inv e m q T" and bl: "blocks_ok (blocks m)" by (simp_all add: pool_inv_def)
    obtain l where l: "(h, l) \<in> set (blocks m)" "unat (mn_first_avail (mnodes m h)) \<le> unat h + unat l"
      by (rule node_block [OF nd h(1)])
    have "h \<noteq> a" using releases_allD(2) [OF rel a(2)] views_member [OF w] h(1) by blast
    then have "apart (h, l) (a, k)" using blocks_ok_apart [OF bl l(1) a(1)] by simp
    then show ?thesis using h(2,3) l(2) n by (auto simp: in_range_def)
  qed
  have out1: "\<not> in_range a n (fst w)" if w: "w \<in> set (flat t)" for w
  proof -
    obtain q T dl gr where w': "w = (q, T, dl, gr)" by (cases w)
    have "nodes_inv e m q T" "home_ok e m q T" using good_treeD(1) [OF good] w w' by (auto simp: pool_inv_def)
    then obtain h where "h \<in> set (all_nodes T)" "unat h \<le> unat q" "unat q < unat (mn_first_avail (mnodes m h))"
      by (rule home_in_node)
    then show ?thesis using in_node w w' by simp
  qed
  have out2: "\<not> in_range a n (pl_mutex (pools m (fst w)))" if "w \<in> set (flat t)" "thread_safety e" for w
    using releases_allD(3) [OF rel that(1) a(1)] a(2) n by (auto simp: in_range_def)
  have out3: "\<not> in_range a n h" if h: "h \<in> set (vnodes (flat t))" for h
  proof -
    obtain q T dl gr where w: "(q, T, dl, gr) \<in> set (flat t)" "h \<in> set (all_nodes T)"
      using h unfolding vnodes_member by blast
    have nd: "nodes_inv e m q T" using good_treeD(1) [OF good w(1)] by (simp add: pool_inv_def)
    have "unat h + 48 \<le> unat (mn_begin (mnodes m h))" by (rule node_block [OF nd w(2)])
    moreover have "unat (mn_begin (mnodes m h)) \<le> unat (mn_first_avail (mnodes m h))" by (rule node_block [OF nd w(2)])
    ultimately show ?thesis by (intro in_node [OF w]) simp_all
  qed
  have out4: "\<not> in_range a n c" if c: "c \<in> set (vcleans (flat t))" for c
  proof -
    obtain q T dl gr where w: "(q, T, dl, gr) \<in> set (flat t)" "c \<in> set (dl @ gr)"
      using c unfolding vcleans_member by blast
    note inv = good_treeD(1) [OF good w(1)]
    have "nodes_inv e m q T" using inv by (simp add: pool_inv_def)
    moreover have "unat c \<in> used_by m T" by (rule cleanup_in_pool [OF inv w(2)])
    ultimately obtain h where "h \<in> set (all_nodes T)" "unat h \<le> unat c" "unat c < unat (mn_first_avail (mnodes m h))"
      by (rule used_in_node)
    then show ?thesis by (rule in_node [OF w(1)])
  qed
  show "good_tree e B (spr_memzero a n m) t" "tagged (spr_memzero a n m) (flat t) = tagged m (flat t)"
    "\<forall>q T dl gr. (q, T, dl, gr) \<in> set (flat t) \<longrightarrow> used_by (spr_memzero a n m) T = used_by m T"
    by (rule memzero_good [OF good out1 out2 out3 out4]; assumption)+
qed

section \<open>Creating pools\<close>

lemma frees_perm:
  assumes "mset us = mset vs"
  shows "mset (frees (vpending m us)) = mset (frees (vpending m vs))"
proof -
  have "mset (frees (vpending m xs)) = (\<Sum>(p, S, cl, fr) \<in># mset xs. mset (frees (pending m cl)))" for xs
    by (induction xs) auto
  then show ?thesis using assms by simp
qed

lemma good_views_perm:
  assumes "mset us = mset vs"
  shows "good_views e B m us = good_views e B m vs"
proof -
  note perm = views_ok_perm [OF assms]
  have fs: "set (frees (vpending m us)) = set (frees (vpending m vs))"
    "distinct (frees (vpending m us)) = distinct (frees (vpending m vs))"
    using frees_perm [OF assms, of m] by (auto dest: mset_eq_setD mset_eq_imp_distinct_iff)
  show ?thesis
    by (simp add: good_views_def perm(1) releases_all_def frees_ready_def Let_def owned_def mutexes_free_def
      outside_blocks_def perm(2,3) fs)
qed

lemma child_created_good:
  assumes gv: "good_views e B m vs" and p: "(p, S, cl, fr) \<in> set vs"
    and st: "strict_mem e" and i: "i < SPR_MAX_POOL_SLOT"
    and ok: "blocks_ok ((a, node_len e i) # blocks m)"
  shows "good_views e B (child_created e p a i c m) ((a + 48, (\<lambda>_. [])(i := [a]), [], []) # vs)"
    "tagged (child_created e p a i c m) ((a + 48, (\<lambda>_. [])(i := [a]), [], []) # vs) = tagged m vs"
    "(q, U, dl, gr) \<in> set vs \<Longrightarrow> used_by (child_created e p a i c m) U = used_by m U"
proof -
  let ?m = "child_created e p a i c m" and ?T = "(\<lambda>_. [])(i := [a]) :: slots"
  let ?w = "(a + 48, ?T, [], []) :: view"
  have vs: "views_ok e m vs" and rel: "releases_all m vs" and own: "owned e m vs" and mx: "mutexes_free e m vs"
    and out: "outside_blocks m vs = B" using gv by (simp_all add: good_views_def)
  have pg: "page_ok e" using views_okD [OF vs p] by (simp add: pool_inv_def)
  note cv = child_created_views [OF vs p st i ok]
  note f = child_created_fields [OF cv(1,5,6)]
  have ext: "\<not> in_range a (node_len e i) h" if h: "h \<in> set (vnodes vs)" for h
  proof -
    obtain q U dl gr where "(q, U, dl, gr) \<in> set vs" "h \<in> set (all_nodes U)"
      using h unfolding vnodes_member by blast
    then show ?thesis using outside_new_block(2) [OF views_okD [OF vs] st ok] by blast
  qed
  have pool: "same_place (pools m (fst v)\<lparr>pl_child := pl_child (pools ?m (fst v))\<rparr>) (pools ?m (fst v))" if "v \<in> set vs" for v
    using f(4) cv(4) [OF that] by (cases "fst v = p") (simp_all add: same_place_def)
  have T: "set (all_nodes ?T) = {a}" using i by (auto simp: set_all_nodes)
  have new: "a \<notin> fst ` set (blocks m)" by (rule fresh_block [OF ok])
  have "pending ?m dl = pending m dl" if "(q, U, dl, gr) \<in> set vs" for q U dl gr
    using f(6) outside_new_block(3) [OF views_okD [OF vs that] st ok] by (intro pending_cong) simp
  then have "tagged ?m vs = tagged m vs" by (rule tagged_cong)
  moreover have "used_by ?m U = used_by m U" if "(q, U, dl, gr) \<in> set vs" for q U dl gr
    using f(6) outside_new_block(2) [OF views_okD [OF vs that] st ok] by (simp add: used_by_def handed_out_def)
  then show "(q, U, dl, gr) \<in> set vs \<Longrightarrow> used_by ?m U = used_by m U" .
  ultimately show tag: "tagged ?m (?w # vs) = tagged m vs" by (simp add: pending_def)
  then have pend: "vpending ?m (?w # vs) = vpending m vs" unfolding map_snd_tagged [symmetric] by (rule arg_cong)
  have mutex: "pl_mutex (pools ?m (fst v)) = pl_mutex (pools m (fst v))" if "v \<in> set vs" for v
    using pool [OF that] by (simp add: same_place_def)
  have wmutex: "pl_mutex (pools ?m (a + 48)) = pl_mutex (pools m p)"
    using mx p by (auto simp: f(5) new_pool_def mutexes_free_def Let_def)
  have mutexes: "\<exists>u \<in> set vs. pl_mutex (pools ?m (fst v)) = pl_mutex (pools m (fst u))" if "v \<in> set (?w # vs)" for v
  proof (cases "v = ?w")
    case True
    then show ?thesis using wmutex by (intro bexI [OF _ p]) simp
  next
    case False
    then have "v \<in> set vs" using that by simp
    then show ?thesis using mutex by blast
  qed
  note rels = releases_allD [OF rel]
  have ds: "d \<noteq> a" if "d \<in> set (frees (vpending m vs))" for d using rels(2) [OF that] new by blast
  have "frees_ready ?m (frees (vpending m vs))"
    using rels(1,2) by (auto simp: frees_ready_def f(1))
  moreover have "set (frees (vpending m vs)) \<inter> set (vnodes (?w # vs)) = {}"
    using rels(2) ds T by auto
  moreover have "\<not> in_range (fst b) (snd b) (pl_mutex (pools ?m (fst v)))"
    if v: "v \<in> set (?w # vs)" and b: "b \<in> set (blocks ?m)" "fst b \<in> set (frees (vpending m vs))" for v b
  proof -
    obtain u where u: "u \<in> set vs" "pl_mutex (pools ?m (fst v)) = pl_mutex (pools m (fst u))"
      using mutexes [OF v] by blast
    have "b \<in> set (blocks m)" using b ds [OF b(2)] by (auto simp: f(1))
    then show ?thesis unfolding u(2) by (rule rels(3) [OF u(1) _ b(2)])
  qed
  ultimately have "releases_all ?m (?w # vs)" unfolding releases_all_def Let_def pend by blast
  moreover have "owned e ?m (?w # vs)"
    using own pool f(5) by (auto simp: owned_def not_owner_def same_place_def new_pool_def)
  moreover have "mutexes_free e ?m (?w # vs)"
  proof -
    have "if thread_safety e then mx_owner (mutexes ?m x) = None \<and>
        (\<forall>h \<in> set (vnodes (?w # vs)). \<forall>n. (h, n) \<in> set (blocks ?m) \<longrightarrow>
          \<not> (unat (mn_begin (mnodes ?m h)) \<le> unat x \<and> unat x < unat h + unat n)) else x = NULL"
      if v: "v \<in> set (?w # vs)" and x: "x = pl_mutex (pools ?m (fst v))" for v x
    proof -
      obtain u where u: "u \<in> set vs" "x = pl_mutex (pools m (fst u))" using mutexes [OF v] x by blast
      have old: "if thread_safety e then mx_owner (mutexes m x) = None \<and>
        (\<forall>h \<in> set (vnodes vs). \<forall>n. (h, n) \<in> set (blocks m) \<longrightarrow>
          \<not> (unat (mn_begin (mnodes m h)) \<le> unat x \<and> unat x < unat h + unat n)) else x = NULL"
        using mx u(1) unfolding mutexes_free_def Let_def u(2) by blast
      obtain q U dl gr where q: "u = (q, U, dl, gr)" by (cases u)
      have xa: "\<not> in_range a (node_len e i) x" if "thread_safety e"
        using outside_new_block(4) [OF views_okD [OF vs] st ok that] u unfolding q by simp
      have "\<not> (unat (mn_begin (mnodes ?m h)) \<le> unat x \<and> unat x < unat h + unat n)"
        if h: "h \<in> set (vnodes (?w # vs))" "(h, n) \<in> set (blocks ?m)" and ts: "thread_safety e" for h n
      proof (cases "h = a")
        case True
        then have "n = node_len e i" using h(2) new by (force simp: f(1))
        then show ?thesis using xa [OF ts] home_node_exact(1) [OF pg i ok, of p] True by (auto simp: f(3) in_range_def)
      next
        case False
        then have "h \<in> set (vnodes vs)" "(h, n) \<in> set (blocks m)" using h T by (auto simp: f(1))
        then show ?thesis using old ts f(6) [OF ext] by simp
      qed
      then show ?thesis using old xa f(6) [of x] by auto
    qed
    then show ?thesis unfolding mutexes_free_def Let_def by blast
  qed
  moreover have "outside_blocks ?m (?w # vs) = B"
  proof -
    have "set (vnodes (?w # vs)) = insert a (set (vnodes vs))" using T by simp
    then show ?thesis using new unfolding out [symmetric] outside_blocks_def pend f(1) by (auto simp: image_iff)
  qed
  ultimately show "good_views e B ?m (?w # vs)" using cv(2) by (simp add: good_views_def)
qed

text \<open>A child is created in front of the children of any pool of the tree.\<close>

lemma create_child_step:
  assumes good: "good_tree e B m t" and st: "strict_mem e" and p: "p \<in> fst ` set (flat t)" and n: "create_request e n"
  obtains (fail) "spr_pool_create e n p m = Some (NULL, m\<lparr>errno := ENOMEM\<rparr>)"
  | (ok) pool m' t' where "spr_pool_create e n p m = Some (pool, m')" "pool \<noteq> NULL" "calls m' = calls m"
      "good_tree e B m' t'" "pool_of t' = pool_of t" "mset (map fst (flat t')) = add_mset pool (mset (map fst (flat t)))"
      "mset (tagged m' (flat t')) = mset (tagged m (flat t))" "set (flat t) \<subseteq> set (flat t')"
      "set (blocks m) \<subseteq> set (blocks m')"
      "\<And>q T dl gr. (q, T, dl, gr) \<in> set (flat t) \<Longrightarrow> used_by m' T = used_by m T"
proof -
  let ?i = "unat (spr_get_npages e (spr_align_allocation n + SPR_SIZEOF_MEMPOOL_T_ALIGN e) - 1)"
  obtain S cl fr where v: "(p, S, cl, fr) \<in> set (flat t)" using p by force
  note inv = good_treeD(1) [OF good v] and ds = good_treeD(2) [OF good v]
  have tr: "tree_inv e m t" and gv: "good_views e B m (flat t)"
    using good by (simp_all add: tree_inv_def good_tree_def good_views_def)
  show thesis
  proof (rule create_child_cases [OF tr v st n], goal_cases fail ok)
    case fail
    then show ?case by (rule that(1))
  next
    case (ok a c)
    let ?c = "PTree (a + 48) ((\<lambda>_. [])(?i := [a])) [] [] []" and ?m = "child_created e p a ?i c m"
    have pg: "page_ok e" using inv by (simp add: pool_inv_def)
    have i: "?i < SPR_MAX_POOL_SLOT" by (rule create_request_facts(4) [OF pg n])
    have perm: "mset (flat (add_child p ?c t)) = mset ((a + 48, (\<lambda>_. [])(?i := [a]), [], []) # flat t)"
      using flat_add_child [OF p ds, of ?c] by simp
    have "good_views e B ?m (flat (add_child p ?c t))"
      using child_created_good(1) [OF gv v st i ok(2)] unfolding good_views_perm [OF perm] .
    moreover have "linked e ?m (add_child p ?c t)"
      using child_created_tree(2) [OF tr v st i ok(2)] by (simp add: tree_inv_def)
    moreover have "mutex_home e ?m (add_child p ?c t)"
    proof -
      note cv = child_created_views [OF _ v st i ok(2)]
      have vs: "views_ok e m (flat t)" using gv by (simp add: good_views_def)
      note f = child_created_fields [OF cv(1,5,6) [OF vs]]
      obtain q T dl gr us where t: "t = PTree q T dl gr us" by (cases t)
      have "pl_mutex (pools ?m q) = pl_mutex (pools m q)"
        using f(4) cv(4) [OF vs, of "(q, T, dl, gr)"] by (cases "q = p") (simp_all add: t)
      then show ?thesis using good by (auto simp: good_tree_def mutex_home_def t f(1))
    qed
    ultimately have "good_tree e B ?m (add_child p ?c t)" by (simp add: good_tree_def)
    moreover have "mset (map fst (flat (add_child p ?c t))) = add_mset (a + 48) (mset (map fst (flat t)))"
      using arg_cong [OF perm, of "image_mset fst"] by simp
    moreover have "mset (tagged ?m (flat (add_child p ?c t))) = mset (tagged m (flat t))"
      using tagged_perm [OF perm, of ?m] unfolding child_created_good(2) [OF gv v st i ok(2)] .
    moreover have "set (flat t) \<subseteq> set (flat (add_child p ?c t))" using mset_eq_setD [OF perm] by auto
    moreover have "calls ?m = calls m" "set (blocks m) \<subseteq> set (blocks ?m)"
      by (auto simp: child_created_def Let_def)
    ultimately show ?thesis
      by (intro that(2) [OF ok(1,3)]) (simp_all add: child_created_good(3) [OF gv v st i ok(2)])
  qed
qed

text \<open>A new root pool is a good tree, and all blocks from before are outside of it.\<close>

lemma root_created_good:
  assumes pg: "page_ok e" and al: "alloc_ok e" and i: "i < SPR_MAX_POOL_SLOT"
    and bl: "blocks_ok ((a, node_len e i) # blocks m)"
  shows "good_tree e (set (blocks m)) (root_created e a i c m) (PTree (a + 48) ((\<lambda>_. [])(i := [a])) [] [] [])"
proof -
  let ?m = "root_created e a i c m" and ?T = "(\<lambda>_. [])(i := [a]) :: slots"
  have inv: "pool_inv e ?m (a + 48) ?T [] []" by (rule root_created_inv(1) [OF pg al i bl])
  have T: "set (all_nodes ?T) = {a}" using i by (auto simp: set_all_nodes)
  have new: "a \<notin> fst ` set (blocks m)" by (rule fresh_block [OF bl])
  have m: "blocks ?m = (a, node_len e i) # blocks m" "mnodes ?m a = home_node e NULL a (node_len e i)"
    "pools ?m (a + 48) = new_pool e i a (a + 48 + SPR_SIZEOF_MEMPOOL_T_ALIGN e)"
    "thread_safety e \<Longrightarrow> mx_owner (mutexes ?m (a + 48 + SPR_SIZEOF_MEMPOOL_T_ALIGN e)) = None"
    by (simp_all add: root_created_def Let_def)
  note h = home_node_exact(1,3) [OF pg i bl, where parent = NULL] home_node_exact(5) [OF pg i bl]
  have "unat (a + 48 + SPR_SIZEOF_MEMPOOL_T_ALIGN e) < unat (mn_begin (mnodes ?m a))" if "thread_safety e"
  proof -
    have "unat (a + 48 + SPR_SIZEOF_MEMPOOL_T_ALIGN e) = unat a + 48 + unat (SPR_SIZEOF_MEMPOOL_T_ALIGN e)"
      using h(2,3) bl that by (subst unat_add_exact) (auto simp: mutex_part_def size_constants)
    then show ?thesis using h(1) that by (simp add: m(2) mutex_part_def size_constants)
  qed
  then have "mutexes_free e ?m [(a + 48, ?T, [], [])]"
    using m(3,4) T by (auto simp: mutexes_free_def Let_def new_pool_def)
  moreover have "views_ok e ?m [(a + 48, ?T, [], [])]"
    using inv by (simp add: views_ok_def pool_inv_def nodes_inv_def)
  moreover have "releases_all ?m [(a + 48, ?T, [], [])]"
    by (simp add: releases_all_def Let_def frees_ready_def pending_def)
  moreover have "owned e ?m [(a + 48, ?T, [], [])]" by (simp add: owned_def not_owner_def m(3) new_pool_def)
  moreover have "outside_blocks ?m [(a + 48, ?T, [], [])] = set (blocks m)"
    using new T by (auto simp: outside_blocks_def m(1) pending_def image_iff)
  moreover have "in_range a (node_len e i) (a + 48 + SPR_SIZEOF_MEMPOOL_T_ALIGN e)" if ts: "thread_safety e"
  proof -
    have "unat (a + 48 + SPR_SIZEOF_MEMPOOL_T_ALIGN e) = unat a + 48 + unat (SPR_SIZEOF_MEMPOOL_T_ALIGN e)"
      using h(2,3) bl ts by (subst unat_add_exact) (auto simp: mutex_part_def size_constants)
    then show ?thesis using h(2) ts by (simp add: in_range_def mutex_part_def size_constants)
  qed
  then have "mutex_home e ?m (PTree (a + 48) ?T [] [] [])"
    using T by (auto simp: mutex_home_def m(1,3) new_pool_def)
  ultimately show ?thesis
    by (simp add: good_tree_def good_views_def m(3) new_pool_def zero_pool_def)
qed

end
