(* ===== verification/Spr_Pool_Held.thy ===== *)
theory Spr_Pool_Held
  imports Spr_Pool_Good
begin

text \<open>
  The memory that the client of a good tree of pools holds: steps of the pools keep it, and new memory
  never overlaps it.
\<close>

section \<open>What a client holds\<close>

text \<open>A client holds memory that a pool has handed out and does not use for its cleanups, or a block that
  a cleanup will release.\<close>

definition held :: "mem \<Rightarrow> view list \<Rightarrow> addr \<times> size \<Rightarrow> bool" where
  "held m vs r \<longleftrightarrow> (\<exists>(p, S, cl, fr) \<in> set vs. region (fst r) (snd r) \<subseteq> used_by m S \<and>
       (\<forall>c \<in> set (cl @ fr). region (fst r) (snd r) \<inter> {unat c..<unat c + 24} = {})) \<or>
     (\<exists>k. (fst r, k) \<in> set (blocks m) \<and> fst r \<in> set (frees (vpending m vs)) \<and> unat (snd r) \<le> unat k)"

lemma heldE:
  assumes "held m vs (a, n)"
  obtains (used) p S cl fr where "(p, S, cl, fr) \<in> set vs" "region a n \<subseteq> used_by m S"
      "\<forall>c \<in> set (cl @ fr). region a n \<inter> {unat c..<unat c + 24} = {}"
  | (block) k where "(a, k) \<in> set (blocks m)" "a \<in> set (frees (vpending m vs))" "unat n \<le> unat k"
  using assms unfolding held_def by fastforce

lemma held_used: "(p, S, cl, fr) \<in> set vs \<Longrightarrow> region a n \<subseteq> used_by m S \<Longrightarrow>
    \<forall>c \<in> set (cl @ fr). region a n \<inter> {unat c..<unat c + 24} = {} \<Longrightarrow> held m vs (a, n)"
  unfolding held_def by fastforce

lemma held_block:
  "(a, k) \<in> set (blocks m) \<Longrightarrow> a \<in> set (frees (vpending m vs)) \<Longrightarrow> unat n \<le> unat k \<Longrightarrow> held m vs (a, n)"
  unfolding held_def by fastforce

text \<open>It does not notice changes that leave the handed out memory and the registrations alone.\<close>

lemma held_agree:
  assumes "held m us (a, n)" "set us \<subseteq> set vs"
    and used: "\<And>q T dl gr. (q, T, dl, gr) \<in> set us \<Longrightarrow> used_by m' T = used_by m T"
    and "set (blocks m) \<subseteq> set (blocks m')" "set (vpending m us) \<subseteq> set (vpending m' vs)"
  shows "held m' vs (a, n)"
  using assms(1)
proof (cases rule: heldE)
  case (used p S cl fr)
  then show ?thesis using assms(2,3) by (intro held_used [of p S cl fr]) auto
next
  case (block k)
  then show ?thesis using assms(4,5) by (intro held_block [of a k]) (auto simp: frees_set)
qed

lemma memzero_held:
  assumes good: "good_tree e B m t" and held: "held m (flat t) (a, n)"
  shows "good_tree e B (spr_memzero a n m) t" "tagged (spr_memzero a n m) (flat t) = tagged m (flat t)"
    "held m (flat t) r \<Longrightarrow> held (spr_memzero a n m) (flat t) r"
proof -
  let ?z = "spr_memzero a n m"
  have all: "good_tree e B ?z t \<and> tagged ?z (flat t) = tagged m (flat t) \<and>
      (\<forall>q T dl gr. (q, T, dl, gr) \<in> set (flat t) \<longrightarrow> used_by ?z T = used_by m T)"
    using held
  proof (cases rule: heldE)
    case (used p S cl fr)
    have "unat c \<notin> region a n" if c: "c \<in> set (cl @ fr)" for c
    proof -
      have "region a n \<inter> {unat c..<unat c + 24} = {}" using used(3) c by blast
      moreover have "unat c \<in> {unat c..<unat c + 24}" by simp
      ultimately show ?thesis by blast
    qed
    then have cln: "\<forall>c \<in> set (cl @ fr). unat c \<notin> region a n" by blast
    show ?thesis using memzero_used [OF good used(1,2) cln] by blast
  next
    case (block k)
    show ?thesis using memzero_owned [OF good block] by blast
  qed
  then show "good_tree e B ?z t" and tag: "tagged ?z (flat t) = tagged m (flat t)" by blast+
  have pend: "vpending ?z (flat t) = vpending m (flat t)"
    unfolding map_snd_tagged [symmetric] by (rule arg_cong [OF tag])
  have used: "used_by ?z T = used_by m T" if "(q, T, dl, gr) \<in> set (flat t)" for q T dl gr using all that by blast
  assume "held m (flat t) r"
  then have "held m (flat t) (fst r, snd r)" by simp
  then have "held ?z (flat t) (fst r, snd r)"
    by (rule held_agree [OF _ subset_refl used]) (simp_all add: pend)
  then show "held ?z (flat t) r" by simp
qed

lemma step_held:
  assumes good: "good_tree e B m t" and st: "strict_mem e" and v: "v \<in> set (flat t)"
    and step: "pool_step e m v m' v' F A" and held: "held m (flat t) (a, n)" and F: "a \<notin> F"
  shows "held m' (flat (put_view v' t)) (a, n)"
proof -
  note parts = good [unfolded good_tree_def good_views_def]
  obtain us ws where t: "flat t = us @ v # ws" "flat (put_view v' t) = us @ v' # ws"
    by (rule flat_put_step [OF good v step])
  obtain p S cl fr where p: "v = (p, S, cl, fr)" by (cases v)
  obtain p' S' cl' fr' where p': "v' = (p', S', cl', fr')" by (cases v')
  note s = step [unfolded pool_step_def p p' prod.case]
  from held show ?thesis
  proof (cases rule: heldE)
    case (used q T dl gr)
    show ?thesis
    proof (cases "(q, T, dl, gr) \<in> set (us @ ws)")
      case True
      then have "\<forall>a \<in> set (all_nodes T). mnodes m' a = mnodes m a"
        using step_others(5) [OF _ _ st step] parts unfolding t(1) by blast
      then have "used_by m' T = used_by m T" by (simp add: used_by_def handed_out_def)
      moreover have "(q, T, dl, gr) \<in> set (flat (put_view v' t))" using True by (auto simp: t(2))
      ultimately show ?thesis using used(2,3) by (intro held_used [of q T dl gr]) simp_all
    next
      case False
      then have eq: "T = S" "dl = cl" "gr = fr" using used(1) unfolding t(1) p by auto
      have "pool_frame m p S m' S'" using s by simp
      then have "region a n \<subseteq> used_by m' S'" using pool_frameD(4) used(2) unfolding eq by blast
      moreover have "region a n \<inter> {unat c..<unat c + 24} = {}" if c: "c \<in> set (cl' @ fr')" for c
      proof -
        have "c \<in> set (cl @ fr) \<or> {unat c..<unat c + 24} \<inter> used_by m S = {}" using s c by blast
        then show ?thesis using used(2,3) unfolding eq by blast
      qed
      moreover have "(p', S', cl', fr') \<in> set (flat (put_view v' t))" unfolding t(2) by (simp add: p')
      ultimately show ?thesis by (intro held_used [of p' S' cl' fr']) simp_all
    qed
  next
    case (block k)
    note pend = step_pending [OF _ _ st step]
    have "vpending m' us = vpending m us" "vpending m' ws = vpending m ws"
      using pend(1) parts unfolding t(1) by (blast, use pend(2) parts t(1) in metis)
    then have "a \<in> set (frees (vpending m' (flat (put_view v' t))))"
      using block(2) s F unfolding t by (auto simp: p p')
    moreover have "(a, k) \<in> set (blocks m')" using block(1) s F by simp
    ultimately show ?thesis using block(3) by (intro held_block)
  qed
qed

text \<open>What lies in the nodes or in the blocks of another pool is apart from a new block.\<close>

lemma used_in_block:
  assumes "pool_inv e m p S cl fr" "x \<in> used_by m S"
  obtains h l where "h \<in> set (all_nodes S)" "(h, l) \<in> set (blocks m)" "unat h \<le> x" "x < unat h + unat l"
proof -
  have nd: "nodes_inv e m p S" using assms(1) by (simp add: pool_inv_def)
  obtain h where h: "h \<in> set (all_nodes S)" "unat h \<le> x" "x < unat (mn_first_avail (mnodes m h))"
    by (rule used_in_node [OF nd assms(2)])
  obtain l where "(h, l) \<in> set (blocks m)" "unat (mn_first_avail (mnodes m h)) \<le> unat h + unat l"
    by (rule node_block [OF nd h(1)])
  then show thesis using h by (intro that [of h l]) simp_all
qed

lemma held_in_block:
  assumes good: "good_tree e B m t" and held: "held m (flat t) (b, k)" and x: "x \<in> region b k"
  obtains h l where "(h, l) \<in> set (blocks m)" "unat h \<le> x" "x < unat h + unat l"
  using held
proof (cases rule: heldE)
  case (used p S cl fr)
  have "x \<in> used_by m S" using used(2) x by blast
  then obtain h l where "(h, l) \<in> set (blocks m)" "unat h \<le> x" "x < unat h + unat l"
    by (rule used_in_block [OF good_treeD(1) [OF good used(1)]])
  then show thesis by (rule that)
next
  case (block l)
  then show thesis using x by (intro that [of b l]) (auto simp: region_def)
qed

lemma new_block_apart:
  assumes good: "good_tree e B m t" and held: "held m (flat t) (b, k)"
    and ok: "blocks_ok ((a, l) # blocks m)" and n: "unat n \<le> unat l"
  shows "region a n \<inter> region b k = {}"
proof (rule Int_emptyI)
  fix x assume x: "x \<in> region a n" "x \<in> region b k"
  obtain h i where h: "(h, i) \<in> set (blocks m)" "unat h \<le> x" "x < unat h + unat i"
    by (rule held_in_block [OF good held x(2)])
  have "apart (a, l) (h, i)" using ok h(1) by (auto simp: list_all_iff)
  then show False using h x(1) n by (auto simp: region_def)
qed

text \<open>New memory of a pool is apart from everything held before.\<close>

lemma new_used_apart:
  assumes good: "good_tree e B m t" and st: "strict_mem e" and v: "(p, S, cl, fr) \<in> set (flat t)"
    and step: "pool_step e m (p, S, cl, fr) m' (p, S', cl', fr') {} {}"
    and new: "region a n \<inter> used_by m S = {}" "region a n \<subseteq> used_by m' S'"
    and held: "held m (flat t) (b, k)"
  shows "region a n \<inter> region b k = {}"
proof -
  let ?v = "(p, S, cl, fr)" and ?v' = "(p, S', cl', fr')"
  note parts = good [unfolded good_tree_def good_views_def]
  obtain us ws where t: "flat t = us @ ?v # ws" "flat (put_view ?v' t) = us @ ?v' # ws"
    by (rule flat_put_step [OF good v step])
  have good': "good_tree e B m' (put_view ?v' t)" by (rule good_tree_step(1) [OF good st v step])
  have v': "?v' \<in> set (flat (put_view ?v' t))" by (simp add: t(2))
  note inv' = good_treeD(1) [OF good' v']
  from held show ?thesis
  proof (cases rule: heldE)
    case (used q T dl gr)
    show ?thesis
    proof (cases "(q, T, dl, gr) \<in> set (us @ ws)")
      case True
      note oth = step_others [OF _ _ st step True]
      have "\<forall>a \<in> set (all_nodes T). mnodes m' a = mnodes m a" and q: "q \<noteq> p"
        using oth(1,5) parts unfolding t(1) by (blast, simp)
      then have same: "used_by m' T = used_by m T" by (simp add: used_by_def handed_out_def)
      have w: "(q, T, dl, gr) \<in> set (flat (put_view ?v' t))" using True by (auto simp: t(2))
      have vs': "views_ok e m' (flat (put_view ?v' t))" using good' by (simp add: good_tree_def good_views_def)
      have "set (all_nodes S') \<inter> set (all_nodes T) = {}"
        by (rule views_distinct_nodes [OF vs' v' w]) (use q in simp)
      then have "used_by m' S' \<inter> used_by m' T = {}" by (rule pools_apart(2) [OF inv' good_treeD(1) [OF good' w]])
      then show ?thesis using new(2) used(2) same by blast
    next
      case False
      then have "T = S" using used(1) by (auto simp: t(1))
      then show ?thesis using new(1) used(2) by blast
    qed
  next
    case (block l)
    show ?thesis
    proof (rule Int_emptyI)
      fix x assume x: "x \<in> region a n" "x \<in> region b k"
      have "x \<in> used_by m' S'" using new(2) x(1) by blast
      then obtain h i where h: "h \<in> set (all_nodes S')" "(h, i) \<in> set (blocks m')" "unat h \<le> x" "x < unat h + unat i"
        by (rule used_in_block [OF inv'])
      have rel: "releases_all m (flat t)" using parts by simp
      have "b \<in> fst ` set (blocks m)" "b \<notin> set (all_nodes S)"
        using releases_allD(2) [OF rel block(2)] views_member [OF v] by blast+
      moreover have "pool_frame m p S m' S'" using step by (simp add: pool_step_def)
      ultimately have "h \<noteq> b" using pool_frameD(2) h(1) by blast
      moreover have "(b, l) \<in> set (blocks m')" using block(1) step by (simp add: pool_step_def)
      moreover have "blocks_ok (blocks m')" using inv' by (simp add: pool_inv_def)
      ultimately have "apart (h, i) (b, l)" using blocks_ok_apart h(2) by blast
      then show False using h(3,4) x(2) block(3) by (auto simp: region_def)
    qed
  qed
qed

section \<open>What an allocation gives\<close>

lemma hands_out_step:
  assumes good: "good_tree e B m t" and st: "strict_mem e" and v: "(p, S, cl, fr) \<in> set (flat t)"
    and h: "hands_out e p k m S a m' S'" and n: "unat n \<le> unat k"
  shows "pool_step e m (p, S, cl, fr) m' (p, S', cl, fr) {} {}" "calls m' = calls m" "pending m' cl = pending m cl"
    "held m' (flat (put_view (p, S', cl, fr) t)) (a, n)"
    "held m (flat t) r \<Longrightarrow> region a n \<inter> region (fst r) (snd r) = {}"
proof -
  note inv = good_treeD(1) [OF good v] and rel = good_treeD(3) [OF good v]
  show pend: "pending m' cl = pending m cl" and "calls m' = calls m" using h by (simp_all add: hands_out_def pending_def)
  show step: "pool_step e m (p, S, cl, fr) m' (p, S', cl, fr) {} {}"
    using hands_out_inv [OF inv h] h rel pend
    by (intro step_grows [OF inv]) (simp_all add: hands_out_def releases_ok_def frees_ready_def)
  have sub: "region a n \<subseteq> {unat a..<unat a + unat k}" using n by (auto simp: region_def)
  have a: "region a n \<inter> used_by m S = {}" "region a n \<subseteq> used_by m' S'"
    using h sub by (auto simp: hands_out_def)
  have "region a n \<inter> {unat c..<unat c + 24} = {}" if c: "c \<in> set (cl @ fr)" for c
  proof -
    have "{unat c..<unat c + 24} \<subseteq> used_by m S" using inv c by (simp add: pool_inv_def cleanups_inv_def)
    then show ?thesis using a(1) by blast
  qed
  then have cln: "\<forall>c \<in> set (cl @ fr). region a n \<inter> {unat c..<unat c + 24} = {}" by blast
  obtain us ws where t': "flat (put_view (p, S', cl, fr) t) = us @ (p, S', cl, fr) # ws"
    by (rule flat_put_step [OF good v step])
  show "held m' (flat (put_view (p, S', cl, fr) t)) (a, n)"
    by (rule held_used [of p S' cl fr, OF _ a(2) cln]) (simp add: t')
  show "region a n \<inter> region (fst r) (snd r) = {}" if "held m (flat t) r"
    using new_used_apart [OF good st v step a, of "fst r" "snd r"] that by simp
qed

end
