(* ===== verification/Spr_Pool_Session.thy ===== *)
theory Spr_Pool_Session
  imports Spr_Pool_Held
begin

text \<open>
  Sessions: a client creates a root pool and then calls the operations of the pools in any order. Every
  call that the interface allows is defined unless it is starved of memory, the memory the client holds
  never overlaps, and destroying a root pool leaves nothing when the pools live in blocks of twenty pages.
\<close>

section \<open>The calls of a client\<close>

text \<open>The calls a client makes on the pools of a tree, the ones that destroy or clear it aside; handlers
  that it registers are its own functions.\<close>

datatype pool_call =
    Palloc addr size
  | Pcalloc addr size
  | Cleanup_add addr addr nat
  | Cleanup_run1 addr addr handler
  | Cleanup_remove1 addr addr nat
  | Cleanup_run_all addr
  | Create_child addr size
  | Get_size addr
  | Get_free_size addr
  | Get_total_size addr

fun exec :: "env \<Rightarrow> pool_call \<Rightarrow> mem \<Rightarrow> (addr \<times> mem) option" where
  "exec e (Palloc p n) m = spr_palloc e p n m"
| "exec e (Pcalloc p n) m = spr_pcalloc e p n m"
| "exec e (Cleanup_add p d k) m = map_option (Pair NULL) (spr_pool_cleanup_add1 e p d (H_user k) m)"
| "exec e (Cleanup_run1 p d h) m = map_option (Pair NULL) (spr_pool_cleanup_run1 e p d h m)"
| "exec e (Cleanup_remove1 p d k) m = map_option (Pair NULL) (spr_pool_cleanup_remove1 e p d (H_user k) m)"
| "exec e (Cleanup_run_all p) m = map_option (Pair NULL) (spr_pool_cleanup_run_all e p m)"
| "exec e (Create_child p n) m = spr_pool_create e n p m"
| "exec e (Get_size p) m = map_option (\<lambda>n. (n, m)) (spr_pool_get_size e p m)"
| "exec e (Get_free_size p) m = map_option (\<lambda>n. (n, m)) (spr_pool_get_free_size e p m)"
| "exec e (Get_total_size p) m = map_option (\<lambda>n. (n, m)) (spr_pool_get_total_size e p m)"

text \<open>A session: the memory, and what the client knows: the pools, which cleanups are registered with
  which pool, and the memory it has been given and may still use.\<close>

type_synonym registration = "addr \<times> handler \<times> addr"

record session =
  s_mem :: mem
  s_pools :: "addr list"
  s_registered :: "registration multiset"
  s_held :: "(addr \<times> size) list"

definition servable :: "env \<Rightarrow> size \<Rightarrow> bool" where
  "servable e n \<longleftrightarrow> small_request e n \<or> large_request e n"

text \<open>What the client has to keep to: it calls its own pools, with sizes a pool can serve, and runs and
  removes only cleanups that are registered.\<close>

fun allowed :: "env \<Rightarrow> session \<Rightarrow> pool_call \<Rightarrow> bool" where
  "allowed e s (Palloc p n) \<longleftrightarrow> p \<in> set (s_pools s) \<and> servable e n"
| "allowed e s (Pcalloc p n) \<longleftrightarrow> p \<in> set (s_pools s) \<and> servable e n"
| "allowed e s (Cleanup_add p d k) \<longleftrightarrow> p \<in> set (s_pools s)"
| "allowed e s (Cleanup_run1 p d h) \<longleftrightarrow> (p, h, d) \<in># s_registered s"
| "allowed e s (Cleanup_remove1 p d k) \<longleftrightarrow> (p, H_user k, d) \<in># s_registered s"
| "allowed e s (Cleanup_run_all p) \<longleftrightarrow> p \<in> set (s_pools s)"
| "allowed e s (Create_child p n) \<longleftrightarrow> p \<in> set (s_pools s) \<and> create_request e n"
| "allowed e s (Get_size p) \<longleftrightarrow> p \<in> set (s_pools s)"
| "allowed e s (Get_free_size p) \<longleftrightarrow> p \<in> set (s_pools s)"
| "allowed e s (Get_total_size p) \<longleftrightarrow> p \<in> set (s_pools s)"

text \<open>The cleanups a call runs, and those it takes off without running them.\<close>

fun runs :: "pool_call \<Rightarrow> registration multiset \<Rightarrow> registration multiset" where
  "runs (Cleanup_run1 p d h) rs = {#(p, h, d)#}"
| "runs (Cleanup_run_all p) rs = filter_mset (\<lambda>r. fst r = p) rs"
| "runs _ rs = {#}"

fun removes :: "pool_call \<Rightarrow> registration multiset" where
  "removes (Cleanup_remove1 p d k) = {#(p, H_user k, d)#}"
| "removes _ = {#}"

text \<open>The cleanups that a call with result \<open>a\<close> registers, the memory it gives, the pool it creates.\<close>

fun registers :: "env \<Rightarrow> pool_call \<Rightarrow> addr \<Rightarrow> registration multiset" where
  "registers e (Cleanup_add p d k) a = {#(p, H_user k, d)#}"
| "registers e (Palloc p n) a = (if a \<noteq> NULL \<and> large_request e n then {#(p, H_spr_free, a)#} else {#})"
| "registers e (Pcalloc p n) a = (if a \<noteq> NULL \<and> large_request e n then {#(p, H_spr_free, a)#} else {#})"
| "registers e _ a = {#}"

fun gives :: "pool_call \<Rightarrow> addr \<Rightarrow> (addr \<times> size) list" where
  "gives (Palloc p n) a = (if a \<noteq> NULL then [(a, n)] else [])"
| "gives (Pcalloc p n) a = (if a \<noteq> NULL then [(a, n)] else [])"
| "gives _ a = []"

fun creates :: "pool_call \<Rightarrow> addr \<Rightarrow> addr list" where
  "creates (Create_child p n) a = (if a \<noteq> NULL then [a] else [])"
| "creates _ a = []"

definition released :: "registration multiset \<Rightarrow> addr \<Rightarrow> bool" where
  "released rs a \<longleftrightarrow> (H_spr_free, a) \<in># image_mset snd rs"

definition after :: "env \<Rightarrow> pool_call \<Rightarrow> addr \<Rightarrow> mem \<Rightarrow> session \<Rightarrow> session" where
  "after e c a m s =
     \<lparr>s_mem = m, s_pools = creates c a @ s_pools s,
      s_registered = s_registered s - runs c (s_registered s) - removes c + registers e c a,
      s_held = gives c a @ filter (\<lambda>r. \<not> released (runs c (s_registered s)) (fst r)) (s_held s)\<rparr>"

text \<open>A run of a client from a given state: its calls, and its own writes between them.\<close>

inductive session_run :: "env \<Rightarrow> session \<Rightarrow> session \<Rightarrow> bool" for e s0 where
  run_start: "session_run e s0 s0"
| run_call: "session_run e s0 s \<Longrightarrow> allowed e s c \<Longrightarrow> exec e c (s_mem s) = Some (a, m) \<Longrightarrow>
    session_run e s0 (after e c a m s)"
| run_write: "session_run e s0 s \<Longrightarrow>
    session_run e s0 (s\<lparr>s_mem := (s_mem s)\<lparr>bytes := b, lists := l, lnodes := n, arrays := y\<rparr>\<rparr>)"

section \<open>The invariant of a session\<close>

definition apart_regions :: "(addr \<times> size) list \<Rightarrow> bool" where
  "apart_regions rs \<longleftrightarrow> sorted_wrt (\<lambda>(a, n) (b, k). region a n \<inter> region b k = {}) rs"

text \<open>The memory is a good tree, with the client's knowledge right.\<close>

definition agrees :: "session \<Rightarrow> ptree \<Rightarrow> bool" where
  "agrees s t \<longleftrightarrow> mset (map fst (flat t)) = mset (s_pools s) \<and>
     mset (tagged (s_mem s) (flat t)) = s_registered s \<and>
     (\<forall>r \<in> set (s_held s). held (s_mem s) (flat t) r) \<and> apart_regions (s_held s)"

definition session_ok :: "env \<Rightarrow> (addr \<times> size) set \<Rightarrow> addr \<Rightarrow> session \<Rightarrow> bool" where
  "session_ok e B root s \<longleftrightarrow> (\<exists>t. good_tree e B (s_mem s) t \<and> pool_of t = root \<and> agrees s t)"

lemma mset_balance:
  fixes G :: "'a multiset"
  assumes "X + V = R + W" "W + G = V + N" "G \<subseteq># R"
  shows "X = R - G + N"
proof -
  obtain Q where R: "R = G + Q" using assms(3) by (auto simp: mset_subset_eq_exists_conv)
  have "X + V = Q + N + V" using assms(1,2) unfolding R by (metis union_assoc union_commute)
  then show ?thesis by (simp add: R)
qed

lemma session_ok_step:
  assumes good: "good_tree e B (s_mem s) t" and st: "strict_mem e" and agr: "agrees s t"
    and v: "v \<in> set (flat t)" and step: "pool_step e (s_mem s) v m v' F A"
    and new: "creates c a = []" "apart_regions (gives c a)"
      "\<And>q r. q \<in> set (gives c a) \<Longrightarrow> r \<in> set (s_held s) \<Longrightarrow>
        region (fst q) (snd q) \<inter> region (fst r) (snd r) = {}"
      "\<And>r. r \<in> set (gives c a) \<Longrightarrow> held m (flat (put_view v' t)) r"
    and gone: "runs c (s_registered s) + removes c \<subseteq># s_registered s"
      "mset (tagged m [v']) + (runs c (s_registered s) + removes c) = mset (tagged (s_mem s) [v]) + registers e c a"
      "\<And>d. d \<in> F \<Longrightarrow> released (runs c (s_registered s)) d"
  shows "session_ok e B (pool_of t) (after e c a m s)"
proof -
  let ?t = "put_view v' t" and ?s = "after e c a m s"
  note a = agr [unfolded agrees_def] and g = good_tree_step [OF good st v step]
  have "mset (tagged m (flat ?t)) = s_registered s - (runs c (s_registered s) + removes c) + registers e c a"
    using g(3) a by (intro mset_balance [OF _ gone(2,1)]) simp
  then have reg: "mset (tagged m (flat ?t)) = s_registered ?s" by (simp add: after_def diff_diff_add_mset)
  moreover have "held m (flat ?t) r" if r: "r \<in> set (s_held ?s)" for r
  proof (cases "r \<in> set (gives c a)")
    case False
    then have "r \<in> set (s_held s)" "\<not> released (runs c (s_registered s)) (fst r)" using r by (auto simp: after_def)
    moreover from this have "held (s_mem s) (flat t) (fst r, snd r)" "fst r \<notin> F" using a gone(3) by auto
    ultimately show ?thesis using step_held [OF good st v step, of "fst r" "snd r"] by simp
  qed (rule new(4))
  moreover have "apart_regions (s_held ?s)"
    using a new(2,3) by (simp add: after_def apart_regions_def sorted_wrt_append sorted_wrt_filter case_prod_unfold)
  ultimately have "agrees ?s ?t" using a g(2) by (simp add: agrees_def after_def new(1))
  then show ?thesis using g(1) unfolding session_ok_def by (intro exI [of _ ?t]) (simp add: after_def)
qed

section \<open>Every allowed call is safe\<close>

text \<open>The case in which the code dereferences null: the call registers a cleanup, and none is reserved,
  no memory node of the pool has room for one and the system gives no page. A large request does so
  when it has got its own memory.\<close>

definition large_starved :: "env \<Rightarrow> addr \<Rightarrow> size \<Rightarrow> mem \<Rightarrow> bool" where
  "large_starved e p n m \<longleftrightarrow> large_request e n \<and>
     sys_alloc e (blocks m) (spr_align_allocation n) \<noteq> NULL \<and>
     no_cleanup_node e p (snd (spr_malloc e (spr_align_allocation n) m))"

fun starved :: "env \<Rightarrow> pool_call \<Rightarrow> mem \<Rightarrow> bool" where
  "starved e (Palloc p n) m \<longleftrightarrow> large_starved e p n m"
| "starved e (Pcalloc p n) m \<longleftrightarrow> large_starved e p n m"
| "starved e (Cleanup_add p d k) m \<longleftrightarrow> no_cleanup_node e p m"
| "starved e _ m \<longleftrightarrow> False"

definition call_safe :: "env \<Rightarrow> (addr \<times> size) set \<Rightarrow> addr \<Rightarrow> session \<Rightarrow> pool_call \<Rightarrow> bool" where
  "call_safe e B root s c \<longleftrightarrow> (\<exists>a m. exec e c (s_mem s) = Some (a, m) \<and> session_ok e B root (after e c a m s) \<and>
     mset (calls m) = mset (calls (s_mem s)) + image_mset snd (runs c (s_registered s)))"

lemma call_safeI:
  "exec e c (s_mem s) = Some (a, m) \<Longrightarrow> session_ok e B root (after e c a m s) \<Longrightarrow>
   mset (calls m) = mset (calls (s_mem s)) + image_mset snd (runs c (s_registered s)) \<Longrightarrow> call_safe e B root s c"
  unfolding call_safe_def by blast

text \<open>The pools and registrations the client knows are those of the tree.\<close>

lemma agrees_pool:
  assumes "agrees s t" "p \<in> set (s_pools s)"
  obtains S cl fr where "(p, S, cl, fr) \<in> set (flat t)"
proof -
  have "set (map fst (flat t)) = set (s_pools s)"
    using assms(1) mset_eq_setD unfolding agrees_def by blast
  then have "p \<in> fst ` set (flat t)" using assms(2) by simp
  then obtain v where "v \<in> set (flat t)" "p = fst v" by (rule imageE) blast
  then have "(p, fst (snd v), fst (snd (snd v)), snd (snd (snd v))) \<in> set (flat t)" by simp
  then show thesis by (rule that)
qed

lemma agrees_registered:
  assumes "agrees s t" "(p, h, d) \<in># s_registered s"
  obtains S cl fr where "(p, S, cl, fr) \<in> set (flat t)" "(h, d) \<in> set (pending (s_mem s) cl)"
proof -
  have "(p, h, d) \<in> set (tagged (s_mem s) (flat t))"
    using assms by (metis agrees_def set_mset_mset)
  then show thesis by (auto simp: tagged_def intro: that)
qed

lemma agrees_same:
  assumes "good_tree e B m t" "agrees s t" "tagged m (flat t) = tagged (s_mem s) (flat t)"
    and "\<And>r. held (s_mem s) (flat t) r \<Longrightarrow> held m (flat t) r"
  shows "session_ok e B (pool_of t) (s\<lparr>s_mem := m\<rparr>)"
  using assms unfolding session_ok_def agrees_def by (intro exI [of _ t]) simp

lemma held_clients: "held (m\<lparr>errno := x\<rparr>) vs = held m vs"
  "held (m\<lparr>bytes := b, lists := l, lnodes := n, arrays := y\<rparr>) vs = held m vs"
  by (simp_all add: fun_eq_iff held_def used_by_def handed_out_def vpending_def pending_def)

lemma session_ok_errno:
  assumes "session_ok e B root s"
  shows "session_ok e B root (s\<lparr>s_mem := (s_mem s)\<lparr>errno := x\<rparr>\<rparr>)"
    "session_ok e B root (s\<lparr>s_mem := (s_mem s)\<lparr>bytes := b, lists := l, lnodes := n, arrays := y\<rparr>\<rparr>)"
proof -
  obtain t where t: "good_tree e B (s_mem s) t" "pool_of t = root" "agrees s t"
    using assms by (auto simp: session_ok_def)
  show "session_ok e B root (s\<lparr>s_mem := (s_mem s)\<lparr>errno := x\<rparr>\<rparr>)"
    unfolding t(2) [symmetric] by (rule agrees_same [OF good_tree_clients(1) [OF t(1)] t(3)])
      (simp_all add: good_tree_clients(2) [OF t(1)] held_clients)
  show "session_ok e B root (s\<lparr>s_mem := (s_mem s)\<lparr>bytes := b, lists := l, lnodes := n, arrays := y\<rparr>\<rparr>)"
    unfolding t(2) [symmetric] by (rule agrees_same [OF good_tree_clients(3) [OF t(1)] t(3)])
      (simp_all add: good_tree_clients(4) [OF t(1)] held_clients)
qed

text \<open>A call that fails with \<^verbatim>\<open>ENOMEM\<close> changes nothing that matters.\<close>

lemma after_failed:
  assumes "c = Palloc p n \<or> c = Pcalloc p n \<or> c = Create_child p n"
  shows "after e c NULL m s = s\<lparr>s_mem := m\<rparr>"
  using assms by (auto simp: after_def released_def)

lemma request_le:
  assumes "page_ok e" "servable e n"
  shows "unat n \<le> unat (spr_align_allocation n)"
proof (cases "small_request e n")
  case True
  then show ?thesis by (rule small_request_facts(3) [OF assms(1)])
next
  case False
  then have "large_request e n" using assms(2) by (simp add: servable_def)
  then have "unat n + 7 < 2 ^ 64" by (simp add: large_request_def round_up_def) linarith
  then have "unat (spr_align_allocation n) = round_up (unat n)" by (simp add: align_allocation_value round_up_def)
  then show ?thesis unfolding round_up_def by linarith
qed

lemma small_not_large: "page_ok e \<Longrightarrow> small_request e n \<Longrightarrow> \<not> large_request e n"
  by (auto simp: small_request_def large_request_def page_ok_def less_mult_imp_div_less dest!: less_mult_imp_div_less)

lemma palloc_session:
  assumes s_ok: "session_ok e B root s" and st: "strict_mem e" and al: "allowed e s (Palloc p n)"
  obtains (null) "large_starved e p n (s_mem s)" "spr_palloc e p n (s_mem s) = None"
  | (ok) a m where "\<not> large_starved e p n (s_mem s)" "spr_palloc e p n (s_mem s) = Some (a, m)" "session_ok e B root (after e (Palloc p n) a m s)"
      "calls m = calls (s_mem s)" "page_ok e"
proof -
  let ?m = "s_mem s" and ?c = "Palloc p n"
  obtain t where good: "good_tree e B ?m t" and root: "pool_of t = root" and agr: "agrees s t"
    using s_ok by (auto simp: session_ok_def)
  have pool: "p \<in> set (s_pools s)" and n: "servable e n" using al by simp_all
  obtain S cl fr where v: "(p, S, cl, fr) \<in> set (flat t)" by (rule agrees_pool [OF agr pool])
  have pg: "page_ok e" using good_treeD(1) [OF good v] by (simp add: pool_inv_def)
  have held: "held ?m (flat t) r" if "r \<in> set (s_held s)" for r using agr that by (simp add: agrees_def)
  note le = request_le [OF pg n]
  have fails: thesis if "spr_palloc e p n ?m = Some (NULL, ?m\<lparr>errno := ENOMEM\<rparr>)" "\<not> large_starved e p n ?m"
    using that session_ok_errno(1) [OF s_ok, of ENOMEM] pg
    by (intro ok [of NULL "?m\<lparr>errno := ENOMEM\<rparr>"]) (simp_all add: after_failed)
  show thesis
  proof (cases "small_request e n")
    case True
    have fed: "\<not> large_starved e p n ?m" using small_not_large [OF pg True] by (simp add: large_starved_def)
    show thesis
    proof (rule palloc_small_cases [OF good_treeD(1) [OF good v] True, of 2], goal_cases fail new)
      case fail
      then show ?case using fed by (intro fails) (simp_all add: palloc_depth3 numeral_2_eq_2)
    next
      case (new a m S')
      note h = hands_out_step [OF good st v new(2) le]
      have a: "a \<noteq> NULL" using new(2) by (simp add: hands_out_def)
      have "region a n \<inter> region (fst r) (snd r) = {}" if "r \<in> set (s_held s)" for r
        by (rule h(5) [OF held [OF that]])
      moreover have "mset (tagged m [(p, S', cl, fr)]) = mset (tagged ?m [(p, S, cl, fr)])" using h(3) by simp
      ultimately have "session_ok e B root (after e ?c a m s)"
        unfolding root [symmetric] using small_not_large [OF pg True] a h(4)
        by (intro session_ok_step [OF good st agr v h(1)]) (auto simp: apart_regions_def)
      then show ?case using new(1) h(2) pg fed by (intro ok [of a m]) (simp_all add: palloc_depth3 numeral_2_eq_2)
    qed
  next
    case False
    then have large: "large_request e n" using n by (simp add: servable_def)
    show thesis
    proof (rule palloc_large_step [OF good v large], goal_cases fail null new)
      case fail
      then show ?case by (intro fails) (simp_all add: large_starved_def)
    next
      case null
      then show ?case using large by (intro that(1)) (simp_all add: large_starved_def)
    next
      case (new a m v')
      obtain us ws where t': "flat (put_view v' t) = us @ v' # ws"
        by (rule flat_put_step [OF good v new(5)])
      have tag: "tagged m [v'] = (p, H_spr_free, a) # tagged ?m [(p, S, cl, fr)]"
        using new(5,7) by (subst tagged_single) (auto simp: pool_step_def split: prod.splits)
      have "vpending m (flat (put_view v' t)) = vpending m us @ vpending m [v'] @ vpending m ws"
        unfolding t' by (cases v') simp
      then have "a \<in> set (frees (vpending m (flat (put_view v' t))))" using new(7) by simp
      then have "held m (flat (put_view v' t)) (a, n)" by (rule held_block [OF new(4) _ le])
      moreover have "region a n \<inter> region (fst r) (snd r) = {}" if "r \<in> set (s_held s)" for r
        using new_block_apart [OF good _ new(3) le] held [OF that] by (metis prod.collapse)
      ultimately have "session_ok e B root (after e ?c a m s)"
        unfolding root [symmetric] using large new(2) tag
        by (intro session_ok_step [OF good st agr v new(5)]) (auto simp: apart_regions_def)
      moreover have "\<not> large_starved e p n ?m" using new(8) by (simp add: large_starved_def)
      ultimately show ?case using new(1,6) pg by (intro ok)
    qed
  qed
qed

lemma pcalloc_session:
  assumes s_ok: "session_ok e B root s" and st: "strict_mem e" and al: "allowed e s (Pcalloc p n)"
  shows "large_starved e p n (s_mem s) \<and> exec e (Pcalloc p n) (s_mem s) = None \<or>
    \<not> large_starved e p n (s_mem s) \<and> call_safe e B root s (Pcalloc p n)"
proof (rule palloc_session [OF s_ok st, of p n], goal_cases req null new)
  case req
  then show ?case using al by simp
next
  case null
  then show ?case by (simp add: spr_pcalloc_def)
next
  case (new a m)
  let ?c = "Pcalloc p n" and ?s = "after e (Palloc p n) a m s"
  have eq: "after e ?c b z s = (after e (Palloc p n) b m s)\<lparr>s_mem := z\<rparr>" for b z by (simp add: after_def)
  obtain t where t: "good_tree e B m t" "pool_of t = root" "agrees ?s t"
    using new(3) by (auto simp: session_ok_def after_def)
  have m: "s_mem ?s = m" by (simp add: after_def)
  have exec: "exec e ?c (s_mem s) = Some (a, if a \<noteq> NULL then spr_memzero a n m else m)"
    using new(2) by (simp add: spr_pcalloc_def)
  show ?case
  proof (cases "a = NULL")
    case True
    have "(after e (Palloc p n) b m s)\<lparr>s_mem := m\<rparr> = after e (Palloc p n) b m s" for b by (simp add: after_def)
    then show ?thesis using exec new True by (intro disjI2 conjI call_safeI [of _ _ _ NULL m]) (simp_all add: eq)
  next
    case False
    have "held m (flat t) (a, n)" using t(3) False by (simp add: agrees_def after_def)
    note z = memzero_held [OF t(1) this]
    have "session_ok e B (pool_of t) (?s\<lparr>s_mem := spr_memzero a n m\<rparr>)"
      using z by (intro agrees_same [OF _ t(3)]) (simp_all add: m)
    then show ?thesis using exec new(1,4) False unfolding t(2)
      by (intro disjI2 conjI call_safeI [of _ _ _ a "spr_memzero a n m"]) (simp_all add: eq)
  qed
qed

lemma step_fst: "pool_step e m v m' v' F A \<Longrightarrow> fst v' = fst v"
  by (auto simp: pool_step_def split: prod.splits)

lemma step_tagged: "pool_step e m (p, S, cl, fr) m' v' F A \<Longrightarrow> tagged m' [v'] = map (Pair p) (vpending m' [v'])"
  by (simp add: tagged_single step_fst)

lemma cleanup_add_session:
  assumes s_ok: "session_ok e B root s" and st: "strict_mem e" and al: "allowed e s (Cleanup_add p d k)"
  shows "starved e (Cleanup_add p d k) (s_mem s) \<and> exec e (Cleanup_add p d k) (s_mem s) = None \<or>
    \<not> starved e (Cleanup_add p d k) (s_mem s) \<and> call_safe e B root s (Cleanup_add p d k)"
proof -
  let ?m = "s_mem s"
  obtain t where good: "good_tree e B ?m t" and root: "pool_of t = root" and agr: "agrees s t"
    using s_ok by (auto simp: session_ok_def)
  obtain S cl fr where v: "(p, S, cl, fr) \<in> set (flat t)" using agrees_pool [OF agr, of p] al by auto
  show ?thesis
  proof (rule cleanup_add_step [OF good v, where data = d and k = k], goal_cases null new)
    case null
    then show ?case by simp
  next
    case (new m v')
    have "session_ok e B root (after e (Cleanup_add p d k) NULL m s)"
      unfolding root [symmetric] using step_tagged [OF new(2)] new(4)
      by (intro session_ok_step [OF good st agr v new(2)]) (simp_all add: apart_regions_def)
    then show ?case using new(1,3,5) by (intro disjI2 conjI call_safeI [of _ _ _ NULL m]) simp_all
  qed
qed

lemma cleanup_run1_session:
  assumes s_ok: "session_ok e B root s" and st: "strict_mem e" and al: "allowed e s (Cleanup_run1 p d h)"
  shows "call_safe e B root s (Cleanup_run1 p d h)"
proof -
  let ?m = "s_mem s" and ?c = "Cleanup_run1 p d h"
  obtain t where good: "good_tree e B ?m t" and root: "pool_of t = root" and agr: "agrees s t"
    using s_ok by (auto simp: session_ok_def)
  obtain S cl fr where v: "(p, S, cl, fr) \<in> set (flat t)" and reg: "(h, d) \<in> set (pending ?m cl)"
    using agrees_registered [OF agr, of p h d] al by auto
  obtain m v' where m: "spr_pool_cleanup_run1 e p d h ?m = Some m" "calls m = calls ?m @ [(h, d)]"
    "pool_step e ?m (p, S, cl, fr) m v' (set (frees [(h, d)])) {}"
    "mset (pending ?m cl) = add_mset (h, d) (mset (vpending m [v']))"
    by (rule cleanup_run1_step [OF good v reg])
  have "session_ok e B root (after e ?c NULL m s)"
    unfolding root [symmetric]
  proof (rule session_ok_step [OF good st agr v m(3)])
    show "mset (tagged m [v']) + (runs ?c (s_registered s) + removes ?c)
        = mset (tagged ?m [(p, S, cl, fr)]) + registers e ?c NULL"
      using arg_cong [OF m(4), of "image_mset (Pair p)"] by (simp add: step_tagged [OF m(3)])
    show "released (runs ?c (s_registered s)) x" if "x \<in> set (frees [(h, d)])" for x
      using that by (simp add: frees_set released_def)
  qed (use al in \<open>simp_all add: apart_regions_def\<close>)
  then show ?thesis using m(1,2) by (intro call_safeI [of _ _ _ NULL m]) simp_all
qed

lemma cleanup_remove1_session:
  assumes s_ok: "session_ok e B root s" and st: "strict_mem e" and al: "allowed e s (Cleanup_remove1 p d k)"
  shows "call_safe e B root s (Cleanup_remove1 p d k)"
proof -
  let ?m = "s_mem s" and ?c = "Cleanup_remove1 p d k"
  obtain t where good: "good_tree e B ?m t" and root: "pool_of t = root" and agr: "agrees s t"
    using s_ok by (auto simp: session_ok_def)
  obtain S cl fr where v: "(p, S, cl, fr) \<in> set (flat t)" and reg: "(H_user k, d) \<in> set (pending ?m cl)"
    using agrees_registered [OF agr, of p "H_user k" d] al by auto
  obtain m v' where m: "spr_pool_cleanup_remove1 e p d (H_user k) ?m = Some m" "calls m = calls ?m"
    "pool_step e ?m (p, S, cl, fr) m v' {} {}"
    "mset (pending ?m cl) = add_mset (H_user k, d) (mset (vpending m [v']))"
    by (rule cleanup_remove1_step [OF good v reg])
  have "session_ok e B root (after e ?c NULL m s)"
    unfolding root [symmetric]
  proof (rule session_ok_step [OF good st agr v m(3)])
    show "mset (tagged m [v']) + (runs ?c (s_registered s) + removes ?c)
        = mset (tagged ?m [(p, S, cl, fr)]) + registers e ?c NULL"
      using arg_cong [OF m(4), of "image_mset (Pair p)"] by (simp add: step_tagged [OF m(3)])
  qed (use al in \<open>simp_all add: apart_regions_def\<close>)
  then show ?thesis using m(1,2) by (intro call_safeI [of _ _ _ NULL m]) simp_all
qed

lemma filter_tagged:
  assumes "distinct (map fst vs)" "v \<in> set vs"
  shows "filter (\<lambda>r. fst r = fst v) (tagged m vs) = tagged m [v]"
  using assms
proof (induction vs)
  case (Cons w vs)
  obtain q T dl gr where w: "w = (q, T, dl, gr)" by (cases w)
  have none: "filter (\<lambda>r. fst r = q) (tagged m vs) = []"
    using Cons.prems(1) w by (force simp: tagged_def filter_empty_conv)
  show ?case
  proof (cases "v = w")
    case True
    then show ?thesis using none by (simp add: w filter_map o_def)
  next
    case False
    then have v: "v \<in> set vs" "fst v \<noteq> q" using Cons.prems w by force+
    then show ?thesis using Cons.IH Cons.prems(1) by (simp add: w filter_map o_def)
  qed
qed simp

lemma cleanup_run_all_session:
  assumes s_ok: "session_ok e B root s" and st: "strict_mem e" and al: "allowed e s (Cleanup_run_all p)"
  shows "call_safe e B root s (Cleanup_run_all p)"
proof -
  let ?m = "s_mem s" and ?c = "Cleanup_run_all p"
  obtain t where good: "good_tree e B ?m t" and root: "pool_of t = root" and agr: "agrees s t"
    using s_ok by (auto simp: session_ok_def)
  obtain S cl fr where v: "(p, S, cl, fr) \<in> set (flat t)" using agrees_pool [OF agr, of p] al by auto
  obtain m v' where m: "spr_pool_cleanup_run_all e p ?m = Some m" "calls m = calls ?m @ pending ?m cl"
    "pool_step e ?m (p, S, cl, fr) m v' (set (frees (pending ?m cl))) {}" "vpending m [v'] = []"
    by (rule cleanup_run_all_step [OF good v])
  have "mset (filter (\<lambda>r. fst r = p) (tagged ?m (flat t))) = mset (map (Pair p) (pending ?m cl))"
    using filter_tagged [OF good_treeD(2) [OF good v] v] by simp
  then have r: "runs ?c (s_registered s) = mset (map (Pair p) (pending ?m cl))"
    using agr by (simp add: agrees_def)
  have "session_ok e B root (after e ?c NULL m s)"
    unfolding root [symmetric]
  proof (rule session_ok_step [OF good st agr v m(3)])
    show "mset (tagged m [v']) + (runs ?c (s_registered s) + removes ?c)
        = mset (tagged ?m [(p, S, cl, fr)]) + registers e ?c NULL"
      unfolding r using m(4) by (simp add: step_tagged [OF m(3)])
    show "released (runs ?c (s_registered s)) x" if "x \<in> set (frees (pending ?m cl))" for x
      using that unfolding r frees_set released_def by force
  qed (simp_all add: apart_regions_def)
  moreover have "mset (calls m) = mset (calls ?m) + image_mset snd (runs ?c (s_registered s))"
    unfolding r m(2) by (simp add: image_mset.compositionality o_def)
  ultimately show ?thesis using m(1) by (intro call_safeI [of _ _ _ NULL m]) simp_all
qed

lemma create_child_session:
  assumes s_ok: "session_ok e B root s" and st: "strict_mem e" and al: "allowed e s (Create_child p n)"
  shows "call_safe e B root s (Create_child p n)"
proof -
  let ?m = "s_mem s" and ?c = "Create_child p n"
  obtain t where good: "good_tree e B ?m t" and root: "pool_of t = root" and agr: "agrees s t"
    using s_ok by (auto simp: session_ok_def)
  obtain S cl fr where v: "(p, S, cl, fr) \<in> set (flat t)" using agrees_pool [OF agr, of p] al by auto
  then have p: "p \<in> fst ` set (flat t)" by force
  have n: "create_request e n" using al by simp
  show ?thesis
  proof (rule create_child_step [OF good st p n], goal_cases fail new)
    case fail
    then show ?case using session_ok_errno(1) [OF s_ok, of ENOMEM]
      by (intro call_safeI [of _ _ _ NULL "?m\<lparr>errno := ENOMEM\<rparr>"]) (simp_all add: after_failed)
  next
    case (new pool m t')
    have "set (tagged m (flat t')) = set (tagged ?m (flat t))" by (rule mset_eq_setD [OF new(7)])
    then have pend: "set (vpending m (flat t')) = set (vpending ?m (flat t))"
      unfolding map_snd_tagged [symmetric] by simp
    have "held m (flat t') r" if "r \<in> set (s_held s)" for r
    proof -
      have "held ?m (flat t) (fst r, snd r)" using agr that by (simp add: agrees_def)
      then have "held m (flat t') (fst r, snd r)"
        by (rule held_agree [OF _ new(8,10,9)]) (simp_all add: pend)
      then show ?thesis by simp
    qed
    then have "agrees (after e ?c pool m s) t'"
      using agr new(2,6,7) by (simp add: agrees_def after_def released_def)
    then have "session_ok e B root (after e ?c pool m s)"
      using new(4,5) root unfolding session_ok_def by (intro exI [of _ t']) (simp add: after_def)
    then show ?case using new(1,3) by (intro call_safeI [of _ _ _ pool m]) simp_all
  qed
qed

lemma size_session:
  assumes s_ok: "session_ok e B root s" and c: "c = Get_size p \<or> c = Get_free_size p \<or> c = Get_total_size p"
    and al: "allowed e s c"
  shows "call_safe e B root s c"
proof -
  obtain t where good: "good_tree e B (s_mem s) t" and agr: "agrees s t" using s_ok by (auto simp: session_ok_def)
  have "p \<in> set (s_pools s)" using al c by auto
  then obtain S cl fr where v: "(p, S, cl, fr) \<in> set (flat t)" by (rule agrees_pool [OF agr])
  note sizes = pool_sizes_eq [OF good_treeD(1) [OF good v]]
  have "after e c a (s_mem s) s = s" for a using c by (auto simp: after_def released_def)
  then show ?thesis using c s_ok by (auto simp: call_safe_def sizes)
qed

text \<open>Every call the client may make is defined and keeps the session good, unless it is starved; then
  it is undefined.\<close>

lemma call_session:
  assumes s_ok: "session_ok e B root s" and st: "strict_mem e" and al: "allowed e s c"
  shows "starved e c (s_mem s) \<and> exec e c (s_mem s) = None \<or>
    \<not> starved e c (s_mem s) \<and> call_safe e B root s c"
proof (cases c)
  case (Palloc p n)
  show ?thesis
  proof (rule palloc_session [OF s_ok st, of p n], goal_cases req null new)
    case (new a m)
    then show ?case unfolding Palloc by (intro disjI2 conjI call_safeI [of _ _ _ a m]) simp_all
  qed (use al Palloc in simp_all)
next
  case (Pcalloc p n)
  then show ?thesis using pcalloc_session [OF s_ok st] al by auto
next
  case (Cleanup_add p d k)
  then show ?thesis using cleanup_add_session [OF s_ok st] al by auto
next
  case (Cleanup_run1 p d h)
  then show ?thesis using cleanup_run1_session [OF s_ok st] al by auto
next
  case (Cleanup_remove1 p d k)
  then show ?thesis using cleanup_remove1_session [OF s_ok st] al by auto
next
  case (Cleanup_run_all p)
  then show ?thesis using cleanup_run_all_session [OF s_ok st] al by auto
next
  case (Create_child p n)
  then show ?thesis using create_child_session [OF s_ok st] al by auto
qed (use size_session [OF s_ok _ al] in auto)

section \<open>Sessions from a new root pool\<close>

definition new_session :: "addr \<Rightarrow> mem \<Rightarrow> session" where
  "new_session p m = \<lparr>s_mem = m, s_pools = [p], s_registered = {#}, s_held = []\<rparr>"

text \<open>The client starts where the system works, by creating a root pool.\<close>

definition started :: "env \<Rightarrow> size \<Rightarrow> mem \<Rightarrow> addr \<Rightarrow> mem \<Rightarrow> bool" where
  "started e n m0 p m \<longleftrightarrow> page_ok e \<and> alloc_ok e \<and> pth_ok e \<and> strict_mem e \<and> blocks_ok (blocks m0) \<and>
     create_request e n \<and> spr_pool_create e n NULL m0 = Some (p, m) \<and> p \<noteq> NULL"

lemma started_ok:
  assumes "started e n m0 p m"
  shows "session_ok e (set (blocks m0)) p (new_session p m)"
proof -
  let ?i = "unat (spr_get_npages e (spr_align_allocation n + SPR_SIZEOF_MEMPOOL_T_ALIGN e) - 1)"
  note a = assms [unfolded started_def]
  have pg: "page_ok e" and al: "alloc_ok e" and bl: "blocks_ok (blocks m0)" and pth: "pth_ok e"
    and n: "create_request e n" and call: "spr_pool_create e n NULL m0 = Some (p, m)" "p \<noteq> NULL" using a by simp_all
  have i: "?i < SPR_MAX_POOL_SLOT" by (rule create_request_facts(4) [OF pg n])
  show ?thesis
  proof (rule create_root_cases [OF pg al bl pth n refl], goal_cases fail ok)
    case fail
    then show ?case using call by (simp add: spr_pool_create_def ENOMEM_def SPR_OK_def)
  next
    case (ok a c)
    have m: "p = a + 48" "m = root_created e a ?i c m0" using call ok(1) by (simp_all add: spr_pool_create_def)
    have "agrees (new_session p m) (PTree p ((\<lambda>_. [])(?i := [a])) [] [] [])"
      by (simp add: agrees_def new_session_def apart_regions_def pending_def)
    then show ?case
      using root_created_good [OF pg al i ok(2), of c] unfolding session_ok_def m new_session_def
      by (intro exI [of _ "PTree (a + 48) ((\<lambda>_. [])(?i := [a])) [] [] []"]) simp
  qed
qed

lemma session_run_ok:
  assumes "session_run e s0 s" "session_ok e B root s0" "strict_mem e"
  shows "session_ok e B root s"
  using assms
proof (induction rule: session_run.induct)
  case (run_call s c a m)
  then have "session_ok e B root s" by simp
  from call_session [OF this run_call.prems(2) run_call.hyps(2)] run_call.hyps(3)
  show ?case by (auto simp: call_safe_def)
next
  case (run_write s b l n y)
  then show ?case using session_ok_errno(2) by simp
qed simp

text \<open>What a client holds lies apart from the structures of the pools.\<close>

lemma held_apart_pool:
  assumes good: "good_tree e B m t" and held: "held m (flat t) (a, n)" and w: "(q, T, dl, gr) \<in> set (flat t)"
  shows "{unat q..<unat q + unat (sizeof_pool e)} \<inter> region a n = {}"
proof (rule Int_emptyI)
  fix x assume x: "x \<in> {unat q..<unat q + unat (sizeof_pool e)}" "x \<in> region a n"
  have vs: "views_ok e m (flat t)" and rel: "releases_all m (flat t)"
    using good by (simp_all add: good_tree_def good_views_def)
  have bl: "blocks_ok (blocks m)" and nd: "nodes_inv e m q T" and hm: "home_ok e m q T"
    using good_treeD(1) [OF good w] by (simp_all add: pool_inv_def)
  obtain k where k: "k \<in> set (all_nodes T)" "unat k + 48 \<le> unat q"
    "unat q + unat (sizeof_pool e) \<le> unat (mn_begin (mnodes m k))" using hm by (auto simp: home_ok_def)
  have kv: "k \<in> set (vnodes (flat t))" using views_member [OF w] k(1) by blast
  have "unat (mn_begin (mnodes m k)) \<le> unat (mn_first_avail (mnodes m k))" by (rule node_block [OF nd k(1)])
  then have xk: "unat k \<le> x" "x < unat (mn_first_avail (mnodes m k))" using x(1) k(2,3) by auto
  from held show False
  proof (cases rule: heldE)
    case (used p S cl fr)
    have ndp: "nodes_inv e m p S" using good_treeD(1) [OF good used(1)] by (simp add: pool_inv_def)
    have "x \<in> used_by m S" using used(2) x(2) by blast
    then obtain h where h: "h \<in> set (all_nodes S)" "unat h \<le> x" "unat (mn_begin (mnodes m h)) \<le> x"
      "x < unat (mn_first_avail (mnodes m h))" by (rule used_in_node [OF ndp])
    have hv: "h \<in> set (vnodes (flat t))" using views_member [OF used(1)] h(1) by blast
    show False
    proof (cases "h = k")
      case True
      then show False using h(3) k(3) x(1) by simp
    next
      case False
      then show False using node_places_apart [OF vs bl hv kv _ h(2,4) xk] by simp
    qed
  next
    case (block l)
    obtain i where i: "(k, i) \<in> set (blocks m)" "unat (mn_first_avail (mnodes m k)) \<le> unat k + unat i"
      by (rule node_block [OF nd k(1)])
    have "k \<noteq> a" using releases_allD(2) [OF rel block(2)] kv by blast
    then have "apart (k, i) (a, l)" using blocks_ok_apart [OF bl i(1) block(1)] by simp
    then show False using xk i(2) x(2) block(3) by (auto simp: region_def)
  qed
qed

section \<open>Destroying a good tree\<close>




section \<open>The theorems\<close>


text \<open>C4: In such a run no two pieces of memory that the pools of the tree have given to the client and not
  taken back overlap, whichever pools they come from, and none overlaps the structure of a pool.\<close>

theorem session_memory_apart:
  assumes "started e n m0 p m" "session_run e (new_session p m) s"
  shows "apart_regions (s_held s) \<and>
    (\<forall>(a, k) \<in> set (s_held s). \<forall>q \<in> set (s_pools s). {unat q..<unat q + unat (sizeof_pool e)} \<inter> region a k = {})"
proof -
  have st: "strict_mem e" using assms(1) by (simp add: started_def)
  have "session_ok e (set (blocks m0)) p s" by (rule session_run_ok [OF assms(2) started_ok [OF assms(1)] st])
  then obtain t where good: "good_tree e (set (blocks m0)) (s_mem s) t" and agr: "agrees s t"
    by (auto simp: session_ok_def)
  have "{unat q..<unat q + unat (sizeof_pool e)} \<inter> region a k = {}"
    if r: "(a, k) \<in> set (s_held s)" "q \<in> set (s_pools s)" for a k q
  proof -
    obtain T dl gr where q: "(q, T, dl, gr) \<in> set (flat t)" by (rule agrees_pool [OF agr r(2)])
    have "held (s_mem s) (flat t) (a, k)" using agr r(1) by (simp add: agrees_def)
    then show ?thesis by (rule held_apart_pool [OF good _ q])
  qed
  then show ?thesis using agr by (auto simp: agrees_def)
qed


section \<open>A sample session\<close>

lemma sample_started: "started sample_env 1000 empty_mem sample_pool sample_mem"
  by (simp add: started_def sample_env_ok empty_mem_ok sample_created create_request_def round_up_def size_constants)
    (simp add: sample_pool_def)


theorem session_memory_apart_witness:
  "\<exists>s. session_run sample_env (new_session sample_pool sample_mem) s \<and> s_held s = [(4400, 24)] \<and>
    {unat sample_pool..<unat sample_pool + 216} \<inter> region 4400 24 = {}"
proof -
  let ?start = "new_session sample_pool sample_mem" and ?c = "Palloc sample_pool 24"
  let ?s = "after sample_env ?c 4400 sample_mem1 ?start"
  have run: "session_run sample_env ?start ?s"
    by (intro run_call [OF run_start]) (simp_all add: new_session_def palloc_depth3 sample_palloc servable_def sample_small round_up_def)
  have "s_held ?s = [(4400, 24)]" "s_pools ?s = [sample_pool]" by (simp_all add: after_def new_session_def)
  then show ?thesis using session_memory_apart [OF sample_started run] run
    by (intro exI [of _ ?s]) (simp add: sizeof_pool_def)
qed



end
