(* ===== verification/Spr_Pool_Threads.thy ===== *)
theory Spr_Pool_Threads
  imports Spr_Pool_Session
begin

text \<open>
  Threads that allocate from the pools of a tree what the slots serve, and register cleanups with them, at
  the same time. The pools share one mutex, so at most one thread is at work, and the log of the work, with its
  results, is a run of one client that makes these calls one after the other. A thread is followed from the call through lock, work
  and unlock; the steps of different threads come in any order.
\<close>

section \<open>The calling thread\<close>

text \<open>The environment as another thread sees it. The search, the new node and the taking of memory do
  not look at the calling thread, nor at the mutexes.\<close>

abbreviation as_thread :: "env \<Rightarrow> tid \<Rightarrow> env" where
  "as_thread e t \<equiv> e\<lparr>current_thread := t\<rparr>"

lemma as_thread_page [simp]: "spr_get_page_size (as_thread e t) = spr_get_page_size e"
  by (simp add: spr_get_page_size_def)

lemma find_node_thread_imp:
  "find_node e a n m = Some r \<Longrightarrow> find_node (as_thread e t) a n (m\<lparr>mutexes := f\<rparr>) = Some r"
proof (induction rule: find_node.raw_induct [rotated, consumes 1])
  case (1 go e a n m r)
  then show ?case
    by (subst find_node.simps) (auto simp: load_node_def Option.bind_eq_Some_conv split: if_splits)
qed

lemma find_node_thread [simp]: "find_node (as_thread e t) a n (m\<lparr>mutexes := f\<rparr>) = find_node e a n m"
proof (cases "find_node e a n m")
  case None
  have "find_node (as_thread (as_thread e t) (current_thread e)) a n
      (m\<lparr>mutexes := f, mutexes := mutexes m\<rparr>) = Some r"
    if "find_node (as_thread e t) a n (m\<lparr>mutexes := f\<rparr>) = Some r" for r
    by (rule find_node_thread_imp [OF that])
  then show ?thesis using None by (cases "find_node (as_thread e t) a n (m\<lparr>mutexes := f\<rparr>)") auto
qed (simp add: find_node_thread_imp)

lemma find_slot_thread [simp]:
  "find_slot (as_thread e t) p i n (m\<lparr>mutexes := f\<rparr>) = find_slot e p i n m"
proof (induction e p i n m rule: find_slot.induct)
  case (1 e p i n m)
  have slot: "get_slot (as_thread e t) p i (m\<lparr>mutexes := f\<rparr>) = get_slot e p i m"
    by (simp add: get_slot_def load_pool_def)
  show ?case
    by (subst (1 2) find_slot.simps) (auto simp: slot 1 intro!: Option.bind_cong)
qed

text \<open>What \<open>palloc_from_nodes\<close> does with other mutexes, or called by another thread.\<close>

lemma palloc_from_nodes_thread:
  "palloc_from_nodes (as_thread e t) p k c (m\<lparr>mutexes := f\<rparr>) =
     map_option (\<lambda>(a, m). (a, m\<lparr>mutexes := f\<rparr>)) (palloc_from_nodes e p k c m)"
proof (cases "find_slot e p (unat (c - 1)) k m")
  case None
  then show ?thesis by (simp add: palloc_from_nodes_def)
next
  case (Some a)
  have take: "take_from_node (as_thread e t) a k (m\<lparr>mutexes := f\<rparr>) =
      map_option (\<lambda>(a, m). (a, m\<lparr>mutexes := f\<rparr>)) (take_from_node e a k m)" for a m
    by (simp add: take_from_node_def load_node_def upd_node_def)
  have alloc: "spr_memnode_allocate (as_thread e t) n (m\<lparr>mutexes := f\<rparr>) =
      map_option (\<lambda>(a, m). (a, m\<lparr>mutexes := f\<rparr>)) (spr_memnode_allocate e n m)" for n
    by (simp add: spr_memnode_allocate_def sys_mmap_def spr_malloc_def Let_def upd_node_def)
  show ?thesis
  proof (cases "spr_memnode_allocate e (c * spr_get_page_size e) m")
    case None
    then show ?thesis using Some by (simp add: palloc_from_nodes_def alloc take)
  next
    case (Some r)
    obtain b m1 where r: "r = (b, m1)" by (cases r)
    have get: "get_slot (as_thread e t) p i (m1\<lparr>mutexes := f\<rparr>) = get_slot e p i m1" for i
      by (simp add: get_slot_def load_pool_def)
    have put: "set_slot (as_thread e t) p i b (m1\<lparr>mutexes := f\<rparr>) = map_option (mutexes_update (\<lambda>_. f)) (set_slot e p i b m1)" for i
      by (simp add: set_slot_def upd_pool_def)
    have upd: "upd_node (as_thread e t) b g (m\<lparr>mutexes := f\<rparr>) = map_option (mutexes_update (\<lambda>_. f)) (upd_node e b g m)" for g m
      by (simp add: upd_node_def)
    show ?thesis using \<open>find_slot e p (unat (c - 1)) k m = Some a\<close> Some
      by (auto simp: palloc_from_nodes_def alloc take get put upd r map_option_bind bind_map_option o_def
        intro!: Option.bind_cong)
  qed
qed

section \<open>The work between lock and unlock\<close>

text \<open>A request that the slots serve is a search and a cut, whatever the calls around it; registering
  takes a reserved node or calls \<open>spr_palloc\<close> for one, given here as \<open>palloc\<close>.\<close>

definition small_work :: "env \<Rightarrow> addr \<Rightarrow> size \<Rightarrow> mem \<Rightarrow> (addr \<times> mem) option" where
  "small_work e p n m =
     palloc_from_nodes e p (spr_align_allocation n) (spr_get_npages e (spr_align_allocation n)) m"

definition take_cleanup :: "(mem \<Rightarrow> (addr \<times> mem) option) \<Rightarrow> env \<Rightarrow> addr \<Rightarrow> mem \<Rightarrow> (addr \<times> mem) option" where
  "take_cleanup palloc e pool m = do {
     p \<leftarrow> load_pool e pool m;
     if pl_free_cleanups p \<noteq> NULL then do {
       n \<leftarrow> load_cnode e (pl_free_cleanups p) m;
       m \<leftarrow> upd_pool e pool (pl_free_cleanups_update (\<lambda>_. cn_next n)) m;
       Some (pl_free_cleanups p, m) }
     else palloc m }"

definition put_cleanup :: "env \<Rightarrow> addr \<Rightarrow> addr \<Rightarrow> handler \<Rightarrow> addr \<Rightarrow> mem \<Rightarrow> mem option" where
  "put_cleanup e pool data h node m = do {
     p \<leftarrow> load_pool e pool m;
     m \<leftarrow> upd_cnode e node (\<lambda>_. \<lparr>cn_next = pl_cleanups p, cn_data = data, cn_handler = h\<rparr>) m;
     upd_pool e pool (pl_cleanups_update (\<lambda>_. node)) m }"

definition register :: "(mem \<Rightarrow> (addr \<times> mem) option) \<Rightarrow> env \<Rightarrow> addr \<Rightarrow> addr \<Rightarrow> handler \<Rightarrow> mem \<Rightarrow> mem option" where
  "register palloc e pool data h m = do {
     (node, m) \<leftarrow> take_cleanup palloc e pool m; put_cleanup e pool data h node m }"

lemmas register_defs = register_def take_cleanup_def put_cleanup_def

text \<open>The calls that lock, work and unlock, the pool they lock, and their work. The cleanup node of a
  registration is allocated under the lock that the thread has already, which it takes a second time.\<close>

fun lockable :: "env \<Rightarrow> pool_call \<Rightarrow> bool" where
  "lockable e (Palloc p n) \<longleftrightarrow> small_request e n"
| "lockable e (Cleanup_add p d k) \<longleftrightarrow> True"
| "lockable e _ \<longleftrightarrow> False"

fun target :: "pool_call \<Rightarrow> addr" where
  "target (Palloc p n) = p"
| "target (Cleanup_add p d k) = p"
| "target _ = NULL"

fun work :: "env \<Rightarrow> pool_call \<Rightarrow> mem \<Rightarrow> (addr \<times> mem) option" where
  "work e (Palloc p n) m = small_work e p n m"
| "work e (Cleanup_add p d k) m =
     map_option (Pair NULL) (register (palloc_depth 1 e p sizeof_cleanup_node) e p d (H_user k) m)"
| "work e _ m = None"

lemma exec_parts:
  assumes "page_ok e" "lockable e c"
  shows "exec e c m = do {
    m \<leftarrow> pool_lock e (target c) m; (a, m) \<leftarrow> work e c m; m \<leftarrow> pool_unlock e (target c) m; Some (a, m) }"
proof (cases c)
  case (Palloc p n)
  then have "small_request e n" using assms(2) by simp
  note k = small_request_facts(4,6) [OF assms(1) this]
  then show ?thesis by (simp add: Palloc palloc_depth3 palloc_depth.simps Let_def small_work_def)
next
  case (Cleanup_add p d k)
  have "map_option (Pair NULL) (x \<bind> (\<lambda>m. g m \<bind> f)) =
      x \<bind> (\<lambda>m. map_option (Pair NULL) (g m) \<bind> (\<lambda>(a, m). f m \<bind> (\<lambda>m. Some (a, m))))"
    for x :: "mem option" and g f :: "mem \<Rightarrow> mem option"
    by (cases x) (auto simp: bind_map_option o_def map_option_bind map_conv_bind_option intro!: Option.bind_cong)
  note seq = this
  have "exec e c m = map_option (Pair NULL) (pool_lock e p m \<bind> (\<lambda>m.
      register (palloc_depth 1 e p sizeof_cleanup_node) e p d (H_user k) m \<bind> pool_unlock e p))"
    by (auto simp: Cleanup_add cleanup_add2 cleanup_add_depth.simps register_defs bind_assoc case_prod_unfold
      intro!: Option.bind_cong arg_cong [of _ _ "map_option (Pair NULL)"])
  then show ?thesis by (simp only: seq) (simp add: Cleanup_add)
qed (use assms in simp_all)

section \<open>Work by another thread\<close>

text \<open>The work without the second lock; it leaves the mutexes and the mutex of the pool alone.\<close>

fun plain :: "env \<Rightarrow> pool_call \<Rightarrow> mem \<Rightarrow> (addr \<times> mem) option" where
  "plain e (Palloc p n) m = small_work e p n m"
| "plain e (Cleanup_add p d k) m =
     map_option (Pair NULL) (register (small_work e p sizeof_cleanup_node) e p d (H_user k) m)"
| "plain e _ m = None"

abbreviation with_mutexes :: "(addr \<Rightarrow> pthread_mutex) \<Rightarrow> (addr \<times> mem) option \<Rightarrow> (addr \<times> mem) option" where
  "with_mutexes f \<equiv> map_option (\<lambda>(a, m). (a, m\<lparr>mutexes := f\<rparr>))"

lemma small_work_thread:
  "small_work (as_thread e t) p n (m\<lparr>mutexes := f\<rparr>) = with_mutexes f (small_work e p n m)"
proof -
  have "spr_get_npages (as_thread e t) k = spr_get_npages e k" for k by (simp add: spr_get_npages_def Let_def)
  then show ?thesis by (simp add: small_work_def palloc_from_nodes_thread)
qed

lemma register_thread:
  assumes palloc: "palloc' (m\<lparr>mutexes := f\<rparr>) = with_mutexes f (palloc m)"
  shows "register palloc' (as_thread e t) p d h (m\<lparr>mutexes := f\<rparr>) =
    map_option (mutexes_update (\<lambda>_. f)) (register palloc e p d h m)"
proof -
  have take: "take_cleanup palloc' (as_thread e t) p (m\<lparr>mutexes := f\<rparr>) = with_mutexes f (take_cleanup palloc e p m)"
    by (simp add: take_cleanup_def load_pool_def load_cnode_def upd_pool_def palloc)
  have put: "put_cleanup (as_thread e t) p d h a (x\<lparr>mutexes := f\<rparr>) =
      map_option (mutexes_update (\<lambda>_. f)) (put_cleanup e p d h a x)" for a x
    by (simp add: put_cleanup_def load_pool_def upd_cnode_def upd_pool_def)
  show ?thesis
  proof (cases "take_cleanup palloc e p m")
    case (Some ax)
    obtain a x where ax: "ax = (a, x)" by (cases ax)
    show ?thesis by (simp add: register_def take Some ax put)
  qed (simp add: register_def take)
qed

lemma pool_inv_thread:
  assumes "pool_inv e m p S cl fr" "lock_ok (as_thread e t) (m\<lparr>mutexes := f\<rparr>) p"
  shows "pool_inv (as_thread e t) (m\<lparr>mutexes := f\<rparr>) p S cl fr"
proof -
  have "nodes_inv (as_thread e t) m p S = nodes_inv e m p S" "home_ok (as_thread e t) m p S = home_ok e m p S"
    "page_ok (as_thread e t) = page_ok e" "alloc_ok (as_thread e t) = alloc_ok e"
    by (simp_all add: nodes_inv_def node_ok_def node_len_def home_ok_def page_ok_def alloc_ok_def sizeof_pool_def)
  then show ?thesis using assms by (simp add: pool_inv_def spr_frame)
qed

text \<open>In a good pool a request that the slots serve has no other effect than its work.\<close>

lemma small_depth:
  assumes inv: "pool_inv e m p S cl fr" and n: "small_request e n"
  shows "palloc_depth (Suc d) e p n m = small_work e p n m"
proof -
  let ?k = "spr_align_allocation n" and ?l = "m\<lparr>mutexes := locked e m p\<rparr>"
  let ?c = "spr_get_npages e ?k"
  have pg: "page_ok e" and al: "alloc_ok e" and bl: "blocks_ok (blocks m)"
    and nd: "nodes_inv e m p S" and lk: "lock_ok e m p"
    using inv by (simp_all add: pool_inv_def)
  note acc = pool_inv_accessible [OF inv] and k = small_request_facts [OF pg n]
  have "palloc_depth (Suc d) e p n m = do {
      (a, m) \<leftarrow> small_work e p n ?l; m \<leftarrow> pool_unlock e p m; Some (a, m) }"
    using k(4,6) pool_lock_ok [OF lk acc] by (simp add: Let_def palloc_depth.simps small_work_def)
  also have "small_work e p n ?l = with_mutexes (locked e m p) (small_work e p n m)"
    using small_work_thread [where e = e and t = "current_thread e" and f = "locked e m p"] by simp
  finally have call: "palloc_depth (Suc d) e p n m = do {
      (a, x) \<leftarrow> small_work e p n m; x \<leftarrow> pool_unlock e p (x\<lparr>mutexes := locked e m p\<rparr>); Some (a, x) }"
    by (simp add: bind_map_option o_def case_prod_unfold)
  have mtx: "thread_safety e \<Longrightarrow> accessible e (blocks m) (pl_mutex (pools m p))"
    using lk by (simp add: lock_ok_def)
  have unlock: "pool_unlock e p (x\<lparr>mutexes := locked e m p\<rparr>) = Some x"
    if "mutexes x = mutexes m" "pl_mutex (pools x p) = pl_mutex (pools m p)" "set (blocks m) \<subseteq> set (blocks x)" for x
    using that acc mtx by (subst pool_unlock_ok [OF lk]) (auto intro: accessible_mono)
  show ?thesis
  proof (rule palloc_from_nodes_ok [OF al bl pg nd acc k(2,5,6)], goal_cases fail ok)
    case fail
    have "pool_unlock e p ((m\<lparr>errno := ENOMEM\<rparr>)\<lparr>mutexes := locked e m p\<rparr>) = Some (m\<lparr>errno := ENOMEM\<rparr>)"
      by (intro unlock) simp_all
    then show ?case using call fail(1) by (simp add: small_work_def)
  next
    case (ok a x S')
    have "pool_unlock e p (x\<lparr>mutexes := locked e m p\<rparr>) = Some x"
      using ok(2) hands_out_pool(1) [OF ok(2)] by (intro unlock) (simp_all add: hands_out_def)
    then show ?case using call ok(1) by (simp add: small_work_def)
  qed
qed

lemma small_work_keeps:
  assumes inv: "pool_inv e m p S cl fr" and n: "small_request e n" and w: "small_work e p n m = Some (a, x)"
  shows "mutexes x = mutexes m \<and> pl_mutex (pools x p) = pl_mutex (pools m p) \<and> set (blocks m) \<subseteq> set (blocks x)"
proof (rule palloc_small_cases [OF inv n, of 0], goal_cases fail ok)
  case fail
  then have "x = m\<lparr>errno := ENOMEM\<rparr>" using w by (simp add: small_depth [OF inv n])
  then show ?case by simp
next
  case (ok b y S')
  then have "y = x" using w by (simp add: small_depth [OF inv n])
  then show ?case using ok(2) hands_out_pool(1) [OF ok(2)] by (simp add: hands_out_def)
qed

lemma plain_keeps:
  assumes inv: "pool_inv e m p S cl fr" and c: "lockable e c" "target c = p" and w: "plain e c m = Some (a, x)"
  shows "mutexes x = mutexes m \<and> pl_mutex (pools x p) = pl_mutex (pools m p) \<and> set (blocks m) \<subseteq> set (blocks x)"
proof (cases c)
  case (Palloc q n)
  then show ?thesis using c w small_work_keeps [OF inv, of n] by simp
next
  case (Cleanup_add q d k)
  have n: "small_request e sizeof_cleanup_node"
    using inv by (intro small_request_cleanup_node(1)) (simp add: pool_inv_def)
  show ?thesis
    using w c small_work_keeps [OF inv n]
    by (auto simp: Cleanup_add register_defs load_pool_def upd_pool_def upd_cnode_def load_cnode_def
      Option.bind_eq_Some_conv split: if_splits)
qed (use c in simp_all)

text \<open>The work of a thread that holds the lock is the plain work, and so is the call of a client.\<close>

lemma work_thread:
  assumes inv: "pool_inv e m p S cl fr" and c: "lockable e c" "target c = p"
    and lk: "lock_ok (as_thread e t) (m\<lparr>mutexes := f\<rparr>) p"
  shows "work (as_thread e t) c (m\<lparr>mutexes := f\<rparr>) = with_mutexes f (plain e c m)"
proof (cases c)
  case (Palloc q n)
  then show ?thesis by (simp add: small_work_thread)
next
  case (Cleanup_add q d k)
  note inv' = pool_inv_thread [OF inv lk]
  have "small_request (as_thread e t) sizeof_cleanup_node"
    using inv' by (intro small_request_cleanup_node(1)) (simp add: pool_inv_def)
  then have "palloc_depth 1 (as_thread e t) p sizeof_cleanup_node (m\<lparr>mutexes := f\<rparr>)
      = with_mutexes f (small_work e p sizeof_cleanup_node m)"
    using small_depth [OF inv', of _ 0] by (simp add: small_work_thread)
  then show ?thesis using c
    by (simp add: Cleanup_add register_thread [where palloc = "small_work e p sizeof_cleanup_node"] option.map_comp o_def)
qed (use c in simp_all)

lemma lock_ok_twice: "lock_ok e m p \<Longrightarrow> lock_ok e (m\<lparr>mutexes := locked e m p\<rparr>) p"
  by (simp add: lock_ok_def locked_def Let_def)

lemma plain_exec:
  assumes inv: "pool_inv e m p S cl fr" and c: "lockable e c" "target c = p"
  shows "exec e c m = plain e c m"
proof -
  let ?f = "locked e m p"
  have pg: "page_ok e" and lk: "lock_ok e m p" using inv by (simp_all add: pool_inv_def)
  note acc = pool_inv_accessible [OF inv]
  have mtx: "thread_safety e \<Longrightarrow> accessible e (blocks m) (pl_mutex (pools m p))"
    using lk by (simp add: lock_ok_def)
  have "work e c (m\<lparr>mutexes := ?f\<rparr>) = with_mutexes ?f (plain e c m)"
    using work_thread [OF inv c, of "current_thread e" ?f] lock_ok_twice [OF lk] by simp
  then have call: "exec e c m = do { (a, x) \<leftarrow> with_mutexes ?f (plain e c m); x \<leftarrow> pool_unlock e p x; Some (a, x) }"
    using exec_parts [OF pg c(1)] pool_lock_ok [OF lk acc] by (simp add: c(2))
  show ?thesis
  proof (cases "plain e c m")
    case None
    then show ?thesis using call by simp
  next
    case (Some r)
    then obtain a x where r: "plain e c m = Some (a, x)" by (cases r) simp
    note keep = plain_keeps [OF inv c r]
    have "pool_unlock e p (x\<lparr>mutexes := ?f\<rparr>) = Some x"
      using keep acc mtx by (subst pool_unlock_ok [OF lk]) (auto intro: accessible_mono)
    then show ?thesis using call r by simp
  qed
qed

text \<open>A thread locks a pool of a good tree, and finds it locked by another one.\<close>

lemma thread_lock:
  assumes good: "good_tree e B m t" and ts: "thread_safety e" and v: "(p, S, cl, fr) \<in> set (flat t)"
  shows "pool_lock (as_thread e u) p m = Some (m\<lparr>mutexes := locked (as_thread e u) m p\<rparr>)"
    and "pool_unlock (as_thread e u) p (m\<lparr>mutexes := locked (as_thread e u) m p\<rparr>) = Some m"
proof -
  have inv: "pool_inv e m p S cl fr" and free: "unlocked e m p" using good_treeD [OF good v] by simp_all
  then have lk: "lock_ok (as_thread e u) m p" by (auto simp: pool_inv_def lock_ok_def unlocked_def)
  have acc: "accessible (as_thread e u) (blocks m) p" using pool_inv_accessible [OF inv] by simp
  show "pool_lock (as_thread e u) p m = Some (m\<lparr>mutexes := locked (as_thread e u) m p\<rparr>)"
    by (rule pool_lock_ok [OF lk acc])
  show "pool_unlock (as_thread e u) p (m\<lparr>mutexes := locked (as_thread e u) m p\<rparr>) = Some m"
    using acc lk by (subst pool_unlock_ok [OF lk]) (simp_all add: lock_ok_def)
qed

lemma thread_locked_out:
  assumes good: "good_tree e B m t" and ts: "thread_safety e" and v: "v \<in> set (flat t)" and w: "w \<in> set (flat t)"
    and "u' \<noteq> u"
  shows "pool_lock (as_thread e u') (fst w) (m\<lparr>mutexes := locked (as_thread e u) m (fst v)\<rparr>) = None"
proof -
  have "pl_mutex (pools m (fst w)) = pl_mutex (pools m (fst v))"
    using good ts v w linked_mutex [of e m t] by (simp add: good_tree_def)
  then show ?thesis using ts \<open>u' \<noteq> u\<close>
    by (auto simp: pool_lock_def load_pool_def mutex_defs locked_def Let_def bind_eq_None_conv)
qed

text \<open>The work of the thread that holds the lock.\<close>

lemma thread_work:
  assumes good: "good_tree e B m t" and v: "(p, S, cl, fr) \<in> set (flat t)"
    and c: "lockable e c" "target c = p" and f: "f = locked (as_thread e u) m p"
  shows "work (as_thread e u) c (m\<lparr>mutexes := f\<rparr>) = with_mutexes f (exec e c m)"
    and "exec e c m = Some (a, x) \<Longrightarrow> locked (as_thread e u) x p = f"
proof -
  note inv = good_treeD(1) [OF good v]
  have "lock_ok (as_thread e u) m p"
    using inv good_treeD(4) [OF good v] by (auto simp: pool_inv_def lock_ok_def unlocked_def)
  from lock_ok_twice [OF this] show "work (as_thread e u) c (m\<lparr>mutexes := f\<rparr>) = with_mutexes f (exec e c m)"
    unfolding plain_exec [OF inv c] f by (rule work_thread [OF inv c])
  show "locked (as_thread e u) x p = f" if "exec e c m = Some (a, x)"
    using plain_keeps [OF inv c] that unfolding plain_exec [OF inv c] f by (simp add: locked_def)
qed

section \<open>Threads\<close>

text \<open>Where a thread is: outside, before the lock, holding it, and with its result before the unlock.\<close>

datatype position =
    Outside
  | Waiting pool_call
  | Working pool_call
  | Leaving pool_call addr

fun inside :: "position \<Rightarrow> bool" where
  "inside (Working c) = True"
| "inside (Leaving c a) = True"
| "inside _ = False"

text \<open>What happened: a thread did the work of a call, with a result, or wrote to its memory, which
  leaves the client memory with these bytes.\<close>

datatype event =
    Did tid pool_call addr
  | Wrote "addr \<Rightarrow> byte"

text \<open>What the threads share, the memory and what they know of it, where each of them is, and what has
  happened so far.\<close>

record threads =
  th_shared :: session
  th_at :: "tid \<Rightarrow> position"
  th_log :: "event list"

text \<open>A step of thread \<open>u\<close>: it makes a call, locks, does the work, and unlocks and returns; or it writes to
  its memory. A lock that another thread holds gives no step, and neither does work that dereferences
  null.\<close>

definition set_mem :: "mem \<Rightarrow> session \<Rightarrow> session" where
  "set_mem m s = s\<lparr>s_mem := m\<rparr>"

definition move :: "tid \<Rightarrow> position \<Rightarrow> session \<Rightarrow> threads \<Rightarrow> threads" where
  "move u q s y = \<lparr>th_shared = s, th_at = (th_at y)(u := q), th_log = th_log y\<rparr>"

definition logged :: "event \<Rightarrow> threads \<Rightarrow> threads" where
  "logged ev y = y\<lparr>th_log := th_log y @ [ev]\<rparr>"

inductive thread_step :: "env \<Rightarrow> tid \<Rightarrow> threads \<Rightarrow> threads \<Rightarrow> bool" for e u where
  step_call: "th_at y u = Outside \<Longrightarrow> lockable e c \<Longrightarrow> target c \<in> set (s_pools (th_shared y)) \<Longrightarrow>
    thread_step e u y (move u (Waiting c) (th_shared y) y)"
| step_lock: "th_at y u = Waiting c \<Longrightarrow> pool_lock (as_thread e u) (target c) (s_mem (th_shared y)) = Some m \<Longrightarrow>
    thread_step e u y (move u (Working c) (set_mem m (th_shared y)) y)"
| step_work: "th_at y u = Working c \<Longrightarrow> work (as_thread e u) c (s_mem (th_shared y)) = Some (a, m) \<Longrightarrow>
    thread_step e u y (logged (Did u c a) (move u (Leaving c a) (set_mem m (th_shared y)) y))"
| step_unlock: "th_at y u = Leaving c a \<Longrightarrow> pool_unlock (as_thread e u) (target c) (s_mem (th_shared y)) = Some m \<Longrightarrow>
    thread_step e u y (move u Outside (after e c a m (th_shared y)) y)"
| step_write: "th_at y u = Outside \<Longrightarrow>
    thread_step e u y (logged (Wrote b) (move u Outside (set_mem ((s_mem (th_shared y))\<lparr>bytes := b\<rparr>) (th_shared y)) y))"

inductive thread_run :: "env \<Rightarrow> session \<Rightarrow> threads \<Rightarrow> bool" for e s0 where
  threads_start: "thread_run e s0 \<lparr>th_shared = s0, th_at = (\<lambda>_. Outside), th_log = []\<rparr>"
| threads_step: "thread_run e s0 y \<Longrightarrow> thread_step e u y y' \<Longrightarrow> thread_run e s0 y'"

text \<open>One client that makes these calls, whole, one after the other, and these writes. It is allowed
  each call, and must get the same result.\<close>

fun serial :: "env \<Rightarrow> event list \<Rightarrow> session \<Rightarrow> session option" where
  "serial e [] s = Some s"
| "serial e (Did u c a # es) s = (case exec e c (s_mem s) of
     Some (b, m) \<Rightarrow> if allowed e s c \<and> b = a then serial e es (after e c a m s) else None
   | None \<Rightarrow> None)"
| "serial e (Wrote b # es) s = serial e es (set_mem ((s_mem s)\<lparr>bytes := b\<rparr>) s)"

lemma serial_append: "serial e (es @ es') s = serial e es s \<bind> serial e es'"
proof (induction es arbitrary: s)
  case (Cons ev es)
  then show ?case by (cases ev) (auto split: option.splits)
qed simp

lemma serial_run:
  assumes "serial e es s = Some s'" "session_run e s0 s"
  shows "session_run e s0 s'"
  using assms
proof (induction es arbitrary: s)
  case (Cons ev es)
  show ?case
  proof (cases ev)
    case (Did u c a)
    then obtain m where m: "exec e c (s_mem s) = Some (a, m)" "allowed e s c" "serial e es (after e c a m s) = Some s'"
      using Cons.prems(1) by (auto split: option.splits if_splits)
    show ?thesis by (rule Cons.IH [OF m(3) run_call [OF Cons.prems(2) m(2,1)]])
  next
    case (Wrote b)
    let ?m = "s_mem s"
    have "session_run e s0 (s\<lparr>s_mem := ?m\<lparr>bytes := b, lists := lists ?m, lnodes := lnodes ?m, arrays := arrays ?m\<rparr>\<rparr>)"
      by (rule run_write [OF Cons.prems(2)])
    then have "session_run e s0 (set_mem (?m\<lparr>bytes := b\<rparr>) s)" by (simp add: set_mem_def)
    then show ?thesis using Cons.prems(1) Wrote by (intro Cons.IH) simp_all
  qed
qed simp

text \<open>While a thread is inside, the memory differs from that client's by the lock, and the knowledge by the
  call at hand.\<close>

definition quiet :: "threads \<Rightarrow> session \<Rightarrow> bool" where
  "quiet y s \<longleftrightarrow> (\<forall>u. \<not> inside (th_at y u)) \<and> th_shared y = s"

definition busy :: "env \<Rightarrow> threads \<Rightarrow> session \<Rightarrow> tid \<Rightarrow> addr \<Rightarrow> bool" where
  "busy e y s u p \<longleftrightarrow> (\<forall>u'. inside (th_at y u') \<longleftrightarrow> u' = u) \<and> p \<in> set (s_pools s) \<and>
     s_mem (th_shared y) = (s_mem s)\<lparr>mutexes := locked (as_thread e u) (s_mem s) p\<rparr> \<and>
     ((\<exists>c. th_at y u = Working c \<and> lockable e c \<and> target c = p \<and> s = set_mem (s_mem s) (th_shared y)) \<or>
      (\<exists>c a. th_at y u = Leaving c a \<and> lockable e c \<and> target c = p \<and> s = after e c a (s_mem s) (th_shared y)))"

definition follows :: "env \<Rightarrow> session \<Rightarrow> threads \<Rightarrow> session \<Rightarrow> bool" where
  "follows e s0 y s \<longleftrightarrow> serial e (th_log y) s0 = Some s \<and> s_pools s = s_pools s0 \<and> s_pools (th_shared y) = s_pools s0 \<and>
     (\<forall>u c. th_at y u = Waiting c \<longrightarrow> lockable e c \<and> target c \<in> set (s_pools s0)) \<and>
     (quiet y s \<or> (\<exists>u p. busy e y s u p))"

lemma thread_simps [simp]:
  "s_mem (set_mem m s) = m" "s_pools (set_mem m s) = s_pools s" "set_mem m (set_mem m' s) = set_mem m s"
  "th_shared (move u q s y) = s" "th_at (move u q s y) = (th_at y)(u := q)"
  "after e c a m (set_mem m' s) = after e c a m s" "set_mem (s_mem s) s = s"
  "s_mem (after e c a m s) = m" "set_mem m' (after e c a m s) = after e c a m' s"
  "th_log (move u q s y) = th_log y" "th_shared (logged ev y) = th_shared y" "th_at (logged ev y) = th_at y"
  "th_log (logged ev y) = th_log y @ [ev]"
  by (simp_all add: set_mem_def move_def after_def logged_def)

lemma logged_same [simp]:
  "quiet (logged ev y) s = quiet y s" "busy e (logged ev y) s u p = busy e y s u p"
  by (simp_all add: quiet_def busy_def)

lemma starved_thread: "starved (as_thread e t) c (m\<lparr>mutexes := f\<rparr>) = starved e c m"
proof -
  have "spr_get_npages (as_thread e t) k = spr_get_npages e k" for k by (simp add: spr_get_npages_def Let_def)
  then have "no_cleanup_node (as_thread e t) p (m\<lparr>mutexes := f\<rparr>) = no_cleanup_node e p m" for p m
    by (simp add: no_cleanup_node_def no_room_def)
  moreover have "snd (spr_malloc (as_thread e t) k (m\<lparr>mutexes := f\<rparr>)) = (snd (spr_malloc e k m))\<lparr>mutexes := f\<rparr>" for k
    by (simp add: spr_malloc_def Let_def)
  ultimately show ?thesis by (cases c) (simp_all add: large_starved_def large_request_def)
qed

lemma lockable_facts:
  assumes "lockable e c"
  shows "s_pools (after e c a m s) = s_pools s" "target c \<in> set (s_pools s) \<Longrightarrow> allowed e s c"
    "starved e c (m\<lparr>mutexes := f\<rparr>) = starved e c m" "runs c rs = {#}"
proof -
  have "as_thread e (current_thread e) = e" by simp
  then show "starved e c (m\<lparr>mutexes := f\<rparr>) = starved e c m" using starved_thread by metis
qed (use assms in \<open>cases c; simp add: after_def servable_def\<close>)+

lemma locked_write: "locked e (m\<lparr>bytes := b\<rparr>) p = locked e m p"
  by (simp add: locked_def)

section \<open>Every interleaving follows a session\<close>

text \<open>What the proofs below use of the session that is followed.\<close>

definition threaded :: "env \<Rightarrow> (addr \<times> size) set \<Rightarrow> addr \<Rightarrow> session \<Rightarrow> bool" where
  "threaded e B root s0 \<longleftrightarrow> session_ok e B root s0 \<and> strict_mem e \<and> thread_safety e"

lemma follows_ok: "threaded e B root s0 \<Longrightarrow> follows e s0 y s \<Longrightarrow> session_ok e B root s"
  by (rule session_run_ok [of e s0]) (auto simp: threaded_def follows_def intro: serial_run run_start)

lemma follows_tree:
  assumes "threaded e B root s0" "follows e s0 y s"
  obtains t where "good_tree e B (s_mem s) t" "agrees s t"
    "\<And>p. p \<in> set (s_pools s0) \<Longrightarrow> \<exists>S cl fr. (p, S, cl, fr) \<in> set (flat t)"
proof -
  obtain t where t: "good_tree e B (s_mem s) t" "agrees s t"
    using follows_ok [OF assms] by (auto simp: session_ok_def)
  have "\<exists>S cl fr. (p, S, cl, fr) \<in> set (flat t)" if "p \<in> set (s_pools s0)" for p
  proof -
    have "p \<in> set (s_pools s)" using that assms(2) by (simp add: follows_def)
    from agrees_pool [OF t(2) this] show ?thesis by blast
  qed
  with t show thesis by (rule that)
qed

lemma busy_at: "busy e y s v q \<Longrightarrow> inside (th_at y u) \<Longrightarrow> v = u"
  "busy e y s u q \<Longrightarrow> th_at y u = Working c \<Longrightarrow> q = target c"
  "busy e y s u q \<Longrightarrow> th_at y u = Leaving c a \<Longrightarrow> q = target c"
  by (auto simp: busy_def)

lemma follows_holder:
  assumes ok: "threaded e B root s0" and fol: "follows e s0 y s" and u: "inside (th_at y u)"
  obtains p t S cl fr where "busy e y s u p" "p \<in> set (s_pools s0)" "good_tree e B (s_mem s) t"
    "(p, S, cl, fr) \<in> set (flat t)"
proof -
  have "\<not> quiet y s" using u by (auto simp: quiet_def)
  then obtain v p where b: "busy e y s v p" using fol by (auto simp: follows_def)
  have v: "v = u" by (rule busy_at(1) [OF b u])
  have p: "p \<in> set (s_pools s0)" using b fol by (simp add: busy_def follows_def)
  obtain t where t: "good_tree e B (s_mem s) t" "\<exists>S cl fr. (p, S, cl, fr) \<in> set (flat t)"
    by (rule follows_tree [OF ok fol]) (use p in blast)
  from t(2) obtain S cl fr where "(p, S, cl, fr) \<in> set (flat t)" by blast
  then show thesis by (rule that [OF b [unfolded v] p t(1)])
qed

lemma follows_lock:
  assumes ok: "threaded e B root s0" and fol: "follows e s0 y s" and u: "th_at y u = Waiting c"
  shows "quiet y s \<Longrightarrow> pool_lock (as_thread e u) (target c) (s_mem (th_shared y)) =
      Some ((s_mem s)\<lparr>mutexes := locked (as_thread e u) (s_mem s) (target c)\<rparr>)"
    and "busy e y s v q \<Longrightarrow> pool_lock (as_thread e u) (target c) (s_mem (th_shared y)) = None"
proof -
  have p: "target c \<in> set (s_pools s0)" and ts: "thread_safety e" using fol u ok by (auto simp: follows_def threaded_def)
  obtain t where good: "good_tree e B (s_mem s) t"
    and pools: "\<And>p. p \<in> set (s_pools s0) \<Longrightarrow> \<exists>S cl fr. (p, S, cl, fr) \<in> set (flat t)"
    by (rule follows_tree [OF ok fol]) blast
  obtain S cl fr where w: "(target c, S, cl, fr) \<in> set (flat t)" using pools [OF p] by blast
  show "quiet y s \<Longrightarrow> pool_lock (as_thread e u) (target c) (s_mem (th_shared y)) =
      Some ((s_mem s)\<lparr>mutexes := locked (as_thread e u) (s_mem s) (target c)\<rparr>)"
    using thread_lock(1) [OF good ts w] by (simp add: quiet_def)
  assume b: "busy e y s v q"
  then have "q \<in> set (s_pools s0)" "v \<noteq> u" using fol u by (auto simp: busy_def follows_def)
  moreover from this obtain T dl gr where "(q, T, dl, gr) \<in> set (flat t)" using pools by blast
  ultimately show "pool_lock (as_thread e u) (target c) (s_mem (th_shared y)) = None"
    using thread_locked_out [OF good ts _ w, of "(q, T, dl, gr)" u v] b by (simp add: busy_def)
qed

lemma follows_unlock:
  assumes ok: "threaded e B root s0" and fol: "follows e s0 y s" and u: "th_at y u = Leaving c a"
  shows "pool_unlock (as_thread e u) (target c) (s_mem (th_shared y)) = Some (s_mem s)"
    and "s = after e c a (s_mem s) (th_shared y)" "lockable e c"
proof -
  obtain q t S cl fr where b: "busy e y s u q" "q \<in> set (s_pools s0)" and good: "good_tree e B (s_mem s) t"
    and v: "(q, S, cl, fr) \<in> set (flat t)"
    by (rule follows_holder [OF ok fol, of u]) (simp add: u)
  have q: "q = target c" by (rule busy_at(3) [OF b(1) u])
  have "thread_safety e" using ok by (simp add: threaded_def)
  from thread_lock(2) [OF good this v] show "pool_unlock (as_thread e u) (target c) (s_mem (th_shared y)) = Some (s_mem s)"
    using b(1) q by (simp add: busy_def)
  show "s = after e c a (s_mem s) (th_shared y)" "lockable e c" using b(1) u by (auto simp: busy_def)
qed

text \<open>The work of the thread inside is the call of the client.\<close>

lemma follows_work:
  assumes ok: "threaded e B root s0" and fol: "follows e s0 y s" and u: "th_at y u = Working c"
  shows "lockable e c" "allowed e s c" "busy e y s u (target c)" "s = set_mem (s_mem s) (th_shared y)"
    "f = locked (as_thread e u) (s_mem s) (target c) \<Longrightarrow>
      work (as_thread e u) c (s_mem (th_shared y)) = with_mutexes f (exec e c (s_mem s))"
    "f = locked (as_thread e u) (s_mem s) (target c) \<Longrightarrow> exec e c (s_mem s) = Some (a, m) \<Longrightarrow>
      locked (as_thread e u) m (target c) = f"
proof -
  obtain q t S cl fr where b: "busy e y s u q" "q \<in> set (s_pools s0)" and good: "good_tree e B (s_mem s) t"
    and v: "(q, S, cl, fr) \<in> set (flat t)"
    by (rule follows_holder [OF ok fol, of u]) (simp add: u)
  have q: "q = target c" by (rule busy_at(2) [OF b(1) u])
  show c: "lockable e c" and "s = set_mem (s_mem s) (th_shared y)" using b(1) u by (auto simp: busy_def)
  show "busy e y s u (target c)" using b(1) q by simp
  show "allowed e s c" using b fol q by (intro lockable_facts(2) [OF c]) (simp add: follows_def)
  have "s_mem (th_shared y) = (s_mem s)\<lparr>mutexes := locked (as_thread e u) (s_mem s) q\<rparr>"
    using b(1) by (simp add: busy_def)
  then show "work (as_thread e u) c (s_mem (th_shared y)) = with_mutexes f (exec e c (s_mem s))"
    if "f = locked (as_thread e u) (s_mem s) (target c)"
    using thread_work(1) [OF good v c, of f u] that q by simp
  show "locked (as_thread e u) m (target c) = f"
    if "f = locked (as_thread e u) (s_mem s) (target c)" "exec e c (s_mem s) = Some (a, m)"
    using thread_work(2) [OF good v c, of f u a m] that q by simp
qed

text \<open>A step that only moves a thread outside the lock keeps what is followed.\<close>

lemma follows_outside:
  assumes fol: "follows e s0 y s" and u: "\<not> inside (th_at y u)" "\<not> inside q"
    and q: "\<And>c. q = Waiting c \<Longrightarrow> lockable e c \<and> target c \<in> set (s_pools s0)"
  shows "follows e s0 (move u q (th_shared y) y) s"
proof -
  have at: "inside (th_at (move u q (th_shared y) y) v) = inside (th_at y v)" for v using u by simp
  have "quiet (move u q (th_shared y) y) s" if "quiet y s" using that at by (simp add: quiet_def)
  moreover have "busy e (move u q (th_shared y) y) s v p" if b: "busy e y s v p" for v p
  proof -
    have "v \<noteq> u" using b u(1) by (auto simp: busy_def)
    then show ?thesis using b at by (simp add: busy_def)
  qed
  moreover have "\<forall>v c. th_at (move u q (th_shared y) y) v = Waiting c \<longrightarrow> lockable e c \<and> target c \<in> set (s_pools s0)"
    using fol q by (auto simp: follows_def)
  ultimately show ?thesis using fol unfolding follows_def by (simp only: thread_simps) blast
qed

lemma follows_step:
  assumes ok: "threaded e B root s0" and fol: "follows e s0 y s" and step: "thread_step e u y y'"
  shows "\<exists>s'. follows e s0 y' s'"
  using step
proof cases
  case (step_call c)
  have "follows e s0 y' s" unfolding step_call(1)
    using step_call(2-4) fol by (intro follows_outside) (auto simp: follows_def)
  then show ?thesis by blast
next
  case (step_lock c m)
  note lock = follows_lock [OF ok fol step_lock(2)]
  have q: "quiet y s" using lock(2) step_lock(3) fol by (auto simp: follows_def)
  have c: "lockable e c" "target c \<in> set (s_pools s)" using fol step_lock(2) by (auto simp: follows_def)
  have "busy e y' s u (target c)"
    using q lock(1) [OF q] step_lock(1,3) c by (auto simp: busy_def quiet_def)
  then have "follows e s0 y' s" using fol step_lock(1) by (auto simp: follows_def)
  then show ?thesis by blast
next
  case (step_work c a x)
  let ?f = "locked (as_thread e u) (s_mem s) (target c)"
  note w = follows_work [OF ok fol step_work(2)]
  have "with_mutexes ?f (exec e c (s_mem s)) = Some (a, x)" using w(5) [OF refl] step_work(3) by simp
  then obtain m where m: "exec e c (s_mem s) = Some (a, m)" "x = m\<lparr>mutexes := ?f\<rparr>" by auto
  let ?s = "after e c a m s"
  have s: "?s = after e c a m (th_shared y)" by (subst w(4)) simp
  have pools: "s_pools ?s = s_pools s" by (rule lockable_facts(1) [OF w(1)])
  have run: "serial e (th_log y') s0 = Some ?s"
    using fol m w(2) step_work(1) by (simp add: follows_def serial_append)
  have "locked (as_thread e u) m (target c) = ?f" by (rule w(6) [OF refl m(1)])
  then have "busy e y' ?s u (target c)"
    using w(1,3) m(2) pools step_work(1) s by (simp add: busy_def)
  then have "follows e s0 y' ?s" using fol step_work(1) run pools by (auto simp: follows_def)
  then show ?thesis by blast
next
  case (step_unlock c a m)
  note un = follows_unlock [OF ok fol step_unlock(2)]
  have m: "after e c a m (th_shared y) = s" using un(1,2) step_unlock(3) by simp
  obtain q t S cl fr where b: "busy e y s u q" by (rule follows_holder [OF ok fol, of u]) (simp add: step_unlock(2))
  have "quiet y' s" using b m step_unlock(1) by (auto simp: busy_def quiet_def)
  then have "follows e s0 y' s" using fol step_unlock(1) m by (auto simp: follows_def)
  then show ?thesis by blast
next
  case (step_write b)
  let ?m = "s_mem s"
  let ?y = "logged (Wrote b) (y\<lparr>th_shared := set_mem ((s_mem (th_shared y))\<lparr>bytes := b\<rparr>) (th_shared y)\<rparr>)"
  let ?s = "set_mem (?m\<lparr>bytes := b\<rparr>) s"
  have run: "serial e (th_log ?y) s0 = Some ?s" using fol by (simp add: follows_def serial_append)
  have "quiet ?y ?s" if "quiet y s" using that by (simp add: quiet_def)
  moreover have "busy e ?y ?s v q" if b: "busy e y s v q" for v q
  proof -
    have "?s = set_mem (s_mem ?s) (th_shared ?y)" if "s = set_mem ?m (th_shared y)"
      using arg_cong [OF that, of "set_mem (?m\<lparr>bytes := b\<rparr>)"] by simp
    moreover have "?s = after e c a (s_mem ?s) (th_shared ?y)" if "s = after e c a ?m (th_shared y)" for c a
      using arg_cong [OF that, of "set_mem (?m\<lparr>bytes := b\<rparr>)"] by simp
    ultimately show ?thesis using b unfolding busy_def by (simp add: locked_write) blast
  qed
  ultimately have "quiet ?y ?s \<or> (\<exists>u p. busy e ?y ?s u p)" using fol unfolding follows_def by blast
  then have "follows e s0 ?y ?s" using fol run by (simp add: follows_def)
  from follows_outside [OF this, of u Outside] have "follows e s0 y' ?s"
    using step_write by (simp add: move_def logged_def)
  then show ?thesis by blast
qed

lemma run_follows:
  assumes "threaded e B root s0" "thread_run e s0 y"
  shows "\<exists>s. follows e s0 y s"
  using assms(2)
proof (induction rule: thread_run.induct)
  case threads_start
  have "follows e s0 \<lparr>th_shared = s0, th_at = (\<lambda>_. Outside), th_log = []\<rparr> s0"
    by (simp add: follows_def quiet_def)
  then show ?case by blast
next
  case (threads_step y u y')
  then show ?case using follows_step [OF assms(1)] by blast
qed

section \<open>Steps that threads can take\<close>

lemma lock_step:
  assumes "threaded e B root s0" "follows e s0 y s" "th_at y u = Waiting c" "quiet y s"
  shows "thread_step e u y (move u (Working c)
    (set_mem ((s_mem s)\<lparr>mutexes := locked (as_thread e u) (s_mem s) (target c)\<rparr>) (th_shared y)) y)"
  by (rule step_lock [OF assms(3) follows_lock(1) [OF assms]])

text \<open>The thread inside can do its work, unless that needs a page which the system does not give.\<close>

lemma work_step:
  assumes ok: "threaded e B root s0" and fol: "follows e s0 y s" and u: "th_at y u = Working c"
    and fed: "\<not> starved e c (s_mem (th_shared y))"
  obtains a m where "exec e c (s_mem s) = Some (a, m)" "thread_step e u y (logged (Did u c a) (move u (Leaving c a)
    (set_mem (m\<lparr>mutexes := locked (as_thread e u) (s_mem s) (target c)\<rparr>) (th_shared y)) y))"
proof -
  note w = follows_work [OF ok fol u]
  have "s_mem (th_shared y) = (s_mem s)\<lparr>mutexes := locked (as_thread e u) (s_mem s) (target c)\<rparr>"
    using w(3) by (simp add: busy_def)
  then have "\<not> starved e c (s_mem s)" using fed lockable_facts(3) [OF w(1)] by simp
  moreover have "strict_mem e" using ok by (simp add: threaded_def)
  ultimately have "call_safe e B root s c"
    using call_session [OF follows_ok [OF ok fol] _ w(2)] by blast
  then obtain a m where m: "exec e c (s_mem s) = Some (a, m)" by (auto simp: call_safe_def)
  then show thesis by (intro that [OF m] step_work [OF u]) (simp add: w(5) [OF refl])
qed

lemma unlock_step:
  assumes "threaded e B root s0" "follows e s0 y s" "th_at y u = Leaving c a"
  shows "thread_step e u y (move u Outside (after e c a (s_mem s) (th_shared y)) y)"
  by (rule step_unlock [OF assms(3) follows_unlock(1) [OF assms]])

text \<open>How the threads \<open>U\<close> go on with the calls they are in, without starting new ones.\<close>

abbreviation goes_on :: "env \<Rightarrow> tid set \<Rightarrow> threads \<Rightarrow> threads \<Rightarrow> bool" where
  "goes_on e U \<equiv> (\<lambda>y y'. \<exists>u \<in> U. th_at y u \<noteq> Outside \<and> thread_step e u y y')\<^sup>*\<^sup>*"

lemma steps_follow:
  "goes_on e U y y' \<Longrightarrow> threaded e B root s0 \<Longrightarrow> \<exists>s. follows e s0 y s \<Longrightarrow> \<exists>s. follows e s0 y' s"
  by (induction rule: rtranclp_induct) (use follows_step in blast)+

lemma one_step: "u \<in> U \<Longrightarrow> th_at y u \<noteq> Outside \<Longrightarrow> thread_step e u y y' \<Longrightarrow> goes_on e U y y'"
  by blast

text \<open>The thread that holds the lock can finish, without the help of the others.\<close>

lemma holder_finishes:
  assumes ok: "threaded e B root s0" and fol: "follows e s0 y s" and u: "inside (th_at y u)" "u \<in> U"
  obtains (crash) c where "th_at y u = Working c" "starved e c (s_mem (th_shared y))"
    | (fin) y' where "goes_on e U y y'" "th_at y' = (th_at y)(u := Outside)"
proof -
  have leave: "\<exists>y'. goes_on e U z y' \<and> th_at y' = (th_at z)(u := Outside)"
    if z: "th_at z u = Leaving c a" "follows e s0 z s'" for z c a s'
  proof -
    let ?z = "move u Outside (after e c a (s_mem s') (th_shared z)) z"
    have "goes_on e U z ?z" using z(1) u(2) by (intro one_step [OF _ _ unlock_step [OF ok z(2,1)]]) simp_all
    then show ?thesis by (intro exI [of _ ?z]) simp
  qed
  show thesis
  proof (cases "th_at y u")
    case (Working c)
    show thesis
    proof (cases "starved e c (s_mem (th_shared y))")
      case True
      then show thesis using Working by (intro crash)
    next
      case False
      obtain a m where step: "thread_step e u y (logged (Did u c a) (move u (Leaving c a)
          (set_mem (m\<lparr>mutexes := locked (as_thread e u) (s_mem s) (target c)\<rparr>) (th_shared y)) y))" (is "thread_step _ _ _ ?z")
        by (rule work_step [OF ok fol Working False])
      obtain z where z: "follows e s0 ?z z" using follows_step [OF ok fol step] by blast
      obtain y' where y': "goes_on e U ?z y'" "th_at y' = (th_at ?z)(u := Outside)"
        using leave [OF _ z, of c a] by auto
      have "goes_on e U y ?z" using Working by (intro one_step [OF u(2) _ step]) simp
      from rtranclp_trans [OF this y'(1)] show thesis by (intro fin [of y']) (simp_all add: y'(2))
    qed
  next
    case (Leaving c a)
    from leave [OF this fol] show thesis using fin by blast
  qed (use u in simp_all)
qed

text \<open>A thread that waits can finish too, after the one that holds the lock.\<close>

lemma waiting_finishes:
  assumes ok: "threaded e B root s0" and fol: "follows e s0 y s" and u: "th_at y u = Waiting c" "u \<in> U"
    and q: "quiet y s"
  shows "\<exists>y'. goes_on e U y y' \<and>
    (th_at y' u = Outside \<or> th_at y' u = Working c \<and> starved e c (s_mem (th_shared y')))"
proof -
  let ?z = "move u (Working c) (set_mem ((s_mem s)\<lparr>mutexes := locked (as_thread e u) (s_mem s) (target c)\<rparr>) (th_shared y)) y"
  have step: "thread_step e u y ?z" by (rule lock_step [OF ok fol u(1) q])
  then have steps: "goes_on e U y ?z" using u by (intro one_step [OF u(2) _ step]) simp
  obtain z where z: "follows e s0 ?z z" using follows_step [OF ok fol step] by blast
  have at: "inside (th_at ?z u)" by simp
  show ?thesis
  proof (rule holder_finishes [OF ok z at u(2)], goal_cases crash fin)
    case (crash d)
    then show ?case using steps by (intro exI [of _ ?z]) simp
  next
    case (fin y')
    then have "th_at y' u = Outside" by simp
    then show ?case using rtranclp_trans [OF steps fin(1)] by blast
  qed
qed

text \<open>So a thread can finish with the help of the one that is inside, if any.\<close>

lemma all_finish:
  assumes ok: "threaded e B root s0" and fol: "follows e s0 y s"
    and U: "U = insert u {v. inside (th_at y v)}"
  shows "\<exists>y'. goes_on e U y y' \<and> (th_at y' u = Outside \<or>
    (\<exists>v c. v \<in> U \<and> th_at y v \<in> {Waiting c, Working c} \<and> th_at y' v = Working c \<and> starved e c (s_mem (th_shared y'))))"
proof (cases "th_at y u")
  case (Waiting c)
  have uU: "u \<in> U" using U by simp
  show ?thesis
  proof (cases "quiet y s")
    case False
    then obtain v q where v: "busy e y s v q" using fol by (auto simp: follows_def)
    then have vu: "inside (th_at y v)" "v \<noteq> u" using Waiting by (auto simp: busy_def)
    have vU: "v \<in> U" using vu(1) U by simp
    show ?thesis
    proof (rule holder_finishes [OF ok fol vu(1) vU], goal_cases crash fin)
      case (crash d)
      then show ?case using vU by (intro exI [of _ y] conjI disjI2 exI [of _ v] exI [of _ d]) simp_all
    next
      case (fin z)
      obtain s' where s': "follows e s0 z s'" using steps_follow [OF fin(1) ok] fol by blast
      have "\<not> inside (th_at z w)" for w using v fin(2) by (simp add: busy_def)
      then have q: "quiet z s'" using s' by (auto simp: follows_def busy_def)
      have "th_at z u = Waiting c" using fin(2) vu(2) Waiting by simp
      from waiting_finishes [OF ok s' this uU q] obtain y' where y': "goes_on e U z y'"
        "th_at y' u = Outside \<or> th_at y' u = Working c \<and> starved e c (s_mem (th_shared y'))" by blast
      from rtranclp_trans [OF fin(1) y'(1)] show ?case using y'(2) uU Waiting by blast
    qed
  next
    case True
    from waiting_finishes [OF ok fol Waiting uU True] show ?thesis using uU Waiting by blast
  qed
next
  case Outside
  then show ?thesis by blast
next
  case (Working c)
  then have "inside (th_at y u)" "u \<in> U" using U by simp_all
  then show ?thesis
  proof (rule holder_finishes [OF ok fol], goal_cases crash fin)
    case (crash d)
    then show ?case using U by (intro exI [of _ y] conjI disjI2 exI [of _ u] exI [of _ d]) simp_all
  next
    case (fin y')
    then have "th_at y' u = Outside" by simp
    then show ?case using fin(1) by blast
  qed
next
  case (Leaving c a)
  then have "inside (th_at y u)" "u \<in> U" using U by simp_all
  then show ?thesis
  proof (rule holder_finishes [OF ok fol], goal_cases crash fin)
    case (fin y')
    then have "th_at y' u = Outside" by simp
    then show ?case using fin(1) by blast
  qed (use Leaving in simp)
qed

section \<open>The theorems\<close>

lemma started_threaded:
  assumes "started e n m0 p m" "session_run e (new_session p m) s0" "thread_safety e"
  shows "threaded e (set (blocks m0)) p s0"
proof -
  have "strict_mem e" using assms(1) by (simp add: started_def)
  then show ?thesis using session_run_ok [OF assms(2) started_ok [OF assms(1)]] assms(3) by (simp add: threaded_def)
qed

text \<open>C2: Threads that make requests which the slots serve to the pools of a tree, and register cleanups with
  them, at the same time, see what one client would see that makes their calls one after the other. Whatever
  the interleaving of their calls, locks, work and unlocks (and of writes to their memory): the log of the
  work, in the order in which it was done, with every result, is what one client does that makes
  exactly these calls, whole, in this order, and gets the same results. When no thread is inside, this
  client's memory is the memory of the threads and what it knows, the memory given and the cleanups registered,
  is what they know; while one is inside, the memory differs by the lock, and the knowledge by the call
  at hand. Other calls of threads (larger requests, clearing, destroying, new children) are not covered.\<close>

theorem threads_follow_session:
  assumes "started e n m0 p m" "session_run e (new_session p m) s0" "thread_safety e" "thread_run e s0 y"
  shows "\<exists>s. serial e (th_log y) s0 = Some s \<and>
    (if \<forall>u. \<not> inside (th_at y u) then th_shared y = s else \<exists>u q. busy e y s u q)"
proof -
  obtain s where s: "follows e s0 y s" using run_follows [OF started_threaded [OF assms(1-3)] assms(4)] by blast
  then have "quiet y s \<or> (\<exists>u q. busy e y s u q)" by (simp add: follows_def)
  moreover have "\<forall>u q. busy e y s u q \<longrightarrow> (\<exists>v. inside (th_at y v))" by (auto simp: busy_def)
  ultimately show ?thesis using s by (intro exI [of _ s]) (simp add: follows_def quiet_def; blast)
qed

text \<open>C5: However the threads interleave, at most one of them is between lock and unlock of any pools of the
  tree, and no two pieces of memory that they have been given overlap.\<close>

theorem threads_exclude_each_other:
  assumes "started e n m0 p m" "session_run e (new_session p m) s0" "thread_safety e" "thread_run e s0 y"
  shows "(inside (th_at y u) \<and> inside (th_at y v) \<longrightarrow> u = v) \<and> apart_regions (s_held (th_shared y))"
proof -
  note ok = started_threaded [OF assms(1-3)]
  obtain s where fol: "follows e s0 y s" using run_follows [OF ok assms(4)] by blast
  obtain t where "agrees s t" by (rule follows_tree [OF ok fol])
  then have ap: "apart_regions (s_held s)" by (simp add: agrees_def)
  have held: "\<exists>xs. s_held s = xs @ s_held (th_shared y)"
    using fol unfolding follows_def
  proof (elim conjE disjE exE)
    fix w q assume b: "busy e y s w q"
    show ?thesis
    proof (cases "th_at y w")
      case (Working c)
      have "s = set_mem (s_mem s) (th_shared y)" by (rule follows_work(4) [OF ok fol Working])
      then have "s_held s = s_held (set_mem (s_mem s) (th_shared y))" by (rule arg_cong)
      then show ?thesis by (simp add: set_mem_def)
    next
      case (Leaving c a)
      have eq: "s_held s = s_held (after e c a (s_mem s) (th_shared y))"
        by (rule arg_cong [OF follows_unlock(2) [OF ok fol Leaving]])
      have "runs c rs = {#}" for rs by (rule lockable_facts(4) [OF follows_unlock(3) [OF ok fol Leaving]])
      then show ?thesis using eq by (simp add: after_def released_def)
    qed (use b in \<open>auto simp: busy_def\<close>)
  qed (simp add: quiet_def)
  have "apart_regions (s_held (th_shared y))" using ap held by (auto simp: apart_regions_def sorted_wrt_append)
  moreover have "u = v" if ins: "inside (th_at y u)" "inside (th_at y v)"
  proof -
    obtain q where b: "busy e y s u q" by (rule follows_holder [OF ok fol ins(1)])
    show ?thesis by (rule busy_at(1) [OF b ins(2)])
  qed
  ultimately show ?thesis by blast
qed

text \<open>C6: No thread is locked out for good: from every reachable state, whatever the other threads are doing,
  a given thread can return from the call it is in by steps of its own and of the thread inside, if there is
  one, without any of them starting a new call. The only thing in the way can be that one of these two is
  already making a registration whose work, when it comes to it, is starved: no cleanup node is reserved, no
  memory node of the pool has room for one and the system gives no page, where the code dereferences null.\<close>

theorem threads_can_finish:
  assumes "started e n m0 p m" "session_run e (new_session p m) s0" "thread_safety e" "thread_run e s0 y"
  shows "\<exists>y'. (\<lambda>a b. \<exists>v. (v = u \<or> inside (th_at y v)) \<and> th_at a v \<noteq> Outside \<and> thread_step e v a b)\<^sup>*\<^sup>* y y' \<and>
    (th_at y' u = Outside \<or> (\<exists>v c. (v = u \<or> inside (th_at y v)) \<and> th_at y v \<in> {Waiting c, Working c} \<and>
      th_at y' v = Working c \<and> starved e c (s_mem (th_shared y'))))"
proof -
  note ok = started_threaded [OF assms(1-3)]
  let ?U = "insert u {v. inside (th_at y v)}"
  have U: "(v = u \<or> inside (th_at y v)) \<longleftrightarrow> v \<in> ?U" for v by simp
  obtain s where "follows e s0 y s" using run_follows [OF ok assms(4)] by blast
  from all_finish [OF ok this refl, of u] show ?thesis unfolding U by (simp only: Bex_def)
qed

section \<open>Two threads on the sample pool\<close>

text \<open>Thread 1 has been given memory and has not unlocked; thread 2 waits to register a cleanup.\<close>

lemma sample_threads:
  obtains y where "thread_run sample_env (new_session sample_pool sample_mem) y"
    "th_at y 1 = Leaving (Palloc sample_pool 24) 4400" "th_at y 2 = Waiting (Cleanup_add sample_pool 77 1)"
    "s_held (th_shared y) = []" "th_log y = [Did 1 (Palloc sample_pool 24) 4400]"
    "\<And>v. inside (th_at y v) \<longleftrightarrow> v = 1"
proof -
  let ?s = "new_session sample_pool sample_mem" and ?c = "Palloc sample_pool 24" and ?d = "Cleanup_add sample_pool 77 1"
  let ?f = "locked (as_thread sample_env 1) (s_mem ?s) (target ?c)"
  let ?y0 = "\<lparr>th_shared = ?s, th_at = (\<lambda>_. Outside), th_log = []\<rparr>"
  let ?y1 = "move 1 (Waiting ?c) (th_shared ?y0) ?y0"
  let ?y2 = "move 2 (Waiting ?d) (th_shared ?y1) ?y1"
  let ?y3 = "move 1 (Working ?c) (set_mem ((s_mem ?s)\<lparr>mutexes := ?f\<rparr>) (th_shared ?y2)) ?y2"
  have ts: "thread_safety sample_env" by (simp add: sample_fields)
  note ok = started_threaded [OF sample_started run_start ts]
  have c: "lockable sample_env ?c" by (simp add: sample_small round_up_def)
  have p: "s_pools ?s = [sample_pool]" by (simp add: new_session_def)
  have r0: "thread_run sample_env ?s ?y0" by (rule threads_start)
  have r1: "thread_run sample_env ?s ?y1" by (rule threads_step [OF r0 step_call [OF _ c]]) (simp_all add: p)
  have r2: "thread_run sample_env ?s ?y2" by (rule threads_step [OF r1 step_call]) (simp_all add: p)
  have f2: "follows sample_env ?s ?y2 ?s" "quiet ?y2 ?s"
    using c by (simp_all add: follows_def quiet_def p)
  have st3: "thread_step sample_env 1 ?y2 ?y3" by (rule lock_step [OF ok f2(1) _ f2(2)]) simp
  have r3: "thread_run sample_env ?s ?y3" by (rule threads_step [OF r2 st3])
  have "busy sample_env ?y3 ?s 1 sample_pool" using c by (simp add: busy_def p)
  then have f3: "follows sample_env ?s ?y3 ?s" using c by (auto simp: follows_def p)
  obtain a m where a: "exec sample_env ?c (s_mem ?s) = Some (a, m)"
    "thread_step sample_env 1 ?y3 (logged (Did 1 ?c a) (move 1 (Leaving ?c a) (set_mem (m\<lparr>mutexes := ?f\<rparr>) (th_shared ?y3)) ?y3))"
      (is "thread_step _ _ _ ?y4")
    by (rule work_step [OF ok f3, of 1 ?c])
      (simp_all add: large_starved_def sample_fields large_request_def round_up_def)
  have "a = 4400" using a(1) by (simp add: new_session_def palloc_depth3 sample_palloc)
  then show thesis using threads_step [OF r3 a(2)]
    by (intro that [of ?y4]) (simp_all add: set_mem_def new_session_def)
qed

theorem threads_follow_session_witness:
  "\<exists>y s. thread_run sample_env (new_session sample_pool sample_mem) y \<and>
    serial sample_env [Did 1 (Palloc sample_pool 24) 4400] (new_session sample_pool sample_mem) = Some s \<and>
    s_held s = [(4400, 24)] \<and>
    s_mem (th_shared y) = (s_mem s)\<lparr>mutexes := locked (as_thread sample_env 1) (s_mem s) sample_pool\<rparr>"
proof -
  obtain y where y: "thread_run sample_env (new_session sample_pool sample_mem) y"
    "th_at y 1 = Leaving (Palloc sample_pool 24) 4400" "s_held (th_shared y) = []"
    "th_log y = [Did 1 (Palloc sample_pool 24) 4400]"
    by (rule sample_threads)
  have ins: "inside (th_at y 1)" using y(2) by simp
  obtain s u q where s: "serial sample_env (th_log y) (new_session sample_pool sample_mem) = Some s" "busy sample_env y s u q"
    using threads_follow_session [OF sample_started run_start _ y(1)] ins by (auto simp: sample_fields split: if_splits)
  have u: "u = 1" by (rule busy_at(1) [OF s(2) ins])
  have b: "busy sample_env y s 1 q" using s(2) u by simp
  have q: "q = sample_pool" using busy_at(3) [OF b y(2)] by simp
  have "s = after sample_env (Palloc sample_pool 24) 4400 (s_mem s) (th_shared y)" using b y(2) by (auto simp: busy_def)
  then have "s_held s = s_held (after sample_env (Palloc sample_pool 24) 4400 (s_mem s) (th_shared y))" by (rule arg_cong)
  then have "s_held s = [(4400, 24)]" by (simp add: after_def y(3))
  moreover have "s_mem (th_shared y) = (s_mem s)\<lparr>mutexes := locked (as_thread sample_env 1) (s_mem s) sample_pool\<rparr>"
    using b q by (simp add: busy_def)
  ultimately show ?thesis using s(1) y(1) unfolding y(4) by blast
qed

theorem threads_exclude_each_other_witness:
  "\<exists>y. thread_run sample_env (new_session sample_pool sample_mem) y \<and>
    th_at y 1 = Leaving (Palloc sample_pool 24) 4400 \<and> th_at y 2 = Waiting (Cleanup_add sample_pool 77 1) \<and>
    (\<forall>v. inside (th_at y v) \<longrightarrow> v = 1)"
proof -
  obtain y where y: "thread_run sample_env (new_session sample_pool sample_mem) y"
    "th_at y 1 = Leaving (Palloc sample_pool 24) 4400" "th_at y 2 = Waiting (Cleanup_add sample_pool 77 1)"
    by (rule sample_threads)
  have "v = 1" if "inside (th_at y v)" for v
    using threads_exclude_each_other [OF sample_started run_start _ y(1), of v 1] that y(2) by (simp add: sample_fields)
  then show ?thesis using y by blast
qed

theorem threads_can_finish_witness:
  "\<exists>y y'. thread_run sample_env (new_session sample_pool sample_mem) y \<and>
    th_at y 1 = Leaving (Palloc sample_pool 24) 4400 \<and> th_at y 2 = Waiting (Cleanup_add sample_pool 77 1) \<and>
    (\<lambda>a b. \<exists>v. v \<in> {1, 2} \<and> th_at a v \<noteq> Outside \<and> thread_step sample_env v a b)\<^sup>*\<^sup>* y y' \<and>
    (th_at y' 2 = Outside \<or> th_at y' 2 = Working (Cleanup_add sample_pool 77 1) \<and>
      no_cleanup_node sample_env sample_pool (s_mem (th_shared y')))"
proof -
  obtain y where y: "thread_run sample_env (new_session sample_pool sample_mem) y"
    "th_at y 1 = Leaving (Palloc sample_pool 24) 4400" "th_at y 2 = Waiting (Cleanup_add sample_pool 77 1)"
    "\<And>v. inside (th_at y v) \<longleftrightarrow> v = 1"
    by (rule sample_threads) (rule that)
  have U: "(v = 2 \<or> v = 1) = (v \<in> {1, 2})" for v :: tid by auto
  have ts: "thread_safety sample_env" by simp
  from threads_can_finish [OF sample_started run_start ts y(1), of 2, unfolded y(4) U]
  obtain y' where y': "(\<lambda>a b. \<exists>v. v \<in> {1, 2} \<and> th_at a v \<noteq> Outside \<and> thread_step sample_env v a b)\<^sup>*\<^sup>* y y'"
    "th_at y' 2 = Outside \<or> (\<exists>v c. v \<in> {1, 2} \<and> th_at y v \<in> {Waiting c, Working c} \<and>
      th_at y' v = Working c \<and> starved sample_env c (s_mem (th_shared y')))"
    by (elim exE conjE) (rule that)
  moreover have "th_at y' 2 = Outside \<or> th_at y' 2 = Working (Cleanup_add sample_pool 77 1) \<and>
      no_cleanup_node sample_env sample_pool (s_mem (th_shared y'))"
    using y'(2) y(2,3) by auto
  ultimately show ?thesis using y(1-3) by blast
qed

section \<open>Children created at the same time\<close>

text \<open>\<open>spr_pool_add_child\<close> does not lock. Its two halves: it reads the youngest child of the parent, and
  puts the new child in front of it.\<close>

definition add_child_read :: "env \<Rightarrow> addr \<Rightarrow> addr \<Rightarrow> mem \<Rightarrow> (addr \<times> mem) option" where
  "add_child_read e parent new_child m = do {
     m \<leftarrow> upd_pool e new_child (pl_parent_update (\<lambda>_. parent)) m;
     p \<leftarrow> load_pool e parent m;
     Some (pl_child p, m) }"

definition add_child_write :: "env \<Rightarrow> addr \<Rightarrow> addr \<Rightarrow> addr \<Rightarrow> mem \<Rightarrow> mem option" where
  "add_child_write e parent new_child temp m = do {
     m \<leftarrow> upd_pool e parent (pl_child_update (\<lambda>_. new_child)) m;
     upd_pool e new_child (pl_brother_update (\<lambda>_. temp)) m }"

lemma add_child_halves:
  "spr_pool_add_child e parent new_child m = do {
     (temp, m) \<leftarrow> add_child_read e parent new_child m; add_child_write e parent new_child temp m }"
  by (auto simp: spr_pool_add_child_def add_child_read_def add_child_write_def upd_pool_def load_pool_def)

text \<open>When two threads read before either of them writes, the child of the one that writes first is lost:
  the list of children has the other one only.\<close>

theorem add_child_race_loses_child:
  assumes "accessible e (blocks m) p" "accessible e (blocks m) a" "accessible e (blocks m) b"
    and "distinct [p, a, b]" "chain (\<lambda>x. pl_brother (pools m x)) (pl_child (pools m p)) kids"
    and "set kids \<inter> {p, a, b} = {}"
  shows "\<exists>m'. do {
      (t, m) \<leftarrow> add_child_read e p a m; (u, m) \<leftarrow> add_child_read e p b m;
      m \<leftarrow> add_child_write e p b u m; add_child_write e p a t m } = Some m' \<and>
    chain (\<lambda>x. pl_brother (pools m' x)) (pl_child (pools m' p)) (a # kids) \<and> b \<notin> set (a # kids)"
proof -
  have nz: "a \<noteq> NULL" using assms(2) by (simp add: accessible_def)
  have kids: "chain (\<lambda>x. pl_brother (g x)) (pl_child (pools m p)) kids" if "\<And>x. x \<in> set kids \<Longrightarrow> g x = pools m x" for g
    using assms(5) that by (subst chain_cong [where ny = "\<lambda>x. pl_brother (pools m x)"]) simp_all
  show ?thesis using assms nz
    by (auto simp: add_child_read_def add_child_write_def upd_pool_def load_pool_def intro!: kids)
qed

theorem add_child_race_loses_child_witness:
  "\<exists>m'. do {
      (t, m) \<leftarrow> add_child_read sample_env sample_pool 4300 sample_mem; (u, m) \<leftarrow> add_child_read sample_env sample_pool 4350 m;
      m \<leftarrow> add_child_write sample_env sample_pool 4350 u m; add_child_write sample_env sample_pool 4300 t m } = Some m' \<and>
    chain (\<lambda>x. pl_brother (pools m' x)) (pl_child (pools m' sample_pool)) [4300]"
proof -
  have acc: "accessible sample_env (blocks sample_mem) sample_pool" "accessible sample_env (blocks sample_mem) 4300"
    "accessible sample_env (blocks sample_mem) 4350"
    by (simp_all add: sample_access sample_fields(1) in_range_def sample_pool_def)
  have ne: "distinct [sample_pool, 4300, 4350]" by (simp add: sample_pool_def)
  have "chain (\<lambda>x. pl_brother (pools sample_mem x)) (pl_child (pools sample_mem sample_pool)) []"
    by (simp add: sample_fields(3) zero_pool_def)
  from add_child_race_loses_child [OF acc ne this] show ?thesis by simp
qed

end
