(* ===== verification/Spr_Limits.thy ===== *)
theory Spr_Limits
  imports Spr_Prelude
begin

text \<open>
  \<^verbatim>\<open>include/spr_limits.h\<close>: the largest values of the integer types and the lengths of their
  decimal texts. \<^verbatim>\<open>SPR_PTR_SIZE\<close> is not defined where the header is read, so the types as wide as a
  pointer have the limits of 64 bits.
\<close>

section \<open>Limits\<close>

definition SPR_INT32_MAX_VALUE :: "32 word" where "SPR_INT32_MAX_VALUE = 0x7fffffff"
definition SPR_UINT32_MAX_VALUE :: "32 word" where "SPR_UINT32_MAX_VALUE = 0xffffffff"
definition SPR_INT64_MAX_VALUE :: "64 word" where "SPR_INT64_MAX_VALUE = 0x7fffffffffffffff"
definition SPR_UINT64_MAX_VALUE :: "64 word" where "SPR_UINT64_MAX_VALUE = 0xffffffffffffffff"

text \<open>\<^verbatim>\<open>sizeof\<close> of a literal counts its characters and the final zero.\<close>

definition sizeof_literal :: "string \<Rightarrow> nat" where "sizeof_literal s = length s + 1"

definition SPR_INT32_MAX_LEN :: nat where "SPR_INT32_MAX_LEN = sizeof_literal ''-2147483648'' - 1"
definition SPR_UINT32_MAX_LEN :: nat where "SPR_UINT32_MAX_LEN = sizeof_literal ''4294967295'' - 1"
definition SPR_INT64_MAX_LEN :: nat where "SPR_INT64_MAX_LEN = sizeof_literal ''-9223372036854775807'' - 1"
definition SPR_UINT64_MAX_LEN :: nat where "SPR_UINT64_MAX_LEN = sizeof_literal ''18446744073709551615'' - 1"

definition SPR_INT_T_MAX :: "64 word" where "SPR_INT_T_MAX = SPR_INT64_MAX_VALUE"
definition SPR_UINT_T_MAX :: "64 word" where "SPR_UINT_T_MAX = SPR_UINT64_MAX_VALUE"
definition SPR_INT_T_LEN :: nat where "SPR_INT_T_LEN = SPR_INT64_MAX_LEN"
definition SPR_UINT_T_LEN :: nat where "SPR_UINT_T_LEN = SPR_UINT64_MAX_LEN"
definition SPR_SIZE_T_MAX :: "64 word" where "SPR_SIZE_T_MAX = SPR_UINT64_MAX_VALUE"
definition SPR_SSIZE_T_MAX :: "64 word" where "SPR_SSIZE_T_MAX = SPR_INT64_MAX_VALUE"

lemmas limit_lengths = SPR_INT32_MAX_LEN_def SPR_UINT32_MAX_LEN_def SPR_INT64_MAX_LEN_def
  SPR_UINT64_MAX_LEN_def SPR_INT_T_LEN_def SPR_UINT_T_LEN_def sizeof_literal_def

section \<open>Decimal texts\<close>

fun decimal :: "nat \<Rightarrow> string" where
  "decimal n = (if n < 10 then [char_of (48 + n)] else decimal (n div 10) @ [char_of (48 + n mod 10)])"

declare decimal.simps [simp del]

definition signed_decimal :: "int \<Rightarrow> string" where
  "signed_decimal x = (if x < 0 then CHR ''-'' # decimal (nat (- x)) else decimal (nat x))"

lemma length_decimal: "n < 10 ^ k \<Longrightarrow> 0 < k \<Longrightarrow> length (decimal n) \<le> k"
proof (induction n arbitrary: k rule: decimal.induct)
  case (1 n)
  show ?case
  proof (cases "n < 10")
    case True
    then show ?thesis using 1 by (subst decimal.simps) simp
  next
    case False
    then obtain j where k: "k = Suc j" "0 < j" using "1.prems" by (cases k; cases "k - 1") auto
    then have "length (decimal (n div 10)) \<le> j"
      using False "1.prems" by (intro "1.IH") (simp_all add: less_mult_imp_div_less mult.commute)
    then show ?thesis using False k by (subst decimal.simps) simp
  qed
qed

text \<open>No value of a type is larger than its limit, and no decimal text is longer than its length says.\<close>

theorem limits_hold:
  fixes i :: "32 word" and j :: "64 word"
  shows "sint i \<le> uint SPR_INT32_MAX_VALUE \<and> uint i \<le> uint SPR_UINT32_MAX_VALUE \<and>
    sint j \<le> uint SPR_INT64_MAX_VALUE \<and> uint j \<le> uint SPR_UINT64_MAX_VALUE \<and>
    length (signed_decimal (sint i)) \<le> SPR_INT32_MAX_LEN \<and> length (decimal (unat i)) \<le> SPR_UINT32_MAX_LEN \<and>
    length (signed_decimal (sint j)) \<le> SPR_INT64_MAX_LEN \<and> length (decimal (unat j)) \<le> SPR_UINT64_MAX_LEN"
proof -
  have s: "sint i < 2 ^ 31" "- (2 ^ 31) \<le> sint i" "sint j < 2 ^ 63" "- (2 ^ 63) \<le> sint j"
    using sint_lt [of i] sint_ge [of i] sint_lt [of j] sint_ge [of j] by simp_all
  have u: "unat i < 2 ^ 32" "unat j < 2 ^ 64" using unsigned_less [of i] unsigned_less [of j] by simp_all
  have i: "length (decimal (unat i)) \<le> 10" "length (decimal (nat (sint i))) \<le> 10"
    "length (decimal (nat (- sint i))) \<le> 10" using u s by (intro length_decimal; simp)+
  have j: "length (decimal (unat j)) \<le> 20" "length (decimal (nat (sint j))) \<le> 19"
    "length (decimal (nat (- sint j))) \<le> 19" using u s by (intro length_decimal; simp)+
  have "uint i < 2 ^ 32" "uint j < 2 ^ 64" using uint_lt2p [of i] uint_lt2p [of j] by simp_all
  then show ?thesis
    using s i j by (simp add: limit_lengths signed_decimal_def SPR_INT32_MAX_VALUE_def SPR_UINT32_MAX_VALUE_def
      SPR_INT64_MAX_VALUE_def SPR_UINT64_MAX_VALUE_def)
qed

end
