(* ===== verification/Spr_String.thy ===== *)
theory Spr_String
  imports Spr_Pool Spr_Limits
begin

text \<open>
  \<^verbatim>\<open>lib/spr_string.c\<close> and the character macros of \<^verbatim>\<open>include/spr_string.h\<close>, over the
  bytes of the memory. A read or write outside the live blocks has no defined result.
\<close>

section \<open>Bytes and characters (include/spr_string.h)\<close>

definition load_byte :: "env \<Rightarrow> addr \<Rightarrow> mem \<Rightarrow> byte option" where
  "load_byte e a m = (if accessible e (blocks m) a then Some (bytes m a) else None)"

definition store_byte :: "env \<Rightarrow> addr \<Rightarrow> byte \<Rightarrow> mem \<Rightarrow> mem option" where
  "store_byte e a b m =
     (if accessible e (blocks m) a then Some (m\<lparr>bytes := (bytes m)(a := b)\<rparr>) else None)"

text \<open>\<^verbatim>\<open>spr_memmove\<close> copies n bytes as if through a buffer.\<close>

definition spr_memmove :: "env \<Rightarrow> addr \<Rightarrow> addr \<Rightarrow> size \<Rightarrow> mem \<Rightarrow> mem option" where
  "spr_memmove e dst src n m =
     (if list_all (\<lambda>k. accessible e (blocks m) (dst + of_nat k) \<and>
         accessible e (blocks m) (src + of_nat k)) [0..<unat n]
      then Some (m\<lparr>bytes := (\<lambda>x. if unat (x - dst) < unat n then bytes m (src + (x - dst))
        else bytes m x)\<rparr>)
      else None)"

text \<open>The character macros; their argument is a character promoted to \<^verbatim>\<open>int\<close>.\<close>

definition spr_isdigit :: "int \<Rightarrow> bool" where
  "spr_isdigit c \<longleftrightarrow> 48 \<le> c \<and> c \<le> 57"

definition spr_isalpha :: "int \<Rightarrow> bool" where
  "spr_isalpha c \<longleftrightarrow> (65 \<le> c \<and> c \<le> 90) \<or> (97 \<le> c \<and> c \<le> 122)"

definition spr_isascii :: "int \<Rightarrow> bool" where
  "spr_isascii c \<longleftrightarrow> 0 \<le> sint (of_int c :: byte) \<and> uint (of_int c :: byte) \<le> 127"

definition spr_tolower :: "int \<Rightarrow> byte" where
  "spr_tolower c = of_int (if 65 \<le> c \<and> c \<le> 90 then c OR 32 else c)"

definition spr_toupper :: "int \<Rightarrow> byte" where
  "spr_toupper c = of_int (if 97 \<le> c \<and> c \<le> 122 then c AND NOT 32 else c)"

section \<open>Numbers\<close>

text \<open>The loop of \<^verbatim>\<open>spr_atoi\<close> and \<^verbatim>\<open>spr_atosz\<close>. The type of the value is as wide as the
  platform's pointers; the bound is \<^verbatim>\<open>SPR_INT64_MAX_VALUE\<close> on every platform because
  \<^verbatim>\<open>lib/spr_string.c\<close> includes \<^verbatim>\<open>spr_limits.h\<close> before \<^verbatim>\<open>SPR_PTR_SIZE\<close> is defined, and its
  quotient by ten is converted to the type of the value.\<close>

definition int_cutoff :: "'w::len word" where "int_cutoff = ucast (SPR_INT_T_MAX div 10)"
definition int_cutlim :: "'w::len word" where "int_cutlim = ucast (SPR_INT_T_MAX mod 10)"

function atoi_loop :: "env \<Rightarrow> addr \<Rightarrow> nat \<Rightarrow> nat \<Rightarrow> 'w::len word \<Rightarrow> mem \<Rightarrow> 'w word option" where
  "atoi_loop e str n i val m =
     (if i < n then do {
        c \<leftarrow> load_byte e (str + of_nat i) m;
        if sint c < 48 \<or> 57 < sint c then Some (- 1)
        else
          let temp = of_int (sint c - 48) in
          if int_cutoff \<le>s val \<and> (int_cutoff <s val \<or> int_cutlim <s temp) then Some (- 1)
          else atoi_loop e str n (Suc i) (val * 10 + temp) m }
      else Some val)"
  by pat_completeness auto
termination
  by (relation "measure (\<lambda>(e, str, n, i, val, m). n - i)") auto

declare atoi_loop.simps [simp del]

definition spr_atoi :: "env \<Rightarrow> addr \<Rightarrow> size \<Rightarrow> mem \<Rightarrow> 'w::len word option" where
  "spr_atoi e str n m = (if n = 0 then Some (- 1) else atoi_loop e str (unat n) 0 0 m)"

definition spr_atosz :: "env \<Rightarrow> addr \<Rightarrow> size \<Rightarrow> mem \<Rightarrow> 'w::len word option" where
  "spr_atosz e str n m = (if n = 0 then Some (- 1) else atoi_loop e str (unat n) 0 0 m)"

section \<open>Lengths\<close>

partial_function (option) strlen_loop :: "env \<Rightarrow> addr \<Rightarrow> size \<Rightarrow> mem \<Rightarrow> size option" where
  "strlen_loop e str i m =
     (case load_byte e (str + i) m of
        None \<Rightarrow> None
      | Some c \<Rightarrow> if c = 0 then Some i else strlen_loop e str (i + 1) m)"

declare strlen_loop.simps [code]

definition spr_strlen :: "env \<Rightarrow> addr \<Rightarrow> mem \<Rightarrow> size option" where
  "spr_strlen e str m = strlen_loop e str 0 m"

function strnlen_loop :: "env \<Rightarrow> addr \<Rightarrow> nat \<Rightarrow> nat \<Rightarrow> mem \<Rightarrow> size option" where
  "strnlen_loop e str n i m =
     (if i < n then do {
        c \<leftarrow> load_byte e (str + of_nat i) m;
        if c = 0 then Some (of_nat i) else strnlen_loop e str n (Suc i) m }
      else Some (of_nat n))"
  by pat_completeness auto
termination
  by (relation "measure (\<lambda>(e, str, n, i, m). n - i)") auto

declare strnlen_loop.simps [simp del]

definition spr_strnlen :: "env \<Rightarrow> addr \<Rightarrow> size \<Rightarrow> mem \<Rightarrow> size option" where
  "spr_strnlen e str n m = strnlen_loop e str (unat n) 0 m"

section \<open>Comparison\<close>

text \<open>A character as the loops of the case-insensitive comparisons see it: sign-extended to
  \<^verbatim>\<open>spr_uint_t\<close>, with the bit 0x20 set for the letters \<^verbatim>\<open>A\<close> to \<^verbatim>\<open>Z\<close>.\<close>

definition fold_case :: "byte \<Rightarrow> 64 word" where
  "fold_case c = (let c = scast c in if 65 \<le> c \<and> c \<le> (90 :: 64 word) then c OR 0x20 else c)"

partial_function (option) spr_strcasecmp :: "env \<Rightarrow> addr \<Rightarrow> addr \<Rightarrow> mem \<Rightarrow> 64 word option" where
  "spr_strcasecmp e str1 str2 m = do {
     b1 \<leftarrow> load_byte e str1 m;
     b2 \<leftarrow> load_byte e str2 m;
     let c1 = fold_case b1;
     let c2 = fold_case b2;
     if c1 = c2 then if c1 \<noteq> 0 then spr_strcasecmp e (str1 + 1) (str2 + 1) m else Some 0
     else Some (c1 - c2) }"

declare spr_strcasecmp.simps [code]

primrec strncasecmp_loop :: "env \<Rightarrow> nat \<Rightarrow> addr \<Rightarrow> addr \<Rightarrow> mem \<Rightarrow> 64 word option" where
  "strncasecmp_loop e 0 str1 str2 m = Some 0"
| "strncasecmp_loop e (Suc n) str1 str2 m = do {
     b1 \<leftarrow> load_byte e str1 m;
     b2 \<leftarrow> load_byte e str2 m;
     let c1 = fold_case b1;
     let c2 = fold_case b2;
     if c1 = c2 then if c1 \<noteq> 0 then strncasecmp_loop e n (str1 + 1) (str2 + 1) m else Some 0
     else Some (c1 - c2) }"

definition spr_strncasecmp :: "env \<Rightarrow> addr \<Rightarrow> addr \<Rightarrow> size \<Rightarrow> mem \<Rightarrow> 64 word option" where
  "spr_strncasecmp e str1 str2 n m = strncasecmp_loop e (unat n) str1 str2 m"

section \<open>Search\<close>

function strchr_loop :: "env \<Rightarrow> addr \<Rightarrow> 32 word \<Rightarrow> nat \<Rightarrow> nat \<Rightarrow> mem \<Rightarrow> addr option" where
  "strchr_loop e str c n i m =
     (if i < n then do {
        b \<leftarrow> load_byte e (str + of_nat i) m;
        if sint b = sint c then Some (str + of_nat i) else strchr_loop e str c n (Suc i) m }
      else Some NULL)"
  by pat_completeness auto
termination
  by (relation "measure (\<lambda>(e, str, c, n, i, m). n - i)") auto

declare strchr_loop.simps [simp del]

definition spr_strchr :: "env \<Rightarrow> addr \<Rightarrow> 32 word \<Rightarrow> mem \<Rightarrow> addr option" where
  "spr_strchr e str c m = do {
     len \<leftarrow> spr_strlen e str m;
     strchr_loop e str c (unat len) 0 m }"

function strrchr_loop :: "env \<Rightarrow> addr \<Rightarrow> 32 word \<Rightarrow> int \<Rightarrow> mem \<Rightarrow> addr option" where
  "strrchr_loop e str c i m =
     (if 0 \<le> i then do {
        b \<leftarrow> load_byte e (str + of_int i) m;
        if sint b = sint c then Some (str + of_int i) else strrchr_loop e str c (i - 1) m }
      else Some NULL)"
  by pat_completeness auto
termination
  by (relation "measure (\<lambda>(e, str, c, i, m). nat (i + 1))") auto

declare strrchr_loop.simps [simp del]

definition spr_strrchr :: "env \<Rightarrow> addr \<Rightarrow> 32 word \<Rightarrow> mem \<Rightarrow> addr option" where
  "spr_strrchr e str c m = do {
     len \<leftarrow> spr_strlen e str m;
     strrchr_loop e str c (sint len) m }"

section \<open>Copies in a pool\<close>

text \<open>The three copying functions over any allocator; the library's own are their instances
  for \<^verbatim>\<open>spr_palloc\<close>.\<close>

type_synonym allocator = "size \<Rightarrow> mem \<Rightarrow> (addr \<times> mem) option"

definition pstrdup_with :: "allocator \<Rightarrow> env \<Rightarrow> addr \<Rightarrow> mem \<Rightarrow> (addr \<times> mem) option" where
  "pstrdup_with alloc e str m = do {
     n \<leftarrow> spr_strlen e str m;
     let len = n + 1;
     (mem, m) \<leftarrow> alloc len m;
     if mem = NULL then Some (NULL, m)
     else do {
       m \<leftarrow> spr_memmove e mem str len m;
       Some (mem, m) } }"

definition pstrndup_with :: "allocator \<Rightarrow> env \<Rightarrow> addr \<Rightarrow> size \<Rightarrow> mem \<Rightarrow> (addr \<times> mem) option" where
  "pstrndup_with alloc e str n m = do {
     (mem, m) \<leftarrow> alloc (n + 1) m;
     if mem = NULL then Some (NULL, m)
     else do {
       m \<leftarrow> spr_memmove e mem str n m;
       m \<leftarrow> store_byte e (mem + n) 0 m;
       Some (mem, m) } }"

text \<open>The two passes over the variable arguments, which end at a null pointer; reading past
  the last argument is undefined.\<close>

primrec cat_len :: "env \<Rightarrow> addr list \<Rightarrow> size \<Rightarrow> mem \<Rightarrow> size option" where
  "cat_len e [] len m = None"
| "cat_len e (argv # args) len m =
     (if argv = NULL then Some len
      else do { n \<leftarrow> spr_strlen e argv m; cat_len e args (len + n) m })"

primrec cat_copy :: "env \<Rightarrow> addr list \<Rightarrow> addr \<Rightarrow> mem \<Rightarrow> mem option" where
  "cat_copy e [] pos m = None"
| "cat_copy e (argv # args) pos m =
     (if argv = NULL then Some m
      else do {
        len \<leftarrow> spr_strlen e argv m;
        m \<leftarrow> spr_memmove e pos argv len m;
        cat_copy e args (pos + len) m })"

definition pstrcat_with :: "allocator \<Rightarrow> env \<Rightarrow> addr list \<Rightarrow> mem \<Rightarrow> (addr \<times> mem) option" where
  "pstrcat_with alloc e args m = do {
     len \<leftarrow> cat_len e args 0 m;
     (str, m) \<leftarrow> alloc (len + 1) m;
     if str = NULL then Some (NULL, m)
     else do {
       m \<leftarrow> store_byte e (str + len) 0 m;
       m \<leftarrow> cat_copy e args str m;
       Some (str, m) } }"

definition spr_pstrdup :: "env \<Rightarrow> addr \<Rightarrow> addr \<Rightarrow> mem \<Rightarrow> (addr \<times> mem) option" where
  "spr_pstrdup e pool str m = pstrdup_with (spr_palloc e pool) e str m"

definition spr_pstrndup :: "env \<Rightarrow> addr \<Rightarrow> addr \<Rightarrow> size \<Rightarrow> mem \<Rightarrow> (addr \<times> mem) option" where
  "spr_pstrndup e pool str n m = pstrndup_with (spr_palloc e pool) e str n m"

definition spr_pstrcat1 :: "env \<Rightarrow> addr \<Rightarrow> addr list \<Rightarrow> mem \<Rightarrow> (addr \<times> mem) option" where
  "spr_pstrcat1 e pool args m = pstrcat_with (spr_palloc e pool) e args m"

end
