(* ===== verification/Spr_String_Lemmas.thy ===== *)
theory Spr_String_Lemmas
  imports Spr_String Spr_Pool_Props
begin

text \<open>
  Strings in memory and what the string functions compute on them. The copying functions are
  clients of the region interface.
\<close>

section \<open>Strings in memory\<close>

primrec bytes_at :: "env \<Rightarrow> mem \<Rightarrow> addr \<Rightarrow> byte list \<Rightarrow> bool" where
  "bytes_at e m a [] \<longleftrightarrow> True"
| "bytes_at e m a (b # bs) \<longleftrightarrow> load_byte e a m = Some b \<and> bytes_at e m (a + 1) bs"

definition cstring :: "env \<Rightarrow> mem \<Rightarrow> addr \<Rightarrow> byte list \<Rightarrow> bool" where
  "cstring e m a s \<longleftrightarrow> 0 \<notin> set s \<and> bytes_at e m a (s @ [0]) \<and> length s + 1 < 2 ^ 63"

lemma bytes_at_append:
  "bytes_at e m a (xs @ ys) \<longleftrightarrow> bytes_at e m a xs \<and> bytes_at e m (a + of_nat (length xs)) ys"
  by (induction xs arbitrary: a) (simp_all add: algebra_simps)

lemma bytes_at_nth:
  "bytes_at e m a bs \<Longrightarrow> i < length bs \<Longrightarrow> load_byte e (a + of_nat i) m = Some (bs ! i)"
proof (induction bs arbitrary: a i)
  case (Cons b bs)
  show ?case
  proof (cases i)
    case (Suc j)
    then have "load_byte e (a + 1 + of_nat j) m = Some (bs ! j)"
      using Cons.prems by (intro Cons.IH) simp_all
    then show ?thesis using Suc by (simp add: add.assoc)
  qed (use Cons.prems in simp)
qed simp

lemma bytes_at_iff_nth:
  "bytes_at e m a bs \<longleftrightarrow> (\<forall>i<length bs. load_byte e (a + of_nat i) m = Some (bs ! i))"
proof (induction bs arbitrary: a)
  case (Cons b bs)
  show ?case unfolding bytes_at.simps Cons.IH
    by (auto simp: All_less_Suc2 add.assoc)
qed simp

lemma load_byte_cong:
  "blocks m' = blocks m \<Longrightarrow> bytes m' a = bytes m a \<Longrightarrow> load_byte e a m' = load_byte e a m"
  by (simp add: load_byte_def)

section \<open>Lengths\<close>

lemma strlen_loop_eq:
  assumes "bytes_at e m (str + i) (s @ [0])" "0 \<notin> set s"
  shows "strlen_loop e str i m = Some (i + of_nat (length s))"
  using assms
proof (induction s arbitrary: i)
  case Nil
  then show ?case by (simp add: strlen_loop.simps)
next
  case (Cons b s)
  then show ?case by (subst strlen_loop.simps) (simp add: algebra_simps)
qed

lemma strlen_eq: "cstring e m str s \<Longrightarrow> spr_strlen e str m = Some (of_nat (length s))"
  using strlen_loop_eq [of e m str 0 s] by (simp add: spr_strlen_def cstring_def)

lemma strnlen_loop_eq:
  assumes "bytes_at e m str bs" "n = length bs" "i \<le> n"
  shows "strnlen_loop e str n i m = Some (of_nat (i + length (takeWhile (\<lambda>b. b \<noteq> 0) (drop i bs))))"
  using assms(3)
proof (induction i rule: inc_induct)
  case base
  then show ?case using assms by (simp add: strnlen_loop.simps)
next
  case (step i)
  have "drop i bs = bs ! i # drop (Suc i) bs"
    using step.hyps assms by (simp add: Cons_nth_drop_Suc)
  moreover have "load_byte e (str + of_nat i) m = Some (bs ! i)"
    using bytes_at_nth [OF assms(1)] step.hyps assms(2) by simp
  ultimately show ?case using step by (subst strnlen_loop.simps) simp
qed

section \<open>Numbers\<close>

definition digit :: "byte \<Rightarrow> bool" where
  "digit b \<longleftrightarrow> 48 \<le> unat b \<and> unat b \<le> 57"

definition dec_from :: "nat \<Rightarrow> byte list \<Rightarrow> nat" where
  "dec_from d bs = foldl (\<lambda>v b. 10 * v + (unat b - 48)) d bs"

definition int_max :: nat where "int_max = 2 ^ 63 - 1"

lemma dec_from_ge: "d \<le> dec_from d bs"
proof (induction bs arbitrary: d)
  case (Cons b bs)
  have "d \<le> 10 * d + (unat b - 48)" by simp
  also have "\<dots> \<le> dec_from (10 * d + (unat b - 48)) bs" by (rule Cons.IH)
  finally show ?case by (simp add: dec_from_def)
qed (simp add: dec_from_def)

lemma dec_from_Cons: "dec_from d (b # bs) = dec_from (10 * d + (unat b - 48)) bs"
  by (simp add: dec_from_def)

lemma byte_less: "unat b < 256" for b :: byte
  using unsigned_less [of b, where ?'a = nat] by simp

lemma sint_byte: "sint b = (if unat b < 128 then int (unat b) else int (unat b) - 256)" for b :: byte
proof -
  let ?k = "if unat b < 128 then int (unat b) else int (unat b) - 256"
  have k: "- 128 \<le> ?k" "?k < 128" using byte_less [of b] by (auto simp del: of_nat_unat)
  have "of_int ?k = b" by simp
  then have "sint (of_int ?k :: byte) = sint b" by (simp only:)
  then have "sint b = signed_take_bit 7 ?k" unfolding sint_sbintrunc' by simp
  also have "\<dots> = ?k" using k by (intro signed_take_bit_int_eq_self) simp_all
  finally show ?thesis .
qed

lemma not_digit_sint: "(sint b < 48 \<or> 57 < sint b) \<longleftrightarrow> \<not> digit b"
  using byte_less [of b] by (auto simp: sint_byte digit_def simp del: of_nat_unat)

lemma sint_small:
  assumes "d < 2 ^ 63"
  shows "sint (of_nat d :: 64 word) = int d"
proof -
  have "sint (of_int (int d) :: 64 word) = int d"
    unfolding sint_sbintrunc' using assms by (intro signed_take_bit_int_eq_self) simp_all
  then show ?thesis by simp
qed

lemma cut_values: "sint (int_cutoff :: 64 word) = 922337203685477580" "sint (int_cutlim :: 64 word) = 7"
  by (simp_all add: int_cutoff_def int_cutlim_def SPR_INT_T_MAX_def SPR_INT64_MAX_VALUE_def)

lemma cut_test:
  assumes "d \<le> int_max" "t \<le> 9"
  shows "((int_cutoff :: 64 word) \<le>s of_nat d \<and>
      (int_cutoff <s (of_nat d :: 64 word) \<or> int_cutlim <s (of_nat t :: 64 word)))
    \<longleftrightarrow> int_max < 10 * d + t"
proof -
  have "sint (of_nat d :: 64 word) = int d" "sint (of_nat t :: 64 word) = int t"
    using assms by (auto intro!: sint_small simp: int_max_def)
  then show ?thesis using assms
    by (auto simp: word_sle_eq word_sless_alt cut_values int_max_def)
qed

text \<open>The value of a run of decimal digits that fits, or -1.\<close>

definition atoi_spec :: "nat \<Rightarrow> byte list \<Rightarrow> 64 word" where
  "atoi_spec d bs = (if list_all digit bs \<and> dec_from d bs \<le> int_max
     then of_nat (dec_from d bs) else - 1)"

lemma atoi_loop_eq:
  assumes "bytes_at e m str bs" "i \<le> length bs" "d \<le> int_max"
  shows "atoi_loop e str (length bs) i (of_nat d) m = Some (atoi_spec d (drop i bs))"
  using assms(2,3)
proof (induction i arbitrary: d rule: inc_induct)
  case base
  then show ?case by (simp add: atoi_loop.simps atoi_spec_def dec_from_def)
next
  case (step i)
  let ?b = "bs ! i"
  have dr: "drop i bs = ?b # drop (Suc i) bs" using step.hyps by (simp add: Cons_nth_drop_Suc)
  have ld: "load_byte e (str + of_nat i) m = Some ?b"
    using bytes_at_nth [OF assms(1)] step.hyps by simp
  show ?case
  proof (cases "digit ?b")
    case False
    then show ?thesis using step.hyps ld not_digit_sint [of ?b]
      by (subst atoi_loop.simps) (simp add: dr atoi_spec_def)
  next
    case True
    let ?t = "unat ?b - 48"
    have t: "?t \<le> 9" "sint ?b - 48 = int ?t" using True by (auto simp: digit_def sint_byte simp del: of_nat_unat)
    have unfold: "atoi_loop e str (length bs) i (of_nat d :: 64 word) m =
        (if int_max < 10 * d + ?t then Some (- 1)
         else atoi_loop e str (length bs) (Suc i) (of_nat (10 * d + ?t)) m)"
      using step.hyps ld True cut_test [OF step.prems t(1)] not_digit_sint [of ?b]
      by (subst atoi_loop.simps) (auto simp: t(2) mult.commute Let_def)
    show ?thesis
    proof (cases "int_max < 10 * d + ?t")
      case True
      then have "\<not> dec_from d (drop i bs) \<le> int_max"
        using dec_from_ge [of "10 * d + ?t" "drop (Suc i) bs"] by (simp add: dr dec_from_Cons)
      then show ?thesis using True unfold by (simp add: atoi_spec_def)
    next
      case False
      then show ?thesis using unfold step.IH [of "10 * d + ?t"] \<open>digit ?b\<close>
        by (simp add: dr atoi_spec_def dec_from_Cons)
    qed
  qed
qed
section \<open>Case-insensitive comparison\<close>

definition lower :: "byte \<Rightarrow> byte" where
  "lower b = (if 65 \<le> unat b \<and> unat b \<le> 90 then b OR 32 else b)"

lemma unat_scast_byte:
  "unat (scast b :: 64 word) = (if unat b < 128 then unat b else unat b + (2 ^ 64 - 256))" for b :: byte
proof -
  have "(scast b :: 64 word) = of_int (sint b)" by simp
  also have "\<dots> = of_nat (if unat b < 128 then unat b else unat b + (2 ^ 64 - 256))"
    by (auto simp: sint_byte simp del: of_nat_unat of_int_sint)
  finally show ?thesis
    using byte_less [of b] by (simp only:) (subst unat_of_nat_exact, auto)
qed

lemma scast_byte_inj: "(scast a :: 64 word) = scast b \<longleftrightarrow> a = b" for a b :: byte
proof
  assume "(scast a :: 64 word) = scast b"
  then have "unat (scast a :: 64 word) = unat (scast b :: 64 word)" by simp
  then have "unat a = unat b"
    unfolding unat_scast_byte using byte_less [of a] byte_less [of b] by (auto split: if_splits)
  then show "a = b" by (rule unsigned_word_eqI)
qed simp

lemma fold_case_lower: "fold_case b = scast (lower b)"
proof -
  have "65 \<le> (scast b :: 64 word) \<and> (scast b :: 64 word) \<le> 90 \<longleftrightarrow> 65 \<le> unat b \<and> unat b \<le> 90"
    unfolding word_le_nat_alt unat_scast_byte by auto
  moreover have "(scast b :: 64 word) OR 0x20 = scast (b OR 32)"
  proof (rule bit_word_eqI)
    fix n assume "n < LENGTH(64)"
    have "bit (0x20 :: 64 word) k \<longleftrightarrow> k = 5" "bit (32 :: byte) k \<longleftrightarrow> k = 5" for k
      using bit_push_bit_iff [of 5 "1 :: 64 word" k] bit_push_bit_iff [of 5 "1 :: byte" k]
      by (auto simp: bit_1_iff)
    note k = this
    show "bit ((scast b :: 64 word) OR 0x20) n = bit (scast (b OR 32) :: 64 word) n"
      using \<open>n < LENGTH(64)\<close> unfolding bit_or_iff bit_signed_iff k by (auto simp: min_def)
  qed
  ultimately show ?thesis by (simp add: fold_case_def lower_def Let_def)
qed

lemma fold_case_eq: "fold_case a = fold_case b \<longleftrightarrow> lower a = lower b"
  by (simp add: fold_case_lower scast_byte_inj)

lemma lower_0: "lower b = 0 \<longleftrightarrow> b = 0"
proof -
  have "unat (b OR 32) \<noteq> 0" by (simp add: unat_eq_0 or_eq_0_iff)
  then show ?thesis by (auto simp: lower_def)
qed

lemma fold_case_0: "fold_case b = 0 \<longleftrightarrow> b = 0"
proof -
  have "fold_case b = 0 \<longleftrightarrow> fold_case b = fold_case 0" by (simp add: fold_case_def Let_def)
  then show ?thesis using lower_0 [of b] lower_0 [of 0] by (auto simp: fold_case_eq)
qed

text \<open>The result of the comparison: the difference of the first folded characters that differ.\<close>

fun casecmp_spec :: "byte list \<Rightarrow> byte list \<Rightarrow> 64 word" where
  "casecmp_spec (a # as) (b # bs) = (if fold_case a = fold_case b then casecmp_spec as bs
     else fold_case a - fold_case b)"
| "casecmp_spec _ _ = 0"

lemma fold_case_zero_iff: "fold_case 0 = fold_case b \<longleftrightarrow> b = 0" "fold_case b = fold_case 0 \<longleftrightarrow> b = 0"
  using fold_case_0 [of b] fold_case_0 [of 0] by metis+

lemma lower_zero_iff: "lower 0 = lower b \<longleftrightarrow> b = 0" "lower b = lower 0 \<longleftrightarrow> b = 0"
  using fold_case_zero_iff [of b] by (simp_all add: fold_case_eq)

lemma casecmp_spec_take_0:
  assumes "0 \<notin> set s1" "0 \<notin> set s2"
  shows "casecmp_spec (take n (s1 @ [0])) (take n (s2 @ [0])) = 0
    \<longleftrightarrow> take n (map lower s1) = take n (map lower s2)"
  using assms
proof (induction s1 arbitrary: s2 n)
  case Nil
  then show ?case by (cases s2; cases n) (auto simp: fold_case_eq lower_zero_iff)
next
  case (Cons a s1)
  then show ?case by (cases s2; cases n) (auto simp: fold_case_eq lower_zero_iff)
qed

lemma casecmp_spec_0:
  assumes "0 \<notin> set s1" "0 \<notin> set s2"
  shows "casecmp_spec (s1 @ [0]) (s2 @ [0]) = 0 \<longleftrightarrow> map lower s1 = map lower s2"
  using casecmp_spec_take_0 [OF assms, of "length s1 + length s2 + 1"] by simp

lemma strcasecmp_step:
  assumes "load_byte e str1 m = Some a" "load_byte e str2 m = Some b"
  shows "spr_strcasecmp e str1 str2 m = (if fold_case a = fold_case b
    then if a \<noteq> 0 then spr_strcasecmp e (str1 + 1) (str2 + 1) m else Some 0
    else Some (fold_case a - fold_case b))"
  by (subst spr_strcasecmp.simps) (auto simp: assms Let_def fold_case_0 fold_case_zero_iff)

lemma strcasecmp_eq:
  assumes "bytes_at e m str1 (s1 @ [0])" "bytes_at e m str2 (s2 @ [0])" "0 \<notin> set s1" "0 \<notin> set s2"
  shows "spr_strcasecmp e str1 str2 m = Some (casecmp_spec (s1 @ [0]) (s2 @ [0]))"
  using assms
proof (induction s1 arbitrary: str1 str2 s2)
  case Nil
  then show ?case by (cases s2) (auto simp: strcasecmp_step fold_case_zero_iff)
next
  case (Cons a s1)
  then show ?case by (cases s2) (auto simp: strcasecmp_step fold_case_zero_iff)
qed

lemma strncasecmp_eq:
  assumes "bytes_at e m str1 (s1 @ [0])" "bytes_at e m str2 (s2 @ [0])" "0 \<notin> set s1" "0 \<notin> set s2"
  shows "strncasecmp_loop e n str1 str2 m = Some (casecmp_spec (take n (s1 @ [0])) (take n (s2 @ [0])))"
  using assms
proof (induction n arbitrary: str1 str2 s1 s2)
  case (Suc n)
  show ?case
  proof (cases s1)
    case Nil
    then show ?thesis using Suc.prems by (cases s2) (auto simp: fold_case_0 fold_case_zero_iff Let_def)
  next
    case (Cons a t1)
    then show ?thesis using Suc
      by (cases s2) (auto simp: fold_case_0 fold_case_zero_iff Let_def)
  qed
qed simp
section \<open>Search\<close>

definition is_char :: "32 word \<Rightarrow> byte \<Rightarrow> bool" where
  "is_char c b \<longleftrightarrow> sint b = sint c"

lemma strchr_loop_eq:
  assumes "bytes_at e m str bs" "i \<le> length bs"
  shows "strchr_loop e str c (length bs) i m =
    Some (case find (\<lambda>j. is_char c (bs ! j)) [i..<length bs] of None \<Rightarrow> NULL | Some j \<Rightarrow> str + of_nat j)"
  using assms(2)
proof (induction i rule: inc_induct)
  case base
  then show ?case by (simp add: strchr_loop.simps)
next
  case (step i)
  have "[i..<length bs] = i # [Suc i..<length bs]" using step.hyps by (simp add: upt_rec)
  then show ?case using step bytes_at_nth [OF assms(1), of i]
    by (subst strchr_loop.simps) (simp add: is_char_def)
qed

lemma strrchr_loop_eq:
  assumes "bytes_at e m str bs" "k \<le> length bs"
  shows "strrchr_loop e str c (int k - 1) m =
    Some (case find (\<lambda>j. is_char c (bs ! j)) (rev [0..<k]) of None \<Rightarrow> NULL | Some j \<Rightarrow> str + of_nat j)"
  using assms(2)
proof (induction k)
  case 0
  then show ?case by (simp add: strrchr_loop.simps)
next
  case (Suc k)
  then show ?case using bytes_at_nth [OF assms(1), of k]
    by (subst strrchr_loop.simps) (simp add: is_char_def)
qed

lemma cstring_bytes: "cstring e m str s \<Longrightarrow> bytes_at e m str s"
  by (simp add: cstring_def bytes_at_append)

lemma strchr_eq:
  assumes "cstring e m str s"
  shows "spr_strchr e str c m = Some (case find (\<lambda>j. is_char c (s ! j)) [0..<length s] of
    None \<Rightarrow> NULL | Some j \<Rightarrow> str + of_nat j)"
proof -
  have "unat (of_nat (length s) :: size) = length s"
    using assms by (intro unat_of_nat_exact) (simp add: cstring_def)
  then show ?thesis
    using strlen_eq [OF assms] strchr_loop_eq [OF cstring_bytes [OF assms], of 0 c]
    by (simp add: spr_strchr_def)
qed

lemma strrchr_eq:
  assumes "cstring e m str s"
  shows "spr_strrchr e str c m = Some (case find (\<lambda>j. is_char c ((s @ [0]) ! j)) (rev [0..<Suc (length s)]) of
    None \<Rightarrow> NULL | Some j \<Rightarrow> str + of_nat j)"
proof -
  have "sint (of_nat (length s) :: size) = int (length s)"
    using assms by (intro sint_small) (simp add: cstring_def)
  moreover have "bytes_at e m str (s @ [0])" using assms by (simp add: cstring_def)
  note strrchr_loop_eq [OF this, of "Suc (length s)" c]
  ultimately show ?thesis
    using strlen_eq [OF assms] by (simp add: spr_strrchr_def)
qed

section \<open>Copies\<close>

lemma region_offset:
  assumes "unat a + unat n \<le> 2 ^ 64"
  shows "unat x \<in> region a n \<longleftrightarrow> unat (x - a) < unat n"
proof (cases "unat a \<le> unat x")
  case True
  then have "unat (x - a) = unat x - unat a" by (rule unat_diff_exact)
  then show ?thesis using True by (auto simp: region_def)
next
  case False
  have "x - a = of_nat (unat x + 2 ^ 64 - unat a)"
  proof -
    have "of_nat (unat x + 2 ^ 64 - unat a) = of_nat (unat x + 2 ^ 64) - (of_nat (unat a) :: 64 word)"
      using unsigned_less [of a, where ?'a = nat] by (intro of_nat_diff) simp
    then show ?thesis by simp
  qed
  then have "unat (x - a) = unat x + 2 ^ 64 - unat a"
    using False by (simp only:) (subst unat_of_nat_exact, auto)
  then show ?thesis using False assms by (auto simp: region_def)
qed

text \<open>What a copy of n bytes to a writable place leaves behind.\<close>

lemma memmove_ok:
  assumes src: "bytes_at e m src bs" "length bs = unat n"
    and dst: "\<forall>k<unat n. accessible e (blocks m) (dst + of_nat k)"
  shows "\<exists>m'. spr_memmove e dst src n m = Some m' \<and> bytes_at e m' dst bs \<and>
    (\<exists>b. m' = m\<lparr>bytes := b\<rparr> \<and> (\<forall>x. \<not> unat (x - dst) < unat n \<longrightarrow> b x = bytes m x))"
proof -
  let ?b = "\<lambda>x. if unat (x - dst) < unat n then bytes m (src + (x - dst)) else bytes m x"
  have rd: "accessible e (blocks m) (src + of_nat k) \<and> bytes m (src + of_nat k) = bs ! k"
    if "k < unat n" for k
    using bytes_at_nth [OF src(1), of k] that src(2) by (auto simp: load_byte_def split: if_splits)
  have "spr_memmove e dst src n m = Some (m\<lparr>bytes := ?b\<rparr>)"
    using rd dst by (auto simp: spr_memmove_def list_all_iff)
  moreover have "bytes_at e (m\<lparr>bytes := ?b\<rparr>) dst bs"
    unfolding bytes_at_iff_nth
  proof (intro allI impI)
    fix i assume i: "i < length bs"
    have "i < 2 ^ 64" using i src(2) unsigned_less [of n, where ?'a = nat] by simp
    then have "unat (of_nat i :: 64 word) = i" by (intro unat_of_nat_exact) simp
    then show "load_byte e (dst + of_nat i) (m\<lparr>bytes := ?b\<rparr>) = Some (bs ! i)"
      using i src(2) dst rd by (simp add: load_byte_def)
  qed
  ultimately show ?thesis by (intro exI [of _ "m\<lparr>bytes := ?b\<rparr>"]) auto
qed
section \<open>Copies from a region\<close>

lemma bytes_at_mono:
  assumes "bytes_at e m a bs" "set (blocks m) \<subseteq> set (blocks m')" "bytes m' = bytes m"
  shows "bytes_at e m' a bs"
  using assms(1)
proof (induction bs arbitrary: a)
  case (Cons b bs)
  then have "load_byte e a m' = Some b"
    using assms(2,3) by (auto simp: load_byte_def split: if_splits intro: accessible_mono)
  then show ?case using Cons by simp
qed simp

lemma cstring_mono:
  "cstring e m a s \<Longrightarrow> set (blocks m) \<subseteq> set (blocks m') \<Longrightarrow> bytes m' = bytes m \<Longrightarrow> cstring e m' a s"
  unfolding cstring_def using bytes_at_mono by blast

text \<open>What a copying function promises: null with an error number, or the string at a fresh
  address; no byte outside the new block is written.\<close>

definition fresh_copy ::
  "env \<Rightarrow> (mem \<Rightarrow> nat set \<Rightarrow> bool) \<Rightarrow> mem \<Rightarrow> nat set \<Rightarrow> byte list \<Rightarrow> size \<Rightarrow> addr \<Rightarrow> mem \<Rightarrow> bool" where
  "fresh_copy e I m U s n a m' \<longleftrightarrow>
     (\<forall>x. unat x \<notin> region a n \<or> a = NULL \<longrightarrow> bytes m' x = bytes m x) \<and>
     (a = NULL \<and> errno m' \<noteq> 0 \<and> I m' U \<or>
      a \<noteq> NULL \<and> bytes_at e m' a (s @ [0]) \<and> region a n \<inter> U = {} \<and>
        (\<exists>U'. I m' U' \<and> U \<union> region a n \<subseteq> U'))"

context region_allocator
begin

lemma region_access:
  assumes "inv m U" "region a n \<subseteq> U" "n \<noteq> 0"
  shows "k < unat n \<Longrightarrow> unat (a + of_nat k) = unat a + k"
    "k < unat n \<Longrightarrow> accessible e (blocks m) (a + of_nat k)"
    "unat a + unat n \<le> 2 ^ 64"
proof -
  have n: "0 < unat n" using assms(3) by (simp add: unat_gt_0)
  then have "unat a + (unat n - 1) \<in> U" using assms(2) by (auto simp: region_def)
  then have "unat a + (unat n - 1) < 2 ^ 64" by (rule inv_bounded [OF assms(1)])
  then show b: "unat a + unat n \<le> 2 ^ 64" using n by simp
  assume k: "k < unat n"
  have "unat (of_nat k :: size) = k"
    using k unsigned_less [of n, where ?'a = nat] by (intro unat_of_nat_exact) simp
  then show u: "unat (a + of_nat k) = unat a + k"
    using b k by (subst unat_add_exact) simp_all
  then have "unat (a + of_nat k) \<in> U" using assms(2) k by (auto simp: region_def)
  then show "accessible e (blocks m) (a + of_nat k)" by (rule inv_accessible [OF assms(1)])
qed

text \<open>Copying bytes into a block of the region.\<close>

lemma memmove_region:
  assumes inv: "inv m U" and a: "region a n \<subseteq> U" "n \<noteq> 0"
    and src: "bytes_at e m src bs" "length bs = unat k"
    and off: "unat j + unat k \<le> unat n"
  shows "\<exists>m'. spr_memmove e (a + j) src k m = Some m' \<and> bytes_at e m' (a + j) bs \<and>
    inv m' U \<and> blocks m' = blocks m \<and> errno m' = errno m \<and>
    (\<forall>x. \<not> (unat j \<le> unat (x - a) \<and> unat (x - a) < unat j + unat k) \<longrightarrow> bytes m' x = bytes m x)"
proof -
  have "accessible e (blocks m) (a + j + of_nat i)" if "i < unat k" for i
  proof -
    have "accessible e (blocks m) (a + of_nat (unat j + i))"
      using that off by (intro region_access(2) [OF inv a]) simp
    then show ?thesis by (simp add: add.assoc)
  qed
  then obtain m' b where m': "spr_memmove e (a + j) src k m = Some m'" "bytes_at e m' (a + j) bs"
    "m' = m\<lparr>bytes := b\<rparr>" "\<forall>x. \<not> unat (x - (a + j)) < unat k \<longrightarrow> b x = bytes m x"
    using memmove_ok [OF src, of "a + j"] by auto
  have "unat j \<le> unat (x - a) \<and> unat (x - a) < unat j + unat k"
    if "unat (x - (a + j)) < unat k" for x
  proof -
    have "x - a = j + (x - (a + j))" by simp
    moreover have "unat j + unat (x - (a + j)) < 2 ^ 64"
      using that off unsigned_less [of n, where ?'a = nat] by simp
    ultimately have "unat (x - a) = unat j + unat (x - (a + j))"
      by (simp only:) (subst unat_add_exact, simp_all)
    then show ?thesis using that by simp
  qed
  then have "\<forall>x. \<not> (unat j \<le> unat (x - a) \<and> unat (x - a) < unat j + unat k) \<longrightarrow> b x = bytes m x"
    using m'(4) by blast
  then show ?thesis using m' inv inv_bytes by (intro exI [of _ m']) simp
qed

lemma pstrdup_copies:
  assumes inv: "inv m U" and s: "cstring e m str s" and n: "request (of_nat (length s) + 1)"
  shows "\<exists>a m'. pstrdup_with alloc e str m = Some (a, m') \<and>
    fresh_copy e inv m U s (of_nat (length s) + 1) a m'"
proof -
  let ?n = "of_nat (length s) + 1 :: size"
  have "unat (of_nat (length s + 1) :: size) = length s + 1"
    using s by (intro unat_of_nat_exact) (simp add: cstring_def)
  then have len: "unat ?n = length s + 1" by (simp only: of_nat_add of_nat_1)
  then have nz: "?n \<noteq> 0" by (metis add_is_0 one_neq_zero unat_0)
  note sl = strlen_eq [OF s]
  from inv n show ?thesis
  proof (cases rule: alloc_cases)
    case (fail m')
    then show ?thesis using sl by (simp add: pstrdup_with_def fresh_copy_def same_client_memory_def)
  next
    case (ok a m' U')
    have by': "bytes m' = bytes m" using ok(2) by (simp add: same_client_memory_def)
    then have "cstring e m' str s" using cstring_mono [OF s ok(8)] by simp
    then have src: "bytes_at e m' str (s @ [0])" by (simp add: cstring_def)
    have sub: "region a ?n \<subseteq> U'" using ok(7) by simp
    obtain m2 where m2: "spr_memmove e (a + 0) str ?n m' = Some m2" "bytes_at e m2 (a + 0) (s @ [0])"
      "inv m2 U'" "\<forall>x. \<not> (unat (0::size) \<le> unat (x - a) \<and> unat (x - a) < unat (0::size) + unat ?n)
        \<longrightarrow> bytes m2 x = bytes m' x"
      using memmove_region [OF ok(6) sub nz src, of ?n 0] len by auto
    have "\<forall>x. unat x \<notin> region a ?n \<longrightarrow> bytes m2 x = bytes m x"
      using m2(4) by' region_offset [OF region_access(3) [OF ok(6) sub nz]] by auto
    then show ?thesis
      using sl ok(1,3,5,7) m2(1-3) by (auto simp: pstrdup_with_def fresh_copy_def)
  qed
qed

lemma pstrndup_copies:
  assumes inv: "inv m U" and s: "bytes_at e m str s" "length s = unat k" "unat k + 1 < 2 ^ 64"
    and n: "request (k + 1)"
  shows "\<exists>a m'. pstrndup_with alloc e str k m = Some (a, m') \<and>
    fresh_copy e inv m U s (k + 1) a m'"
proof -
  let ?n = "k + 1 :: size"
  have len: "unat ?n = unat k + 1" using s(3) by (subst unat_add_exact) simp_all
  then have nz: "?n \<noteq> 0" by (metis add_is_0 one_neq_zero unat_0)
  from inv n show ?thesis
  proof (cases rule: alloc_cases)
    case (fail m')
    then show ?thesis by (simp add: pstrndup_with_def fresh_copy_def same_client_memory_def)
  next
    case (ok a m' U')
    have by': "bytes m' = bytes m" using ok(2) by (simp add: same_client_memory_def)
    then have src: "bytes_at e m' str s" using bytes_at_mono [OF s(1) ok(8)] by simp
    have sub: "region a ?n \<subseteq> U'" using ok(7) by simp
    note acc = region_access [OF ok(6) sub nz]
    obtain m2 where m2: "spr_memmove e (a + 0) str k m' = Some m2" "bytes_at e m2 (a + 0) s"
      "inv m2 U'" "blocks m2 = blocks m'"
      "\<forall>x. \<not> (unat (0::size) \<le> unat (x - a) \<and> unat (x - a) < unat (0::size) + unat k)
        \<longrightarrow> bytes m2 x = bytes m' x"
      using memmove_region [OF ok(6) sub nz src s(2), of 0] len by auto
    have k: "accessible e (blocks m2) (a + k)" "unat (a + k) = unat a + unat k"
      using acc(1,2) [of "unat k"] len m2(4) by simp_all
    let ?m3 = "m2\<lparr>bytes := (bytes m2)(a + k := 0)\<rparr>"
    have "bytes_at e ?m3 a (s @ [0])"
      unfolding bytes_at_iff_nth
    proof (intro allI impI)
      fix i assume i: "i < length (s @ [0])"
      then have u: "unat (a + of_nat i) = unat a + i" using acc(1) [of i] len s(2) by simp
      show "load_byte e (a + of_nat i) ?m3 = Some ((s @ [0]) ! i)"
      proof (cases "i = length s")
        case True
        then have "of_nat i = k" using s(2) by simp
        then show ?thesis using True k(1) by (simp add: load_byte_def nth_append)
      next
        case False
        have "a + of_nat i \<noteq> a + k"
        proof
          assume "a + of_nat i = a + k"
          then have "unat (a + of_nat i) = unat (a + k)" by (simp only:)
          then show False using u k(2) s(2) False by linarith
        qed
        moreover have "load_byte e (a + of_nat i) m2 = Some (s ! i)"
          using bytes_at_nth [OF m2(2), of i] i False by simp
        ultimately show ?thesis using i False by (simp add: load_byte_def nth_append split: if_splits)
      qed
    qed
    moreover have "bytes ?m3 x = bytes m x" if "unat x \<notin> region a ?n" for x
    proof -
      have "\<not> unat (x - a) < unat k + 1" using that region_offset [OF acc(3)] len by auto
      moreover from this have "x \<noteq> a + k" by auto
      ultimately show ?thesis using m2(5) by' by simp
    qed
    moreover have "inv ?m3 U'" using m2(3) inv_bytes by simp
    ultimately show ?thesis
      using ok(1,3,5,7) m2(1) k(1) by (auto simp: pstrndup_with_def fresh_copy_def store_byte_def)
  qed
qed

end

text \<open>Concatenation: the arguments lie in memory the region has handed out.\<close>

lemma bytes_at_unchanged:
  assumes "bytes_at e m p bs" "blocks m' = blocks m"
    and "\<forall>i<length bs. bytes m' (p + of_nat i) = bytes m (p + of_nat i)"
  shows "bytes_at e m' p bs"
  using assms by (auto simp: bytes_at_iff_nth load_byte_def)

lemma cstring_nonnull: "cstring e m a s \<Longrightarrow> a \<noteq> NULL"
  by (cases s) (auto simp: cstring_def load_byte_def accessible_def split: if_splits)

lemma cat_len_eq:
  assumes "list_all2 (cstring e m) args ss"
  shows "cat_len e (args @ [NULL]) l m = Some (l + of_nat (length (concat ss)))"
  using assms
proof (induction arbitrary: l rule: list_all2_induct)
  case (Cons a as s ss)
  then show ?case using cstring_nonnull [OF Cons(1)]
    by (simp add: strlen_eq add.assoc)
qed simp

definition all_in :: "addr list \<Rightarrow> byte list list \<Rightarrow> nat set \<Rightarrow> bool" where
  "all_in args ss U \<longleftrightarrow> list_all2 (\<lambda>a s. {unat a..<unat a + length s + 1} \<subseteq> U) args ss"

context region_allocator
begin

lemma in_U_offset:
  fixes a :: addr
  assumes "inv m U" "{unat a..<unat a + length s + 1} \<subseteq> U" "i \<le> length s"
  shows "unat (a + of_nat i) = unat a + i" "unat (a + of_nat i) \<in> U"
proof -
  have "unat a + i \<in> U" using assms(2,3) by auto
  moreover from this have "unat a + i < 2 ^ 64" by (rule inv_bounded [OF assms(1)])
  moreover from this have "unat (of_nat i :: addr) = i" by (intro unat_of_nat_exact) simp
  ultimately have u: "unat (a + of_nat i) = unat a + i" by (subst unat_add_exact) simp_all
  then show "unat (a + of_nat i) = unat a + i" .
  show "unat (a + of_nat i) \<in> U" using u \<open>unat a + i \<in> U\<close> by simp
qed

lemma cstring_kept:
  assumes "inv m0 U" "{unat p..<unat p + length s + 1} \<subseteq> U" "cstring e m p s"
    and "blocks m' = blocks m" "\<forall>x. unat x \<in> U \<longrightarrow> bytes m' x = bytes m x"
  shows "cstring e m' p s"
  using assms(3) bytes_at_unchanged [of e m p "s @ [0]" m'] assms(4,5) in_U_offset(2) [OF assms(1,2)]
  by (auto simp: cstring_def less_Suc_eq_le)

lemma cat_copy_ok:
  assumes "inv m U'" "inv m0 U" "region a n \<subseteq> U'" "n \<noteq> 0" "region a n \<inter> U = {}"
    and "list_all2 (cstring e m) args ss" "all_in args ss U"
    and "off + length (concat ss) < unat n"
  shows "\<exists>m'. cat_copy e (args @ [NULL]) (a + of_nat off) m = Some m' \<and>
    bytes_at e m' (a + of_nat off) (concat ss) \<and> inv m' U' \<and> blocks m' = blocks m \<and>
    errno m' = errno m \<and>
    (\<forall>x. \<not> (off \<le> unat (x - a) \<and> unat (x - a) < off + length (concat ss)) \<longrightarrow> bytes m' x = bytes m x)"
  using assms
proof (induction args arbitrary: ss off m)
  case Nil
  then show ?case by auto
next
  case (Cons p args)
  obtain s ts where ss: "ss = s # ts" using Cons.prems(6) by (cases ss) auto
  have s: "cstring e m p s" "{unat p..<unat p + length s + 1} \<subseteq> U"
    and ts: "list_all2 (cstring e m) args ts" "all_in args ts U"
    using Cons.prems(6,7) ss by (simp_all add: all_in_def)
  have lens: "off + length s + length (concat ts) < unat n" using Cons.prems(8) ss by simp
  then have lt: "off < 2 ^ 64" "length s < 2 ^ 64"
    using unsigned_less [of n, where ?'a = nat] by simp_all
  have u: "unat (of_nat off :: size) = off" "unat (of_nat (length s) :: size) = length s"
    using lt by (simp_all add: unat_of_nat_exact)
  have src: "bytes_at e m p s" by (rule cstring_bytes [OF s(1)])
  obtain m1 where m1: "spr_memmove e (a + of_nat off) p (of_nat (length s)) m = Some m1"
    "bytes_at e m1 (a + of_nat off) s" "inv m1 U'" "blocks m1 = blocks m" "errno m1 = errno m"
    "\<forall>x. \<not> (off \<le> unat (x - a) \<and> unat (x - a) < off + length s) \<longrightarrow> bytes m1 x = bytes m x"
    using memmove_region [OF Cons.prems(1,3,4) src, of "of_nat (length s)" "of_nat off"] u lens by auto
  have bnd: "unat a + unat n \<le> 2 ^ 64" by (rule region_access(3) [OF Cons.prems(1,3,4)])
  have keep: "\<forall>x. unat x \<in> U \<longrightarrow> bytes m1 x = bytes m x"
  proof (intro allI impI)
    fix x :: addr assume "unat x \<in> U"
    then have "unat x \<notin> region a n" using Cons.prems(5) by auto
    then have "\<not> unat (x - a) < unat n" using region_offset [OF bnd] by blast
    then show "bytes m1 x = bytes m x" using m1(6) lens by simp
  qed
  have "list_all2 (cstring e m1) args ts"
    using ts cstring_kept [OF Cons.prems(2) _ _ m1(4) keep] unfolding all_in_def
    by (auto simp: list_all2_conv_all_nth)
  moreover have "off + length s + length (concat ts) < unat n" using lens by simp
  ultimately obtain m2 where m2: "cat_copy e (args @ [NULL]) (a + of_nat (off + length s)) m1 = Some m2"
    "bytes_at e m2 (a + of_nat (off + length s)) (concat ts)" "inv m2 U'" "blocks m2 = blocks m1"
    "errno m2 = errno m1"
    "\<forall>x. \<not> (off + length s \<le> unat (x - a) \<and> unat (x - a) < off + length s + length (concat ts))
      \<longrightarrow> bytes m2 x = bytes m1 x"
    using Cons.IH [OF m1(3) Cons.prems(2-5) _ ts(2)] by blast
  have "bytes_at e m2 (a + of_nat off) s"
  proof (rule bytes_at_unchanged [OF m1(2) m2(4)], intro allI impI)
    fix i assume i: "i < length s"
    have "a + of_nat off + of_nat i - a = (of_nat (off + i) :: addr)" by simp
    moreover have "unat (of_nat (off + i) :: addr) = off + i"
      using i lens unsigned_less [of n, where ?'a = nat] by (intro unat_of_nat_exact) simp
    ultimately show "bytes m2 (a + of_nat off + of_nat i) = bytes m1 (a + of_nat off + of_nat i)"
      using i spec [OF m2(6), of "a + of_nat off + of_nat i"] by (simp only:) simp
  qed
  then have "bytes_at e m2 (a + of_nat off) (concat ss)"
    using m2(2) by (simp add: ss bytes_at_append add.assoc)
  moreover have "cat_copy e ((p # args) @ [NULL]) (a + of_nat off) m = Some m2"
    using m1(1) m2(1) strlen_eq [OF s(1)] cstring_nonnull [OF s(1)] by (simp add: add.assoc)
  moreover have "bytes m2 x = bytes m x"
    if "\<not> (off \<le> unat (x - a) \<and> unat (x - a) < off + length (concat ss))" for x
    using that m1(6) m2(6) ss by auto
  ultimately show ?case using m1(4,5) m2(3-5) by auto
qed

end
context region_allocator
begin

lemma pstrcat_copies:
  assumes inv: "inv m U" and args: "list_all2 (cstring e m) args ss" "all_in args ss U"
    and total: "length (concat ss) + 1 < 2 ^ 63"
    and n: "request (of_nat (length (concat ss)) + 1)"
  shows "\<exists>a m'. pstrcat_with alloc e (args @ [NULL]) m = Some (a, m') \<and>
    fresh_copy e inv m U (concat ss) (of_nat (length (concat ss)) + 1) a m'"
proof -
  let ?l = "of_nat (length (concat ss)) :: size"
  let ?n = "?l + 1 :: size"
  have ul: "unat ?l = length (concat ss)" using total by (intro unat_of_nat_exact) simp
  then have len: "unat ?n = length (concat ss) + 1"
    using total by (subst unat_add_exact) simp_all
  then have nz: "?n \<noteq> 0" by (metis add_is_0 one_neq_zero unat_0)
  have cl: "cat_len e (args @ [NULL]) 0 m = Some ?l" using cat_len_eq [OF args(1), of 0] by simp
  from inv n show ?thesis
  proof (cases rule: alloc_cases)
    case (fail m')
    then show ?thesis using cl by (simp add: pstrcat_with_def fresh_copy_def same_client_memory_def)
  next
    case (ok a m' U')
    have by': "bytes m' = bytes m" using ok(2) by (simp add: same_client_memory_def)
    have sub: "region a ?n \<subseteq> U'" using ok(7) by simp
    note acc = region_access [OF ok(6) sub nz]
    have al: "accessible e (blocks m') (a + ?l)" "unat (a + ?l) = unat a + length (concat ss)"
      using acc(1,2) [of "length (concat ss)"] len by simp_all
    let ?m1 = "m'\<lparr>bytes := (bytes m')(a + ?l := 0)\<rparr>"
    have inv1: "inv ?m1 U'" using ok(6) inv_bytes by simp
    have last_in: "unat (a + ?l) \<in> region a ?n" using al(2) len by (simp add: region_def)
    have "cstring e ?m1 p s" if p: "cstring e m p s" "{unat p..<unat p + length s + 1} \<subseteq> U" for p s
    proof (rule cstring_kept [OF inv p(2)])
      show "cstring e m' p s" by (rule cstring_mono [OF p(1) ok(8) by'])
      show "\<forall>x. unat x \<in> U \<longrightarrow> bytes ?m1 x = bytes m' x" using last_in ok(5) by auto
    qed simp
    then have args1: "list_all2 (cstring e ?m1) args ss"
      using args unfolding all_in_def by (auto simp: list_all2_conv_all_nth)
    obtain m2 where m2: "cat_copy e (args @ [NULL]) (a + of_nat 0) ?m1 = Some m2"
      "bytes_at e m2 (a + of_nat 0) (concat ss)" "inv m2 U'" "blocks m2 = blocks ?m1"
      "errno m2 = errno ?m1"
      "\<forall>x. \<not> (0 \<le> unat (x - a) \<and> unat (x - a) < 0 + length (concat ss)) \<longrightarrow> bytes m2 x = bytes ?m1 x"
      using cat_copy_ok [OF inv1 inv sub nz ok(5) args1 args(2), of 0] len by auto
    have "bytes m2 (a + ?l) = 0" using m2(6) ul by simp
    then have "load_byte e (a + ?l) m2 = Some 0" using al(1) m2(4) by (simp add: load_byte_def)
    then have "bytes_at e m2 a (concat ss @ [0])" using m2(2) by (simp add: bytes_at_append)
    moreover have "bytes m2 x = bytes m x" if "unat x \<notin> region a ?n" for x
    proof -
      have "\<not> unat (x - a) < length (concat ss) + 1" using that region_offset [OF acc(3)] len by metis
      then have "x \<noteq> a + ?l" "bytes m2 x = bytes ?m1 x" using m2(6) ul by auto
      then show ?thesis using by' by simp
    qed
    ultimately show ?thesis
      using cl ok(1,3,5,7) m2(1,3) al(1)
      by (auto simp: pstrcat_with_def fresh_copy_def store_byte_def)
  qed
qed

end

end
