(* ===== verification/Spr_String_Props.thy ===== *)
theory Spr_String_Props
  imports Spr_String_Lemmas
begin

text \<open>
  The properties of \<^verbatim>\<open>lib/spr_string.c\<close>.
\<close>

section \<open>A memory with strings\<close>

text \<open>The sample pool after handing out 24 bytes at 4400 that hold the strings "42" and "aB".\<close>

definition sample_text :: mem where
  "sample_text = sample_mem1\<lparr>bytes := (\<lambda>_. 0)(4400 := 52, 4401 := 50, 4402 := 0,
     4408 := 97, 4409 := 66, 4410 := 0)\<rparr>"

lemma sample_text_inv: "pool_inv sample_env sample_text sample_pool sample_slots [] []"
  "used_by sample_text sample_slots = {4400..<4424}"
  using sample_inv1 by (simp_all add: sample_text_def spr_frame)

lemma sample_strings: "cstring sample_env sample_text 4400 [52, 50]"
  "cstring sample_env sample_text 4408 [97, 66]" "bytes_at sample_env sample_text 4400 [52, 50]"
  by (simp_all add: cstring_def load_byte_def sample_text_def sample_mem1_def sample_fields
    sample_access in_range_def)

section \<open>The properties\<close>

text \<open>C23: \<^verbatim>\<open>spr_atoi\<close> and \<^verbatim>\<open>spr_atosz\<close> on the 64-bit platforms return the value of the decimal digits
  when all n characters are digits and the value is at most 2^63-1, and -1 for an empty string,
  for any other character and for a larger value; the arithmetic never wraps.\<close>

theorem atoi_value:
  assumes "bytes_at e m str bs" "length bs = unat n"
  shows "spr_atoi e str n m = Some (if bs \<noteq> [] \<and> list_all digit bs \<and> dec_from 0 bs \<le> 2 ^ 63 - 1
      then of_nat (dec_from 0 bs) else (- 1 :: 64 word)) \<and>
    (spr_atosz e str n m :: 64 word option) = spr_atoi e str n m"
proof (cases "n = 0")
  case True
  then show ?thesis using assms(2) by (simp add: spr_atoi_def spr_atosz_def)
next
  case False
  then have "bs \<noteq> []" using assms(2) by (auto simp: unat_eq_0)
  then show ?thesis using atoi_loop_eq [OF assms(1), of 0 0] assms(2) False
    by (simp add: spr_atoi_def spr_atosz_def atoi_spec_def int_max_def)
qed

theorem atoi_value_witness: "spr_atoi sample_env 4400 2 sample_text = Some (42 :: 64 word)"
  using atoi_value [OF sample_strings(3), of 2] by (simp add: digit_def dec_from_def)

text \<open>On a platform with 32-bit pointers \<^verbatim>\<open>spr_atoi\<close> and \<^verbatim>\<open>spr_atosz\<close> return -1 for every
  readable input: \<^verbatim>\<open>spr_limits.h\<close> takes the 64-bit branch in this file, and a tenth of
  2^63-1 converted to 32 bits is negative.\<close>

theorem atoi_32_bit_always_fails:
  assumes "load_byte e str m = Some c"
  shows "spr_atoi e str n m = Some (- 1 :: 32 word) \<and> spr_atosz e str n m = Some (- 1 :: 32 word)"
proof -
  have cut: "(int_cutoff :: 32 word) <s 0" "(int_cutoff :: 32 word) \<le>s 0"
    by (simp_all add: int_cutoff_def SPR_INT_T_MAX_def SPR_INT64_MAX_VALUE_def word_sless_alt word_sle_eq)
  have "atoi_loop e str (unat n) 0 0 m = Some (- 1 :: 32 word)" if "n \<noteq> 0"
    using that assms cut by (subst atoi_loop.simps) (auto simp: Let_def unat_gt_0)
  then show ?thesis by (simp add: spr_atoi_def spr_atosz_def)
qed

theorem atoi_32_bit_always_fails_witness:
  "spr_atoi sample_env 4400 2 sample_text = Some (- 1 :: 32 word)"
  using atoi_32_bit_always_fails [of sample_env 4400 sample_text 52 2] sample_strings(3) by simp

text \<open>\<^verbatim>\<open>spr_strlen\<close> returns the length of the string; \<^verbatim>\<open>spr_strnlen\<close> the length up to the first
  zero among the first n bytes, or n.\<close>

theorem string_lengths:
  assumes "cstring e m str s" "bytes_at e m buf bs" "length bs = unat n"
  shows "spr_strlen e str m = Some (of_nat (length s)) \<and>
    spr_strnlen e buf n m = Some (of_nat (length (takeWhile (\<lambda>b. b \<noteq> 0) bs)))"
  using strlen_eq [OF assms(1)] strnlen_loop_eq [OF assms(2) refl, of 0] assms(3)
  by (simp add: spr_strnlen_def)

theorem string_lengths_witness:
  "spr_strlen sample_env 4408 sample_text = Some 2 \<and> spr_strnlen sample_env 4400 2 sample_text = Some 2"
  using string_lengths [OF sample_strings(2,3), of 2] by simp

text \<open>C27: \<^verbatim>\<open>spr_strcasecmp\<close> and \<^verbatim>\<open>spr_strncasecmp\<close> return zero exactly when the strings (their first
  n characters) agree up to the case of the ASCII letters.\<close>

theorem casecmp_decides_equality:
  assumes "cstring e m str1 s1" "cstring e m str2 s2"
  shows "\<exists>r r'. spr_strcasecmp e str1 str2 m = Some r \<and> (r = 0 \<longleftrightarrow> map lower s1 = map lower s2) \<and>
    spr_strncasecmp e str1 str2 n m = Some r' \<and>
    (r' = 0 \<longleftrightarrow> take (unat n) (map lower s1) = take (unat n) (map lower s2))"
proof -
  have z: "bytes_at e m str1 (s1 @ [0])" "bytes_at e m str2 (s2 @ [0])" "0 \<notin> set s1" "0 \<notin> set s2"
    using assms by (simp_all add: cstring_def)
  show ?thesis
    using strcasecmp_eq [OF z] strncasecmp_eq [OF z, of "unat n"] casecmp_spec_0 [OF z(3,4)]
      casecmp_spec_take_0 [OF z(3,4), of "unat n"]
    by (simp add: spr_strncasecmp_def)
qed

theorem casecmp_decides_equality_witness:
  "\<exists>r. spr_strcasecmp sample_env 4400 4408 sample_text = Some r \<and> r \<noteq> 0"
  using casecmp_decides_equality [OF sample_strings(1,2), of 1] by (auto simp: lower_def)

text \<open>C28: \<^verbatim>\<open>spr_strchr\<close> returns the address of the first character of the string that equals c, or
  null; \<^verbatim>\<open>spr_strrchr\<close> the last one, the terminating zero included. Searching for zero the two
  therefore disagree: the first never finds the terminator, the second always does.\<close>

theorem string_search:
  assumes "cstring e m str s"
  shows "spr_strchr e str c m = Some (case find (\<lambda>j. is_char c (s ! j)) [0..<length s] of
      None \<Rightarrow> NULL | Some j \<Rightarrow> str + of_nat j) \<and>
    spr_strrchr e str c m = Some (case find (\<lambda>j. is_char c ((s @ [0]) ! j))
        (rev [0..<Suc (length s)]) of None \<Rightarrow> NULL | Some j \<Rightarrow> str + of_nat j) \<and>
    spr_strchr e str 0 m = Some NULL \<and> spr_strrchr e str 0 m = Some (str + of_nat (length s))"
proof -
  have "find (\<lambda>j. is_char 0 (s ! j)) [0..<length s] = None"
  proof -
    have "\<not> is_char 0 (s ! j)" if "j < length s" for j
    proof
      assume "is_char 0 (s ! j)"
      then have "s ! j = 0" by (simp add: is_char_def signed_eq_0_iff)
      then show False using assms that nth_mem [OF that] by (simp add: cstring_def)
    qed
    then show ?thesis by (simp add: find_None_iff)
  qed
  then show ?thesis
    using strchr_eq [OF assms, of c] strrchr_eq [OF assms, of c] strchr_eq [OF assms, of 0]
      strrchr_eq [OF assms, of 0] by (simp add: is_char_def nth_append)
qed

theorem string_search_witness:
  "spr_strchr sample_env 4400 50 sample_text = Some 4401 \<and>
   spr_strrchr sample_env 4400 0 sample_text = Some 4402"
  using string_search [OF sample_strings(1), of 50] by (simp add: is_char_def upt_rec)

text \<open>C29: \<^verbatim>\<open>spr_pstrdup\<close> on a string whose copy the pool's slots serve returns null or a copy of the
  string at a fresh address of the pool and writes no byte outside the copy's block.\<close>

theorem pstrdup_fresh_copy:
  assumes "pool_inv e m pool S cl fr" "cstring e m str s"
    "small_request e (of_nat (length s) + 1)"
  shows "\<exists>a m'. spr_pstrdup e pool str m = Some (a, m') \<and>
    fresh_copy e (pool_uses e pool) m (used_by m S) s (of_nat (length s) + 1) a m'"
  unfolding spr_pstrdup_def using assms by (intro palloc.pstrdup_copies) (auto simp: pool_uses_def)

theorem pstrdup_fresh_copy_witness:
  "\<exists>a m'. spr_pstrdup sample_env sample_pool 4408 sample_text = Some (a, m') \<and>
    (a = NULL \<or> bytes_at sample_env m' a [97, 66, 0])"
  using pstrdup_fresh_copy [OF sample_text_inv(1) sample_strings(2)]
  by (auto simp: sample_small round_up_def fresh_copy_def)

text \<open>\<^verbatim>\<open>spr_pstrndup\<close> returns null or the first n bytes of its argument followed by a zero, at a
  fresh address of the pool.\<close>

theorem pstrndup_fresh_copy:
  assumes "pool_inv e m pool S cl fr" "bytes_at e m str bs" "length bs = unat n"
    "unat n + 1 < 2 ^ 64" "small_request e (n + 1)"
  shows "\<exists>a m'. spr_pstrndup e pool str n m = Some (a, m') \<and>
    fresh_copy e (pool_uses e pool) m (used_by m S) bs (n + 1) a m'"
  unfolding spr_pstrndup_def using assms by (intro palloc.pstrndup_copies) (auto simp: pool_uses_def)

theorem pstrndup_fresh_copy_witness:
  "\<exists>a m'. spr_pstrndup sample_env sample_pool 4400 2 sample_text = Some (a, m') \<and>
    (a = NULL \<or> bytes_at sample_env m' a [52, 50, 0])"
  using pstrndup_fresh_copy [OF sample_text_inv(1) sample_strings(3), of 2]
  by (auto simp: sample_small round_up_def fresh_copy_def)

text \<open>C24: \<^verbatim>\<open>spr_pstrcat\<close> on strings that lie in memory the pool has handed out returns
  their concatenation, zero-terminated, at a fresh address of the pool, or null, exactly when no memory node
  that is searched has room for it and the system gives no new one. The total size, with the
  terminator, must be one that the slots serve: rounded up and with the 48 bytes of a node header below
  twenty pages (with 21 pages the call is undefined).\<close>

theorem pstrcat_concatenates:
  assumes "pool_inv e m pool S cl fr" "list_all2 (cstring e m) args ss"
    "all_in args ss (used_by m S)" "length (concat ss) + 1 < 2 ^ 63"
    "small_request e (of_nat (length (concat ss)) + 1)"
  shows "\<exists>a m'. spr_pstrcat1 e pool (args @ [NULL]) m = Some (a, m') \<and>
    fresh_copy e (pool_uses e pool) m (used_by m S) (concat ss)
      (of_nat (length (concat ss)) + 1) a m' \<and>
    (a = NULL \<longleftrightarrow> no_room e pool (spr_align_allocation (of_nat (length (concat ss)) + 1)) m)"
proof -
  obtain a m' where a: "spr_pstrcat1 e pool (args @ [NULL]) m = Some (a, m')"
    "fresh_copy e (pool_uses e pool) m (used_by m S) (concat ss) (of_nat (length (concat ss)) + 1) a m'"
    unfolding spr_pstrcat1_def using palloc.pstrcat_copies [of e pool m "used_by m S" args ss] assms
    by (auto simp: pool_uses_def)
  moreover obtain m1 where "spr_palloc e pool (of_nat (length (concat ss)) + 1) m = Some (a, m1)"
    using a(1) cat_len_eq [OF assms(2), of 0]
    by (auto simp: spr_pstrcat1_def pstrcat_with_def split: bind_splits if_splits)
  from palloc_null_iff [OF assms(1,5) this] a show ?thesis by blast
qed

theorem pstrcat_concatenates_witness:
  "\<exists>a m'. spr_pstrcat1 sample_env sample_pool [4400, 4408, NULL] sample_text = Some (a, m') \<and>
    a \<noteq> NULL \<and> bytes_at sample_env m' a [52, 50, 97, 66, 0]"
proof -
  have "spr_get_npages sample_env (spr_align_allocation 5) = 1"
    by (simp add: spr_align_allocation_def spr_align_default_def spr_align_def SPR_ALIGN_SIZE_def
      spr_get_npages_def size_constants Let_def)
  then have "\<not> no_room sample_env sample_pool (spr_align_allocation 5) sample_text"
    by (simp add: no_room_def sample_text_def sample_mem1_def sample_fields bump_alloc_def)
  then show ?thesis
    using pstrcat_concatenates [OF sample_text_inv(1), of "[4400, 4408]" "[[52, 50], [97, 66]]"]
      sample_strings sample_text_inv(2)
    by (auto simp: sample_small round_up_def fresh_copy_def all_in_def)
qed

end
