(* ===== verification/Spr_Array.thy ===== *)
theory Spr_Array
  imports Spr_String_Props
begin

text \<open>
  \<^verbatim>\<open>lib/spr_array.c\<close>: arrays of a fixed number of elements in a pool, and their properties.
\<close>

definition sizeof_array :: size where "sizeof_array = 32"

definition spr_array_create :: "env \<Rightarrow> addr \<Rightarrow> size \<Rightarrow> size \<Rightarrow> mem \<Rightarrow> (addr \<times> mem) option" where
  "spr_array_create e pool sz n m = do {
     (array, m) \<leftarrow> spr_pcalloc e pool sizeof_array m;
     (data, m) \<leftarrow> spr_pcalloc e pool (sz * n) m;
     m \<leftarrow> upd_array e array (\<lambda>a. a\<lparr>ar_size := sz, ar_n_total := n, ar_data := data\<rparr>) m;
     Some (array, m) }"

definition spr_array_push :: "env \<Rightarrow> addr \<Rightarrow> addr \<Rightarrow> mem \<Rightarrow> (err \<times> mem) option" where
  "spr_array_push e array data m = do {
     a \<leftarrow> load_array e array m;
     if ar_n_total a \<le> ar_n_current a then Some (SPR_FAILED, m)
     else do {
       m \<leftarrow> spr_memmove e (ar_data a + ar_n_current a * ar_size a) data (ar_size a) m;
       m \<leftarrow> upd_array e array (\<lambda>a. a\<lparr>ar_size := ar_size a + 1\<rparr>) m;
       Some (SPR_OK, m) } }"

definition spr_array_clear :: "env \<Rightarrow> addr \<Rightarrow> mem \<Rightarrow> mem option" where
  "spr_array_clear e array m =
     upd_array e array (\<lambda>a. a\<lparr>ar_n_current := 0, ar_data := NULL\<rparr>) m"

section \<open>Properties\<close>

text \<open>\<^verbatim>\<open>spr_array_push\<close> on a full array fails without effect; otherwise it copies one element
  to the current position, but then enlarges the element size instead of the number of elements:
  pushing twice leaves the count as it was, and the second element lies over the first.\<close>

theorem array_push_grows_element_size:
  assumes "accessible e (blocks m) array" "arrays m array = a"
    and "bytes_at e m data bs" "length bs = unat (ar_size a)"
    and "\<forall>k<unat (ar_size a). accessible e (blocks m) (ar_data a + ar_n_current a * ar_size a + of_nat k)"
  shows "(ar_n_total a \<le> ar_n_current a \<longrightarrow> spr_array_push e array data m = Some (SPR_FAILED, m)) \<and>
    (ar_n_current a < ar_n_total a \<longrightarrow> (\<exists>m'. spr_array_push e array data m = Some (SPR_OK, m') \<and>
       bytes_at e m' (ar_data a + ar_n_current a * ar_size a) bs \<and>
       arrays m' array = a\<lparr>ar_size := ar_size a + 1\<rparr>))"
proof -
  obtain m' b where m': "spr_memmove e (ar_data a + ar_n_current a * ar_size a) data (ar_size a) m = Some m'"
    "bytes_at e m' (ar_data a + ar_n_current a * ar_size a) bs" "m' = m\<lparr>bytes := b\<rparr>"
    using memmove_ok [OF assms(3-5)] by blast
  let ?m = "m'\<lparr>arrays := (arrays m')(array := a\<lparr>ar_size := ar_size a + 1\<rparr>)\<rparr>"
  have "bytes_at e ?m (ar_data a + ar_n_current a * ar_size a) bs"
    using m'(2) by (rule bytes_at_unchanged) simp_all
  then show ?thesis
    using assms(1,2) m'(1,3) by (auto simp: spr_array_push_def load_array_def upd_array_def not_le not_less)
qed

definition sample_array :: mem where
  "sample_array = sample_text\<lparr>arrays := (arrays sample_text)(4416 :=
     \<lparr>ar_data = 4404, ar_size = 2, ar_n_total = 2, ar_n_current = 0\<rparr>)\<rparr>"

theorem array_push_grows_element_size_witness:
  "\<exists>m'. spr_array_push sample_env 4416 4408 sample_array = Some (SPR_OK, m') \<and>
    ar_n_current (arrays m' 4416) = 0 \<and> ar_size (arrays m' 4416) = 3"
proof -
  have "accessible sample_env (blocks sample_array) 4416"
    "bytes_at sample_env sample_array 4408 [97, 66]"
    "\<forall>k<2. accessible sample_env (blocks sample_array) (4404 + of_nat k)"
    by (auto simp: sample_array_def sample_text_def sample_mem1_def sample_fields sample_access
      in_range_def load_byte_def less_2_cases_iff)
  then show ?thesis
    using array_push_grows_element_size [of sample_env sample_array 4416
      "\<lparr>ar_data = 4404, ar_size = 2, ar_n_total = 2, ar_n_current = 0\<rparr>" 4408 "[97, 66]"]
    by (auto simp: sample_array_def)
qed

end
