(* ===== verification/Spr_List.thy ===== *)
theory Spr_List
  imports Spr_Pool
begin

text \<open>
  \<^verbatim>\<open>lib/spr_list.c\<close>: doubly linked lists whose nodes come from a pool in groups of ten and
  are kept on a free list when they are removed. The functions that allocate are defined over
  any family of allocators, one for every pool; the library's own are the instances for
  \<^verbatim>\<open>spr_palloc\<close>.
\<close>

definition SPR_LIST_INITIAL_SIZE :: nat where "SPR_LIST_INITIAL_SIZE = 10"
definition sizeof_list_node :: size where "sizeof_list_node = 24"
definition sizeof_list :: size where "sizeof_list = 48"

type_synonym pool_allocator = "addr \<Rightarrow> size \<Rightarrow> mem \<Rightarrow> (addr \<times> mem) option"

section \<open>Walking through a list (include/spr_list.h)\<close>

text \<open>The macros that read a list or a node; null and memory outside the blocks have no members.\<close>

definition spr_list_first :: "env \<Rightarrow> addr \<Rightarrow> mem \<Rightarrow> addr option" where
  "spr_list_first e list m = map_option sl_head (load_list e list m)"

definition spr_list_last :: "env \<Rightarrow> addr \<Rightarrow> mem \<Rightarrow> addr option" where
  "spr_list_last e list m = map_option sl_tail (load_list e list m)"

definition spr_list_size :: "env \<Rightarrow> addr \<Rightarrow> mem \<Rightarrow> size option" where
  "spr_list_size e list m = map_option sl_size (load_list e list m)"

definition spr_list_capacity :: "env \<Rightarrow> addr \<Rightarrow> mem \<Rightarrow> size option" where
  "spr_list_capacity e list m = map_option sl_capacity (load_list e list m)"

definition spr_list_next :: "env \<Rightarrow> addr \<Rightarrow> mem \<Rightarrow> addr option" where
  "spr_list_next e node m = map_option ln_next (load_lnode e node m)"

definition spr_list_prev :: "env \<Rightarrow> addr \<Rightarrow> mem \<Rightarrow> addr option" where
  "spr_list_prev e node m = map_option ln_prev (load_lnode e node m)"

definition spr_list_data :: "env \<Rightarrow> addr \<Rightarrow> mem \<Rightarrow> addr option" where
  "spr_list_data e node m = map_option ln_data (load_lnode e node m)"

section \<open>Creation\<close>

definition spr_list_create1 :: "env \<Rightarrow> addr \<Rightarrow> mem \<Rightarrow> ((err + addr) \<times> mem) option" where
  "spr_list_create1 e pool m = do {
     (list, m) \<leftarrow> spr_pcalloc e pool sizeof_list m;
     if list = NULL then Some (Inl (errno m), m)
     else do {
       m \<leftarrow> upd_list e list (sl_pool_update (\<lambda>_. pool)) m;
       Some (Inr list, m) } }"

definition spr_list_create :: "env \<Rightarrow> addr \<Rightarrow> mem \<Rightarrow> (addr \<times> mem) option" where
  "spr_list_create e pool m = do {
     (r, m) \<leftarrow> spr_list_create1 e pool m;
     case r of Inl err \<Rightarrow> if err \<noteq> SPR_OK then Some (NULL, m) else None
     | Inr list \<Rightarrow> Some (list, m) }"

section \<open>Free nodes\<close>

text \<open>\<^verbatim>\<open>nodes[i]\<close>.\<close>

definition node_at :: "addr \<Rightarrow> nat \<Rightarrow> addr" where
  "node_at nodes i = nodes + sizeof_list_node * of_nat i"

text \<open>The loop that puts nodes \<^verbatim>\<open>i\<close> to \<^verbatim>\<open>n-1\<close> of an array in front of the free list.\<close>

function add_free :: "env \<Rightarrow> addr \<Rightarrow> addr \<Rightarrow> nat \<Rightarrow> nat \<Rightarrow> mem \<Rightarrow> mem option" where
  "add_free e list nodes i n m =
     (if i < n then do {
        l \<leftarrow> load_list e list m;
        m \<leftarrow> upd_list e list (sl_free_nodes_update (\<lambda>_. node_at nodes i)) m;
        m \<leftarrow> upd_lnode e (node_at nodes i) (ln_next_update (\<lambda>_. sl_free_nodes l)) m;
        add_free e list nodes (Suc i) n m }
      else Some m)"
  by pat_completeness auto
termination
  by (relation "measure (\<lambda>(e, list, nodes, i, n, m). n - i)") auto

declare add_free.simps [simp del]

text \<open>The common first half of the two push functions: a node from the free list or, when it is
  empty, the first of ten new nodes.\<close>

definition take_node :: "pool_allocator \<Rightarrow> env \<Rightarrow> addr \<Rightarrow> mem \<Rightarrow> ((err + addr) \<times> mem) option" where
  "take_node palloc e list m = do {
     l \<leftarrow> load_list e list m;
     if sl_free_nodes l \<noteq> NULL then do {
       n \<leftarrow> load_lnode e (sl_free_nodes l) m;
       m \<leftarrow> upd_list e list (\<lambda>l. l\<lparr>sl_free_nodes := ln_next n,
         sl_capacity := sl_capacity l - 1\<rparr>) m;
       Some (Inr (sl_free_nodes l), m) }
     else do {
       (nodes, m) \<leftarrow> palloc (sl_pool l) (sizeof_list_node * of_nat SPR_LIST_INITIAL_SIZE) m;
       if nodes = NULL then Some (Inl (errno m), m)
       else do {
         m \<leftarrow> add_free e list (node_at nodes 1) 0 (SPR_LIST_INITIAL_SIZE - 1) m;
         m \<leftarrow> upd_list e list (sl_capacity_update (\<lambda>_. of_nat (SPR_LIST_INITIAL_SIZE - 1))) m;
         Some (Inr nodes, m) } } }"

definition push_back_with ::
  "pool_allocator \<Rightarrow> env \<Rightarrow> addr \<Rightarrow> addr \<Rightarrow> mem \<Rightarrow> (err \<times> mem) option" where
  "push_back_with palloc e list data m = do {
     (r, m) \<leftarrow> take_node palloc e list m;
     case r of Inl err \<Rightarrow> Some (err, m)
     | Inr node \<Rightarrow> do {
         m \<leftarrow> upd_lnode e node (\<lambda>n. n\<lparr>ln_next := NULL, ln_data := data\<rparr>) m;
         l \<leftarrow> load_list e list m;
         m \<leftarrow> (if sl_tail l \<noteq> NULL then do {
                m \<leftarrow> upd_lnode e (sl_tail l) (ln_next_update (\<lambda>_. node)) m;
                m \<leftarrow> upd_lnode e node (ln_prev_update (\<lambda>_. sl_tail l)) m;
                upd_list e list (sl_tail_update (\<lambda>_. node)) m }
              else upd_list e list (\<lambda>l. l\<lparr>sl_head := node, sl_tail := node\<rparr>) m);
         m \<leftarrow> upd_list e list (\<lambda>l. l\<lparr>sl_size := sl_size l + 1\<rparr>) m;
         Some (SPR_OK, m) } }"

definition push_front_with ::
  "pool_allocator \<Rightarrow> env \<Rightarrow> addr \<Rightarrow> addr \<Rightarrow> mem \<Rightarrow> (err \<times> mem) option" where
  "push_front_with palloc e list data m = do {
     (r, m) \<leftarrow> take_node palloc e list m;
     case r of Inl err \<Rightarrow> Some (err, m)
     | Inr node \<Rightarrow> do {
         m \<leftarrow> upd_lnode e node (\<lambda>n. n\<lparr>ln_prev := NULL, ln_data := data\<rparr>) m;
         l \<leftarrow> load_list e list m;
         m \<leftarrow> (if sl_head l \<noteq> NULL then do {
                m \<leftarrow> upd_lnode e (sl_head l) (ln_prev_update (\<lambda>_. node)) m;
                m \<leftarrow> upd_lnode e node (ln_next_update (\<lambda>_. sl_head l)) m;
                upd_list e list (sl_head_update (\<lambda>_. node)) m }
              else upd_list e list (\<lambda>l. l\<lparr>sl_head := node, sl_tail := node\<rparr>) m);
         m \<leftarrow> upd_list e list (\<lambda>l. l\<lparr>sl_size := sl_size l + 1\<rparr>) m;
         Some (SPR_OK, m) } }"

definition reserve_with ::
  "pool_allocator \<Rightarrow> env \<Rightarrow> addr \<Rightarrow> size \<Rightarrow> mem \<Rightarrow> (err \<times> mem) option" where
  "reserve_with palloc e list n m = do {
     l \<leftarrow> load_list e list m;
     (nodes, m) \<leftarrow> palloc (sl_pool l) (sizeof_list_node * n) m;
     if nodes = NULL then Some (errno m, m)
     else do {
       m \<leftarrow> add_free e list nodes 0 (unat n) m;
       m \<leftarrow> upd_list e list (\<lambda>l. l\<lparr>sl_capacity := sl_capacity l + n\<rparr>) m;
       Some (SPR_OK, m) } }"

definition spr_list_push_back :: "env \<Rightarrow> addr \<Rightarrow> addr \<Rightarrow> mem \<Rightarrow> (err \<times> mem) option" where
  "spr_list_push_back e list data m = push_back_with (spr_palloc e) e list data m"

definition spr_list_push_front :: "env \<Rightarrow> addr \<Rightarrow> addr \<Rightarrow> mem \<Rightarrow> (err \<times> mem) option" where
  "spr_list_push_front e list data m = push_front_with (spr_palloc e) e list data m"

definition spr_list_reserve :: "env \<Rightarrow> addr \<Rightarrow> size \<Rightarrow> mem \<Rightarrow> (err \<times> mem) option" where
  "spr_list_reserve e list n m = reserve_with (spr_palloc e) e list n m"

section \<open>Removal\<close>

text \<open>The two removal functions are the same text with a different test: \<^verbatim>\<open>temp == node\<close> and
  \<^verbatim>\<open>temp->data == data\<close>. The test is an argument here; it dereferences its node or not.\<close>

type_synonym node_test = "addr \<Rightarrow> mem \<Rightarrow> bool option"

definition is_node :: "addr \<Rightarrow> node_test" where
  "is_node node a m = Some (a = node)"

definition has_data :: "env \<Rightarrow> addr \<Rightarrow> node_test" where
  "has_data e data a m = do { n \<leftarrow> load_lnode e a m; Some (ln_data n = data) }"

text \<open>The \<^verbatim>\<open>while\<close> loop in the middle of the list: the node found, or \<^verbatim>\<open>None\<close> inside \<^verbatim>\<open>Some\<close>
  for the early return of \<^verbatim>\<open>SPR_NOT_FOUND\<close>.\<close>

partial_function (option) find_middle ::
  "node_test \<Rightarrow> env \<Rightarrow> addr \<Rightarrow> addr \<Rightarrow> mem \<Rightarrow> addr option option" where
  "find_middle test e list temp1 m =
     (case test temp1 m of
        None \<Rightarrow> None
      | Some found \<Rightarrow>
          if found then Some (Some temp1)
          else do {
            n \<leftarrow> load_lnode e temp1 m;
            l \<leftarrow> load_list e list m;
            if ln_next n = sl_tail l then Some None
            else find_middle test e list (ln_next n) m })"

declare find_middle.simps [code]

definition dec_size :: "env \<Rightarrow> addr \<Rightarrow> mem \<Rightarrow> mem option" where
  "dec_size e list m = upd_list e list (\<lambda>l. l\<lparr>sl_size := sl_size l - 1\<rparr>) m"

text \<open>The three ways to unlink a node; the result is the node.\<close>

definition unlink_first :: "env \<Rightarrow> addr \<Rightarrow> mem \<Rightarrow> (addr \<times> mem) option" where
  "unlink_first e list m = do {
     l \<leftarrow> load_list e list m;
     h \<leftarrow> load_lnode e (sl_head l) m;
     m \<leftarrow> (if ln_next h \<noteq> NULL then upd_lnode e (ln_next h) (ln_prev_update (\<lambda>_. NULL)) m
          else Some m);
     h \<leftarrow> load_lnode e (sl_head l) m;
     m \<leftarrow> upd_list e list (sl_head_update (\<lambda>_. ln_next h)) m;
     m \<leftarrow> dec_size e list m;
     Some (sl_head l, m) }"

definition unlink_last :: "env \<Rightarrow> addr \<Rightarrow> mem \<Rightarrow> (addr \<times> mem) option" where
  "unlink_last e list m = do {
     l \<leftarrow> load_list e list m;
     t \<leftarrow> load_lnode e (sl_tail l) m;
     m \<leftarrow> (if ln_prev t \<noteq> NULL then upd_lnode e (ln_prev t) (ln_next_update (\<lambda>_. NULL)) m
          else Some m);
     t \<leftarrow> load_lnode e (sl_tail l) m;
     m \<leftarrow> upd_list e list (sl_tail_update (\<lambda>_. ln_prev t)) m;
     m \<leftarrow> dec_size e list m;
     Some (sl_tail l, m) }"

definition unlink_middle :: "env \<Rightarrow> addr \<Rightarrow> addr \<Rightarrow> mem \<Rightarrow> (addr \<times> mem) option" where
  "unlink_middle e list temp1 m = do {
     n \<leftarrow> load_lnode e temp1 m;
     m \<leftarrow> upd_lnode e (ln_next n) (ln_prev_update (\<lambda>_. ln_prev n)) m;
     n \<leftarrow> load_lnode e temp1 m;
     m \<leftarrow> upd_lnode e (ln_prev n) (ln_next_update (\<lambda>_. ln_next n)) m;
     m \<leftarrow> dec_size e list m;
     Some (temp1, m) }"

definition remove_with :: "node_test \<Rightarrow> env \<Rightarrow> addr \<Rightarrow> mem \<Rightarrow> (err \<times> mem) option" where
  "remove_with test e list m = do {
     l \<leftarrow> load_list e list m;
     first \<leftarrow> test (sl_head l) m;
     r \<leftarrow> (if first then map_option Some (unlink_first e list m)
          else do {
            last \<leftarrow> test (sl_tail l) m;
            if last then map_option Some (unlink_last e list m)
            else do {
              h \<leftarrow> load_lnode e (sl_head l) m;
              r \<leftarrow> find_middle test e list (ln_next h) m;
              case r of None \<Rightarrow> Some None
              | Some temp1 \<Rightarrow> map_option Some (unlink_middle e list temp1 m) } });
     case r of None \<Rightarrow> Some (SPR_NOT_FOUND, m)
     | Some (founded_node, m) \<Rightarrow> do {
         l \<leftarrow> load_list e list m;
         m \<leftarrow> upd_list e list (sl_free_nodes_update (\<lambda>_. founded_node)) m;
         m \<leftarrow> upd_lnode e founded_node (ln_next_update (\<lambda>_. sl_free_nodes l)) m;
         m \<leftarrow> upd_list e list (\<lambda>l. l\<lparr>sl_capacity := sl_capacity l + 1\<rparr>) m;
         Some (SPR_OK, m) } }"

definition spr_list_remove1 :: "env \<Rightarrow> addr \<Rightarrow> addr \<Rightarrow> mem \<Rightarrow> (err \<times> mem) option" where
  "spr_list_remove1 e list node m = remove_with (is_node node) e list m"

definition spr_list_remove :: "env \<Rightarrow> addr \<Rightarrow> addr \<Rightarrow> mem \<Rightarrow> (err \<times> mem) option" where
  "spr_list_remove e list data m = remove_with (has_data e data) e list m"

section \<open>Clearing\<close>

partial_function (option) clear_loop :: "env \<Rightarrow> addr \<Rightarrow> addr \<Rightarrow> mem \<Rightarrow> mem option" where
  "clear_loop e list node m =
     (if node = NULL then Some m
      else do {
        n \<leftarrow> load_lnode e node m;
        (err, m) \<leftarrow> spr_list_remove e list node m;
        clear_loop e list (ln_next n) m })"

declare clear_loop.simps [code]

definition spr_list_clear :: "env \<Rightarrow> addr \<Rightarrow> mem \<Rightarrow> mem option" where
  "spr_list_clear e list m = do {
     l \<leftarrow> load_list e list m;
     clear_loop e list (sl_head l) m }"

end
