(* ===== verification/Spr_List_Lemmas.thy ===== *)
theory Spr_List_Lemmas
  imports Spr_List Spr_String_Lemmas
begin

text \<open>
  The invariant of a list and what the list operations do to it. The operations that allocate
  are clients of the region interface.
\<close>

section \<open>The invariant of a list\<close>

text \<open>The nodes of the list in order, the free nodes in order, and the links, the tail and the
  counters that belong to them; the addresses lie in memory the region has handed out.\<close>

fun back_links :: "(addr \<Rightarrow> addr) \<Rightarrow> addr list \<Rightarrow> bool" where
  "back_links pv (x # y # zs) \<longleftrightarrow> pv y = x \<and> back_links pv (y # zs)"
| "back_links pv _ \<longleftrightarrow> True"

definition list_inv :: "mem \<Rightarrow> nat set \<Rightarrow> addr \<Rightarrow> addr list \<Rightarrow> addr list \<Rightarrow> bool" where
  "list_inv m U l xs fr \<longleftrightarrow> unat l \<in> U \<and>
     chain (\<lambda>a. ln_next (lnodes m a)) (sl_head (lists m l)) xs \<and>
     back_links (\<lambda>a. ln_prev (lnodes m a)) xs \<and>
     sl_tail (lists m l) = (if xs = [] then NULL else last xs) \<and>
     chain (\<lambda>a. ln_next (lnodes m a)) (sl_free_nodes (lists m l)) fr \<and>
     distinct (xs @ fr) \<and> (\<forall>x \<in> set (xs @ fr). unat x \<in> U) \<and>
     sl_size (lists m l) = of_nat (length xs) \<and> sl_capacity (lists m l) = of_nat (length fr)"

definition contents :: "mem \<Rightarrow> addr list \<Rightarrow> addr list" where
  "contents m xs = map (\<lambda>a. ln_data (lnodes m a)) xs"

lemma back_links_cong: "(\<And>x. x \<in> set xs \<Longrightarrow> pv x = pv' x) \<Longrightarrow> back_links pv xs = back_links pv' xs"
  by (induction pv xs rule: back_links.induct) auto

lemma back_links_other: "y \<notin> set xs \<Longrightarrow> back_links (pv(y := v)) xs = back_links pv xs"
  by (rule back_links_cong) auto

lemma back_links_snoc:
  "back_links pv (xs @ [y]) \<longleftrightarrow> back_links pv xs \<and> (xs \<noteq> [] \<longrightarrow> pv y = last xs)"
  by (induction pv xs rule: back_links.induct) auto

lemma back_links_append:
  "xs \<noteq> [] \<Longrightarrow> ys \<noteq> [] \<Longrightarrow> back_links pv (xs @ ys)
    \<longleftrightarrow> back_links pv xs \<and> pv (hd ys) = last xs \<and> back_links pv ys"
proof (induction xs)
  case (Cons x xs)
  then show ?case by (cases xs; cases ys) auto
qed simp

lemma chain_snoc:
  assumes "chain nx a xs" "y \<noteq> NULL" "y \<notin> set xs"
  shows "chain (if xs = [] then nx(y := NULL) else nx(y := NULL, last xs := y))
    (if xs = [] then y else a) (xs @ [y])"
  using assms
proof (induction xs arbitrary: a)
  case (Cons x xs)
  have d: "x \<notin> set xs" using chain_distinct [OF Cons.prems(1)] by simp
  show ?case
  proof (cases "xs = []")
    case False
    then have "last xs \<noteq> x" using d by auto
    then show ?thesis using Cons False by auto
  qed (use Cons.prems in auto)
qed simp

lemma list_inv_region:
  assumes "list_inv m U l xs fr" "U \<subseteq> U'" "lists m' l = lists m l"
    "\<forall>x \<in> set (xs @ fr). lnodes m' x = lnodes m x"
  shows "list_inv m' U' l xs fr" "contents m' xs = contents m xs"
proof -
  have "chain (\<lambda>a. ln_next (lnodes m' a)) b xs = chain (\<lambda>a. ln_next (lnodes m a)) b xs"
    "chain (\<lambda>a. ln_next (lnodes m' a)) b fr = chain (\<lambda>a. ln_next (lnodes m a)) b fr"
    "back_links (\<lambda>a. ln_prev (lnodes m' a)) xs = back_links (\<lambda>a. ln_prev (lnodes m a)) xs" for b
    using assms(4) by (intro chain_cong back_links_cong; simp)+
  then show "list_inv m' U' l xs fr"
    using assms(1-3) unfolding list_inv_def by auto
  show "contents m' xs = contents m xs" using assms(4) by (simp add: contents_def)
qed

section \<open>Free nodes\<close>

lemma add_free_eq:
  assumes "i \<le> n" and "accessible e (blocks m) l"
    and "\<forall>j<n. accessible e (blocks m) (node_at a j)"
    and "inj_on (node_at a) {..<n}" "\<forall>j. i \<le> j \<and> j < n \<longrightarrow> node_at a j \<notin> set fr"
    and "chain (\<lambda>x. ln_next (lnodes m x)) (sl_free_nodes (lists m l)) fr"
  shows "\<exists>fl ln. add_free e l a i n m = Some (m\<lparr>lists := (lists m)(l := lists m l\<lparr>sl_free_nodes := fl\<rparr>),
      lnodes := ln\<rparr>) \<and>
    chain (\<lambda>x. ln_next (ln x)) fl (rev (map (node_at a) [i..<n]) @ fr) \<and>
    (\<forall>x. ln_prev (ln x) = ln_prev (lnodes m x) \<and> ln_data (ln x) = ln_data (lnodes m x)) \<and>
    (\<forall>x. x \<notin> node_at a ` {i..<n} \<longrightarrow> ln x = lnodes m x)"
  using assms
proof (induction i arbitrary: m fr rule: inc_induct)
  case base
  then show ?case
    by (intro exI [of _ "sl_free_nodes (lists m l)"] exI [of _ "lnodes m"])
      (auto simp: add_free.simps intro!: mem.equality)
next
  case (step i)
  let ?n = "node_at a i" and ?f = "sl_free_nodes (lists m l)"
  let ?ln = "(lnodes m)(?n := lnodes m ?n\<lparr>ln_next := ?f\<rparr>)"
  let ?m1 = "m\<lparr>lists := (lists m)(l := lists m l\<lparr>sl_free_nodes := ?n\<rparr>), lnodes := ?ln\<rparr>"
  have nz: "?n \<noteq> NULL" using step.prems(2) step.hyps by (simp add: accessible_def)
  have "chain (\<lambda>x. ln_next (?ln x)) ?f fr = chain (\<lambda>x. ln_next (lnodes m x)) ?f fr"
    using step.prems(4) step.hyps by (intro chain_cong) auto
  then have c: "chain (\<lambda>x. ln_next (lnodes ?m1 x)) (sl_free_nodes (lists ?m1 l)) (?n # fr)"
    using step.prems(5) nz by simp
  have fresh: "node_at a j \<notin> set (?n # fr)" if "Suc i \<le> j" "j < n" for j
    using that step.prems(3,4) step.hyps by (auto dest: inj_onD)
  have "\<exists>fl ln. add_free e l a (Suc i) n ?m1 = Some (?m1\<lparr>lists := (lists ?m1)(l := lists ?m1 l\<lparr>sl_free_nodes := fl\<rparr>),
      lnodes := ln\<rparr>) \<and>
    chain (\<lambda>x. ln_next (ln x)) fl (rev (map (node_at a) [Suc i..<n]) @ ?n # fr) \<and>
    (\<forall>x. ln_prev (ln x) = ln_prev (lnodes ?m1 x) \<and> ln_data (ln x) = ln_data (lnodes ?m1 x)) \<and>
    (\<forall>x. x \<notin> node_at a ` {Suc i..<n} \<longrightarrow> ln x = lnodes ?m1 x)"
    by (rule step.IH) (use step.prems(1-3) fresh c in \<open>simp_all\<close>)
  then obtain fl ln where r: "add_free e l a (Suc i) n ?m1 = Some (?m1\<lparr>lists := (lists ?m1)(l := lists ?m1 l\<lparr>sl_free_nodes := fl\<rparr>),
      lnodes := ln\<rparr>)"
    "chain (\<lambda>x. ln_next (ln x)) fl (rev (map (node_at a) [Suc i..<n]) @ ?n # fr)"
    "\<forall>x. ln_prev (ln x) = ln_prev (lnodes ?m1 x) \<and> ln_data (ln x) = ln_data (lnodes ?m1 x)"
    "\<forall>x. x \<notin> node_at a ` {Suc i..<n} \<longrightarrow> ln x = lnodes ?m1 x"
    by blast
  have up: "[i..<n] = i # [Suc i..<n]" using step.hyps by (simp add: upt_rec)
  have "add_free e l a i n m = add_free e l a (Suc i) n ?m1"
    using step.hyps step.prems(1,2)
    by (subst add_free.simps) (simp add: load_list_def upd_list_def upd_lnode_def)
  then have call: "add_free e l a i n m = Some (m\<lparr>lists := (lists m)(l := lists m l\<lparr>sl_free_nodes := fl\<rparr>), lnodes := ln\<rparr>)"
    using r(1) by simp
  have "ln x = lnodes m x" if "x \<notin> node_at a ` {i..<n}" for x
  proof -
    have "{i..<n} = insert i {Suc i..<n}" using step.hyps by auto
    then show ?thesis using r(4) that by simp
  qed
  moreover have "chain (\<lambda>x. ln_next (ln x)) fl (rev (map (node_at a) [i..<n]) @ fr)"
    using r(2) up by simp
  moreover have "ln_prev (ln x) = ln_prev (lnodes m x) \<and> ln_data (ln x) = ln_data (lnodes m x)" for x
    using r(3) by simp
  ultimately show ?case using call by blast
qed

text \<open>The nodes of a fresh array.\<close>

lemma sizeof_list_node_unat: "unat sizeof_list_node = 24" by (simp add: sizeof_list_node_def)

lemma node_at_value:
  assumes "unat a + 24 * n \<le> 2 ^ 64" "i < n"
  shows "unat (node_at a i) = unat a + 24 * i"
proof -
  have "unat (of_nat i :: size) = i" using assms by (intro unat_of_nat_exact) simp
  then have "unat (sizeof_list_node * of_nat i :: size) = 24 * i"
    using assms by (subst unat_mult_exact) (simp_all add: sizeof_list_node_def)
  then show ?thesis unfolding node_at_def using assms by (subst unat_add_exact) simp_all
qed

lemma node_at_Suc: "node_at (node_at a i) j = node_at a (i + j)"
  by (simp add: node_at_def algebra_simps)

lemma node_at_0 [simp]: "node_at a 0 = a"
  by (simp add: node_at_def)

context region_allocator
begin

lemma fresh_nodes:
  assumes inv: "inv m U'" and sub: "region a k \<subseteq> U'" and k: "unat k = 24 * n" "0 < n"
  shows "i < n \<Longrightarrow> accessible e (blocks m) (node_at a i)"
    "i < n \<Longrightarrow> unat (node_at a i) \<in> region a k" "inj_on (node_at a) {..<n}"
proof -
  have nz: "k \<noteq> 0" using k by (metis nat_0_less_mult_iff zero_less_numeral less_irrefl unat_0)
  have b: "unat a + 24 * n \<le> 2 ^ 64" using region_access(3) [OF inv sub nz] k by simp
  show r: "unat (node_at a i) \<in> region a k" if "i < n" for i
    using node_at_value [OF b that] that k(1) by (simp add: region_def)
  show "accessible e (blocks m) (node_at a i)" if "i < n" for i
    using r [OF that] sub by (intro inv_accessible [OF inv]) auto
  show "inj_on (node_at a) {..<n}"
  proof (rule inj_onI)
    fix i j assume ij: "i \<in> {..<n}" "j \<in> {..<n}" "node_at a i = node_at a j"
    have "unat a + 24 * i = unat (node_at a i)" using node_at_value [OF b, of i] ij(1) by simp
    also have "\<dots> = unat (node_at a j)" using ij(3) by (simp only:)
    also have "\<dots> = unat a + 24 * j" using node_at_value [OF b, of j] ij(2) by simp
    finally show "i = j" by simp
  qed
qed

end

section \<open>Taking a node\<close>

lemma list_invD:
  assumes "list_inv m U l xs fr"
  shows "unat l \<in> U" "chain (\<lambda>a. ln_next (lnodes m a)) (sl_head (lists m l)) xs"
    "back_links (\<lambda>a. ln_prev (lnodes m a)) xs"
    "sl_tail (lists m l) = (if xs = [] then NULL else last xs)"
    "chain (\<lambda>a. ln_next (lnodes m a)) (sl_free_nodes (lists m l)) fr"
    "distinct (xs @ fr)" "\<forall>x \<in> set (xs @ fr). unat x \<in> U"
    "sl_size (lists m l) = of_nat (length xs)" "sl_capacity (lists m l) = of_nat (length fr)"
  using assms unfolding list_inv_def by blast+

lemma list_inv_head:
  assumes "list_inv m U l xs fr"
  shows "sl_head (lists m l) = (if xs = [] then NULL else hd xs)"
  using list_invD(2) [OF assms] by (cases xs) auto

lemma list_invI:
  assumes "lists m l = L" "lnodes m = ln" "unat l \<in> U"
    "chain (\<lambda>a. ln_next (ln a)) (sl_head L) xs" "back_links (\<lambda>a. ln_prev (ln a)) xs"
    "sl_tail L = (if xs = [] then NULL else last xs)"
    "chain (\<lambda>a. ln_next (ln a)) (sl_free_nodes L) fr"
    "distinct (xs @ fr)" "\<forall>x \<in> set (xs @ fr). unat x \<in> U"
    "sl_size L = of_nat (length xs)" "sl_capacity L = of_nat (length fr)"
  shows "list_inv m U l xs fr"
  using assms unfolding list_inv_def by simp

text \<open>Fresh nodes linked in front of the free list keep the invariant of the list.\<close>

lemma add_free_fresh:
  assumes l: "list_inv m U l xs fr" and same: "lists m' = lists m" "lnodes m' = lnodes m"
    and sub: "U \<subseteq> U'" and acc: "accessible e (blocks m') l"
    and nodes: "\<forall>i<n. accessible e (blocks m') (node_at a i) \<and> unat (node_at a i) \<in> U' - U"
    and inj: "inj_on (node_at a) {..<n}"
  obtains (added) fl ln where
    "add_free e l a 0 n m' = Some (m'\<lparr>lists := (lists m)(l := lists m l\<lparr>sl_free_nodes := fl\<rparr>), lnodes := ln\<rparr>)"
    "list_inv (m'\<lparr>lists := (lists m)(l := lists m l\<lparr>sl_free_nodes := fl,
       sl_capacity := sl_capacity (lists m l) + of_nat n\<rparr>), lnodes := ln\<rparr>) U' l xs
       (rev (map (node_at a) [0..<n]) @ fr)"
    "\<forall>x \<in> set xs. ln x = lnodes m x"
proof -
  note d = list_invD [OF l]
  let ?ns = "rev (map (node_at a) [0..<n])"
  have disj: "node_at a i \<notin> set (xs @ fr)" if "i < n" for i using d(7) nodes that by blast
  have "\<exists>fl ln. add_free e l a 0 n m' = Some (m'\<lparr>lists := (lists m')(l := lists m' l\<lparr>sl_free_nodes := fl\<rparr>),
      lnodes := ln\<rparr>) \<and>
    chain (\<lambda>x. ln_next (ln x)) fl (?ns @ fr) \<and>
    (\<forall>x. ln_prev (ln x) = ln_prev (lnodes m' x) \<and> ln_data (ln x) = ln_data (lnodes m' x)) \<and>
    (\<forall>x. x \<notin> node_at a ` {0..<n} \<longrightarrow> ln x = lnodes m' x)"
    using acc nodes inj disj d(5) same by (intro add_free_eq) simp_all
  then obtain fl ln where r:
    "add_free e l a 0 n m' = Some (m'\<lparr>lists := (lists m)(l := lists m l\<lparr>sl_free_nodes := fl\<rparr>), lnodes := ln\<rparr>)"
    "chain (\<lambda>x. ln_next (ln x)) fl (?ns @ fr)"
    "\<forall>x. x \<notin> node_at a ` {0..<n} \<longrightarrow> ln x = lnodes m x"
    unfolding same by blast
  let ?L = "lists m l\<lparr>sl_free_nodes := fl, sl_capacity := sl_capacity (lists m l) + of_nat n\<rparr>"
  let ?m2 = "m'\<lparr>lists := (lists m)(l := ?L), lnodes := ln\<rparr>"
  have old: "ln x = lnodes m x" if "x \<in> set xs" for x
    using disj that r(3) by (metis UnI1 atLeastLessThan_iff image_iff set_append)
  have "chain (\<lambda>x. ln_next (ln x)) b xs = chain (\<lambda>x. ln_next (lnodes m x)) b xs"
    "back_links (\<lambda>x. ln_prev (ln x)) xs = back_links (\<lambda>x. ln_prev (lnodes m x)) xs" for b
    using old by (intro chain_cong back_links_cong; simp)+
  moreover have "distinct (xs @ ?ns @ fr)"
    using inj disj d(6) by (auto simp: distinct_map lessThan_atLeast0)
  moreover have "\<forall>x \<in> set (xs @ ?ns @ fr). unat x \<in> U'" using d(7) nodes sub by auto
  ultimately have "list_inv ?m2 U' l xs (?ns @ fr)"
    using d r(2) sub by (intro list_invI [where L = ?L and ln = ln]) (simp_all add: add.commute subset_iff)
  then show thesis using old by (intro added [OF r(1)] ballI) blast
qed

definition node_taken :: "mem \<Rightarrow> nat set \<Rightarrow> addr \<Rightarrow> addr list \<Rightarrow> addr \<Rightarrow> mem \<Rightarrow> nat set \<Rightarrow> addr list \<Rightarrow> bool" where
  "node_taken m U l xs node m' U' fr' \<longleftrightarrow>
     U \<subseteq> U' \<and> list_inv m' U' l xs fr' \<and> node \<noteq> NULL \<and> node \<notin> set (xs @ fr') \<and> unat node \<in> U' \<and>
     contents m' xs = contents m xs \<and> sl_pool (lists m' l) = sl_pool (lists m l) \<and>
     (\<forall>k. k \<noteq> l \<longrightarrow> lists m' k = lists m k) \<and> calls m' = calls m"

context region_allocator
begin

lemma take_node_reserved:
  assumes inv: "inv m U" and l: "list_inv m U l xs (n # fr)"
  shows "take_node A e l m = Some (Inr n, m\<lparr>lists := (lists m)(l := lists m l
      \<lparr>sl_free_nodes := ln_next (lnodes m n), sl_capacity := sl_capacity (lists m l) - 1\<rparr>)\<rparr>)"
    "node_taken m U l xs n (m\<lparr>lists := (lists m)(l := lists m l
      \<lparr>sl_free_nodes := ln_next (lnodes m n), sl_capacity := sl_capacity (lists m l) - 1\<rparr>)\<rparr>) U fr"
proof -
  have u: "unat l \<in> U" "unat n \<in> U" using list_invD(1,7) [OF l] by simp_all
  have f: "sl_free_nodes (lists m l) = n" "n \<noteq> NULL" using l by (simp_all add: list_inv_def)
  show "take_node A e l m = Some (Inr n, m\<lparr>lists := (lists m)(l := lists m l
      \<lparr>sl_free_nodes := ln_next (lnodes m n), sl_capacity := sl_capacity (lists m l) - 1\<rparr>)\<rparr>)"
    using f inv_accessible [OF inv u(1)] inv_accessible [OF inv u(2)]
    by (simp add: take_node_def load_list_def load_lnode_def upd_list_def)
  show "node_taken m U l xs n (m\<lparr>lists := (lists m)(l := lists m l
      \<lparr>sl_free_nodes := ln_next (lnodes m n), sl_capacity := sl_capacity (lists m l) - 1\<rparr>)\<rparr>) U fr"
  proof -
    let ?m' = "m\<lparr>lists := (lists m)(l := lists m l
      \<lparr>sl_free_nodes := ln_next (lnodes m n), sl_capacity := sl_capacity (lists m l) - 1\<rparr>)\<rparr>"
    have "list_inv ?m' U l xs fr" using l by (simp add: list_inv_def)
    moreover have "n \<notin> set (xs @ fr)" using list_invD(6) [OF l] by simp
    ultimately show ?thesis using u(2) f(2) by (simp add: node_taken_def contents_def)
  qed
qed

lemma take_node_fresh:
  assumes l: "list_inv m U l xs []" and A: "A (sl_pool (lists m l)) = alloc"
    and ok: "alloc 240 m = Some (a, m')" "same_client_memory m m'" "a \<noteq> NULL" "calls m' = calls m"
      "region a 240 \<inter> U = {}" "inv m' U'" "U \<union> region a 240 \<subseteq> U'"
    and acc: "accessible e (blocks m) l"
  obtains m2 fr' where "take_node A e l m = Some (Inr a, m2)" "inv m2 U'" "node_taken m U l xs a m2 U' fr'"
proof -
  note d = list_invD [OF l]
  have free: "sl_free_nodes (lists m l) = NULL" using d(5) by simp
  have same: "lists m' = lists m" "lnodes m' = lnodes m"
    using ok(2) by (simp_all add: same_client_memory_def)
  have sub: "region a 240 \<subseteq> U'" "U \<subseteq> U'" using ok(7) by simp_all
  note fn = fresh_nodes [OF ok(6) sub(1), of 10]
  have acc': "accessible e (blocks m') l" using d(1) sub(2) by (intro inv_accessible [OF ok(6)]) auto
  let ?b = "node_at a 1" and ?fr = "rev (map (node_at (node_at a 1)) [0..<9])"
  have inj: "node_at a i = node_at a j \<longleftrightarrow> i = j" if "i < 10" "j < 10" for i j
    using that inj_onD [OF fn(3)] by auto
  have nodes: "\<forall>i<9. accessible e (blocks m') (node_at ?b i) \<and> unat (node_at ?b i) \<in> U' - U"
  proof (intro allI impI)
    fix i :: nat
    assume "i < 9"
    then have "accessible e (blocks m') (node_at a (Suc i))" "unat (node_at a (Suc i)) \<in> region a 240"
      using fn(1,2) by simp_all
    then show "accessible e (blocks m') (node_at ?b i) \<and> unat (node_at ?b i) \<in> U' - U"
      using sub(1) ok(5) by (auto simp: node_at_Suc)
  qed
  have "inj_on (node_at ?b) {..<9}" by (rule inj_onI) (simp add: node_at_Suc inj)
  with l same sub(2) acc' nodes show thesis
  proof (cases rule: add_free_fresh)
    case (added fl ln)
    let ?m2 = "m'\<lparr>lists := (lists m)(l := lists m l\<lparr>sl_free_nodes := fl, sl_capacity := 9\<rparr>), lnodes := ln\<rparr>"
    have li: "list_inv ?m2 U' l xs ?fr" using added(2) d(9) by simp
    have call: "take_node A e l m = Some (Inr a, ?m2)"
      using acc acc' free ok(1,3) A added(1)
      by (simp add: take_node_def load_list_def upd_list_def SPR_LIST_INITIAL_SIZE_def sizeof_list_node_def)
    have a: "unat a \<in> region a 240" using fn(2) [of 0] by simp
    then have "a \<notin> set xs" using d(7) ok(5) by auto
    moreover have "a \<notin> set ?fr" using inj [of 0] by (auto simp: node_at_Suc)
    ultimately have "node_taken m U l xs a ?m2 U' ?fr"
      using a sub li ok(3,4) added(3) by (auto simp: node_taken_def contents_def)
    with call show thesis using ok(6) inv_lists inv_lnodes by (intro that) simp_all
  qed
qed

lemma take_node_cases:
  assumes inv: "inv m U" and l: "list_inv m U l xs fr"
    and A: "A (sl_pool (lists m l)) = alloc" and req: "request 240"
  obtains (fail) m' where "fr = []" "take_node A e l m = Some (Inl (errno m'), m')" "errno m' \<noteq> 0"
      "inv m' U" "list_inv m' U l xs fr" "contents m' xs = contents m xs"
  | (ok) node m' U' fr' where "take_node A e l m = Some (Inr node, m')" "inv m' U'"
      "node_taken m U l xs node m' U' fr'" "fr \<noteq> [] \<Longrightarrow> fr = node # fr'"
proof (cases fr)
  case (Cons n fr')
  note t = take_node_reserved [OF inv l [unfolded Cons]]
  have "inv (m\<lparr>lists := (lists m)(l := lists m l\<lparr>sl_free_nodes := ln_next (lnodes m n),
      sl_capacity := sl_capacity (lists m l) - 1\<rparr>)\<rparr>) U" using inv inv_lists by simp
  then show thesis using ok [OF t(1) _ t(2)] Cons by simp
next
  case Nil
  note d = list_invD [OF l]
  note accl = inv_accessible [OF inv d(1)]
  have free: "sl_free_nodes (lists m l) = NULL" using d(5) Nil by simp
  from inv req show thesis
  proof (cases rule: alloc_cases)
    case (fail m')
    have same: "lists m' l = lists m l" "\<forall>x \<in> set (xs @ fr). lnodes m' x = lnodes m x"
      using fail(2) by (simp_all add: same_client_memory_def)
    note li = list_inv_region [OF l subset_refl same]
    show thesis
      by (rule that(1) [OF Nil _ fail(3,4) li]) (use accl free fail(1) A in
        \<open>simp add: take_node_def load_list_def SPR_LIST_INITIAL_SIZE_def sizeof_list_node_def\<close>)
  next
    case (ok a m' U')
    show thesis
      by (rule take_node_fresh [where A = A, OF l [unfolded Nil] A ok(1-3) _ ok(5-7) accl])
        (use that(2) Nil ok(9) in auto)
  qed
qed

end
section \<open>Pushing\<close>

context region_allocator
begin

text \<open>The second half of \<^verbatim>\<open>spr_list_push_back\<close>, from the node taken.\<close>

lemma append_node:
  assumes inv: "inv m U" and l: "list_inv m U l xs fr"
    and n: "node \<noteq> NULL" "node \<notin> set (xs @ fr)" "unat node \<in> U"
  shows "\<exists>m'. do {
         m \<leftarrow> upd_lnode e node (\<lambda>n. n\<lparr>ln_next := NULL, ln_data := data\<rparr>) m;
         l' \<leftarrow> load_list e l m;
         m \<leftarrow> (if sl_tail l' \<noteq> NULL then do {
                m \<leftarrow> upd_lnode e (sl_tail l') (ln_next_update (\<lambda>_. node)) m;
                m \<leftarrow> upd_lnode e node (ln_prev_update (\<lambda>_. sl_tail l')) m;
                upd_list e l (sl_tail_update (\<lambda>_. node)) m }
              else upd_list e l (\<lambda>l. l\<lparr>sl_head := node, sl_tail := node\<rparr>) m);
         m \<leftarrow> upd_list e l (\<lambda>l. l\<lparr>sl_size := sl_size l + 1\<rparr>) m;
         Some (SPR_OK, m) } = Some (SPR_OK, m') \<and>
    list_inv m' U l (xs @ [node]) fr \<and> inv m' U \<and> contents m' (xs @ [node]) = contents m xs @ [data] \<and>
    (\<forall>k. k \<noteq> l \<longrightarrow> lists m' k = lists m k) \<and> calls m' = calls m"
proof -
  note d = list_invD [OF l]
  note accl = inv_accessible [OF inv d(1)] and accn = inv_accessible [OF inv n(3)]
  show ?thesis
  proof (cases "xs = []")
    case True
    let ?m = "m\<lparr>lnodes := (lnodes m)(node := lnodes m node\<lparr>ln_next := NULL, ln_data := data\<rparr>),
      lists := (lists m)(l := lists m l\<lparr>sl_head := node, sl_tail := node, sl_size := sl_size (lists m l) + 1\<rparr>)\<rparr>"
    have "chain (\<lambda>a. ln_next (lnodes ?m a)) b fr = chain (\<lambda>a. ln_next (lnodes m a)) b fr" for b
      using n(2) by (intro chain_cong) auto
    then have "list_inv ?m U l [node] fr"
      using d n True unfolding list_inv_def by simp
    moreover have "inv ?m U" using inv inv_lists inv_lnodes by simp
    ultimately show ?thesis
      using accl accn d(4) True
      by (intro exI [of _ ?m]) (simp add: load_list_def upd_list_def upd_lnode_def contents_def)
  next
    case False
    let ?t = "last xs"
    have t: "?t \<in> set xs" "?t \<noteq> node" "?t \<noteq> NULL"
      using False n(2) chain_nonzero [OF d(2)] last_in_set [OF False] by auto
    then have acct: "accessible e (blocks m) ?t" using d(7) by (intro inv_accessible [OF inv]) simp
    let ?ln = "(lnodes m)(?t := lnodes m ?t\<lparr>ln_next := node\<rparr>,
      node := lnodes m node\<lparr>ln_next := NULL, ln_data := data, ln_prev := ?t\<rparr>)"
    let ?m = "m\<lparr>lnodes := ?ln,
      lists := (lists m)(l := lists m l\<lparr>sl_tail := node, sl_size := sl_size (lists m l) + 1\<rparr>)\<rparr>"
    have free: "chain (\<lambda>a. ln_next (?ln a)) b fr = chain (\<lambda>a. ln_next (lnodes m a)) b fr" for b
      using n(2) t(1) d(6) by (intro chain_cong) auto
    have "(\<lambda>a. ln_next (?ln a)) = (\<lambda>a. ln_next (lnodes m a))(node := NULL, ?t := node)"
      using t(2) by auto
    then have "chain (\<lambda>a. ln_next (?ln a)) (sl_head (lists m l)) (xs @ [node])"
      using chain_snoc [OF d(2) n(1)] n(2) False by simp
    moreover have "(\<lambda>a. ln_prev (?ln a)) = (\<lambda>a. ln_prev (lnodes m a))(node := ?t)" by auto
    then have "back_links (\<lambda>a. ln_prev (?ln a)) (xs @ [node])"
      using d(3) n(2) by (simp add: back_links_snoc back_links_other)
    ultimately have "list_inv ?m U l (xs @ [node]) fr"
      using d n free unfolding list_inv_def by simp
    moreover have "inv ?m U" using inv inv_lists inv_lnodes by simp
    moreover have "contents ?m (xs @ [node]) = contents m xs @ [data]"
      using n(2) by (auto simp: contents_def)
    moreover have "do {
         m \<leftarrow> upd_lnode e node (\<lambda>n. n\<lparr>ln_next := NULL, ln_data := data\<rparr>) m;
         l' \<leftarrow> load_list e l m;
         m \<leftarrow> (if sl_tail l' \<noteq> NULL then do {
                m \<leftarrow> upd_lnode e (sl_tail l') (ln_next_update (\<lambda>_. node)) m;
                m \<leftarrow> upd_lnode e node (ln_prev_update (\<lambda>_. sl_tail l')) m;
                upd_list e l (sl_tail_update (\<lambda>_. node)) m }
              else upd_list e l (\<lambda>l. l\<lparr>sl_head := node, sl_tail := node\<rparr>) m);
         m \<leftarrow> upd_list e l (\<lambda>l. l\<lparr>sl_size := sl_size l + 1\<rparr>) m;
         Some (SPR_OK, m) } = Some (SPR_OK, ?m)"
      using accl accn acct d(4) False t(2,3)
      by (simp add: load_list_def upd_list_def upd_lnode_def fun_upd_twist [of node])
    ultimately show ?thesis by (intro exI [of _ ?m]) simp
  qed
qed

lemma push_back_ok:
  assumes inv: "inv m U" and l: "list_inv m U l xs fr"
    and A: "A (sl_pool (lists m l)) = alloc" and req: "request 240"
  shows "\<exists>err m'. push_back_with A e l data m = Some (err, m') \<and>
    (err \<noteq> 0 \<and> fr = [] \<and> inv m' U \<and> list_inv m' U l xs fr \<and> contents m' xs = contents m xs \<or>
     err = SPR_OK \<and> (\<exists>U' node fr'. U \<subseteq> U' \<and> inv m' U' \<and> list_inv m' U' l (xs @ [node]) fr' \<and>
       contents m' (xs @ [node]) = contents m xs @ [data] \<and> (fr \<noteq> [] \<longrightarrow> fr = node # fr')))"
  using inv l A req
proof (cases rule: take_node_cases)
  case (fail m')
  then show ?thesis by (simp add: push_back_with_def)
next
  case (ok node m' U' fr')
  note t = ok(3) [unfolded node_taken_def]
  have n: "list_inv m' U' l xs fr'" "node \<noteq> NULL" "node \<notin> set (xs @ fr')" "unat node \<in> U'"
    using t by simp_all
  obtain m'' where m'': "push_back_with A e l data m = Some (SPR_OK, m'')"
    "list_inv m'' U' l (xs @ [node]) fr'" "inv m'' U'"
    "contents m'' (xs @ [node]) = contents m' xs @ [data]"
    using append_node [OF ok(2) n, of data] ok(1) by (auto simp: push_back_with_def)
  then show ?thesis using t ok(4) by (auto simp: SPR_OK_def)
qed

end
lemma back_links_cong_tl:
  "(\<And>x. x \<in> set (tl xs) \<Longrightarrow> pv x = pv' x) \<Longrightarrow> back_links pv xs = back_links pv' xs"
  by (induction pv xs rule: back_links.induct) auto

text \<open>Two memories whose nodes hold the same data.\<close>

definition same_data :: "mem \<Rightarrow> mem \<Rightarrow> bool" where
  "same_data m m' \<longleftrightarrow> (\<forall>a. ln_data (lnodes m' a) = ln_data (lnodes m a))"

lemma same_data_contents: "same_data m m' \<Longrightarrow> contents m' xs = contents m xs"
  by (simp add: same_data_def contents_def)

text \<open>The searches of the two removal functions as a test of the nodes.\<close>

definition tests :: "node_test \<Rightarrow> mem \<Rightarrow> (addr \<Rightarrow> bool) \<Rightarrow> addr set \<Rightarrow> bool" where
  "tests test m P X \<longleftrightarrow> (\<forall>a \<in> X. test a m = Some (P a))"

context region_allocator
begin

text \<open>The second half of \<^verbatim>\<open>spr_list_push_front\<close> on a list that is not empty.\<close>

lemma prepend_node:
  assumes inv: "inv m U" and l: "list_inv m U l xs fr" and ne: "xs \<noteq> []"
    and n: "node \<noteq> NULL" "node \<notin> set (xs @ fr)" "unat node \<in> U"
  shows "\<exists>m'. do {
         m \<leftarrow> upd_lnode e node (\<lambda>n. n\<lparr>ln_prev := NULL, ln_data := data\<rparr>) m;
         l' \<leftarrow> load_list e l m;
         m \<leftarrow> (if sl_head l' \<noteq> NULL then do {
                m \<leftarrow> upd_lnode e (sl_head l') (ln_prev_update (\<lambda>_. node)) m;
                m \<leftarrow> upd_lnode e node (ln_next_update (\<lambda>_. sl_head l')) m;
                upd_list e l (sl_head_update (\<lambda>_. node)) m }
              else upd_list e l (\<lambda>l. l\<lparr>sl_head := node, sl_tail := node\<rparr>) m);
         m \<leftarrow> upd_list e l (\<lambda>l. l\<lparr>sl_size := sl_size l + 1\<rparr>) m;
         Some (SPR_OK, m) } = Some (SPR_OK, m') \<and>
    list_inv m' U l (node # xs) fr \<and> inv m' U \<and> contents m' (node # xs) = data # contents m xs"
proof -
  note d = list_invD [OF l]
  note accl = inv_accessible [OF inv d(1)] and accn = inv_accessible [OF inv n(3)]
  obtain h zs where xs: "xs = h # zs" using ne by (cases xs) auto
  have h: "sl_head (lists m l) = h" "h \<noteq> node" "h \<noteq> NULL" "h \<notin> set zs"
    using list_inv_head [OF l] xs n(2) chain_nonzero [OF d(2)] d(6) by auto
  have acch: "accessible e (blocks m) h" using d(7) xs by (intro inv_accessible [OF inv]) simp
  let ?ln = "(lnodes m)(h := lnodes m h\<lparr>ln_prev := node\<rparr>,
    node := lnodes m node\<lparr>ln_prev := NULL, ln_data := data, ln_next := h\<rparr>)"
  let ?m = "m\<lparr>lnodes := ?ln,
    lists := (lists m)(l := lists m l\<lparr>sl_head := node, sl_size := sl_size (lists m l) + 1\<rparr>)\<rparr>"
  have "chain (\<lambda>a. ln_next (?ln a)) b fr = chain (\<lambda>a. ln_next (lnodes m a)) b fr"
    "chain (\<lambda>a. ln_next (?ln a)) b xs = chain (\<lambda>a. ln_next (lnodes m a)) b xs" for b
    using n(2) by (intro chain_cong; auto)+
  then have "chain (\<lambda>a. ln_next (?ln a)) (sl_free_nodes (lists m l)) fr"
    "chain (\<lambda>a. ln_next (?ln a)) node (node # xs)"
    using d(2,5) h(1) n(1) by simp_all
  moreover have "back_links (\<lambda>a. ln_prev (?ln a)) (node # xs)"
  proof -
    have "back_links (\<lambda>a. ln_prev (?ln a)) xs = back_links (\<lambda>a. ln_prev (lnodes m a)) xs"
      using n(2) h(4) xs by (intro back_links_cong_tl) auto
    then show ?thesis using d(3) xs h(2) by simp
  qed
  ultimately have "list_inv ?m U l (node # xs) fr"
    using d n ne unfolding list_inv_def by (simp del: chain.simps back_links.simps)
  moreover have "inv ?m U" using inv inv_lists inv_lnodes by simp
  moreover have "contents ?m (node # xs) = data # contents m xs"
    using n(2) by (auto simp: contents_def)
  moreover have "do {
         m \<leftarrow> upd_lnode e node (\<lambda>n. n\<lparr>ln_prev := NULL, ln_data := data\<rparr>) m;
         l' \<leftarrow> load_list e l m;
         m \<leftarrow> (if sl_head l' \<noteq> NULL then do {
                m \<leftarrow> upd_lnode e (sl_head l') (ln_prev_update (\<lambda>_. node)) m;
                m \<leftarrow> upd_lnode e node (ln_next_update (\<lambda>_. sl_head l')) m;
                upd_list e l (sl_head_update (\<lambda>_. node)) m }
              else upd_list e l (\<lambda>l. l\<lparr>sl_head := node, sl_tail := node\<rparr>) m);
         m \<leftarrow> upd_list e l (\<lambda>l. l\<lparr>sl_size := sl_size l + 1\<rparr>) m;
         Some (SPR_OK, m) } = Some (SPR_OK, ?m)"
    using accl accn acch h(1-3)
    by (simp add: load_list_def upd_list_def upd_lnode_def fun_upd_twist [of node])
  ultimately show ?thesis by (intro exI [of _ ?m]) simp
qed

lemma push_front_ok:
  assumes inv: "inv m U" and l: "list_inv m U l xs fr" and ne: "xs \<noteq> []"
    and A: "A (sl_pool (lists m l)) = alloc" and req: "request 240"
  shows "\<exists>err m'. push_front_with A e l data m = Some (err, m') \<and>
    (err \<noteq> 0 \<and> fr = [] \<and> inv m' U \<and> list_inv m' U l xs fr \<and> contents m' xs = contents m xs \<or>
     err = SPR_OK \<and> (\<exists>U' node fr'. U \<subseteq> U' \<and> inv m' U' \<and> list_inv m' U' l (node # xs) fr' \<and>
       contents m' (node # xs) = data # contents m xs \<and> (fr \<noteq> [] \<longrightarrow> fr = node # fr')))"
  using inv l A req
proof (cases rule: take_node_cases)
  case (fail m')
  then show ?thesis by (simp add: push_front_with_def)
next
  case (ok node m' U' fr')
  note t = ok(3) [unfolded node_taken_def]
  have n: "list_inv m' U' l xs fr'" "node \<noteq> NULL" "node \<notin> set (xs @ fr')" "unat node \<in> U'"
    using t by simp_all
  obtain m'' where "push_front_with A e l data m = Some (SPR_OK, m'')"
    "list_inv m'' U' l (node # xs) fr'" "inv m'' U'"
    "contents m'' (node # xs) = data # contents m' xs"
    using prepend_node [OF ok(2) n(1) ne n(2-4), of data] ok(1) by (auto simp: push_front_with_def)
  then show ?thesis using t ok(4) by (auto simp: SPR_OK_def)
qed

text \<open>On an empty list with reserved nodes the link of the new node still leads into the free
  list.\<close>

lemma push_front_empty:
  assumes inv: "inv m U" and l: "list_inv m U l [] (n # fr)"
  shows "\<exists>m'. push_front_with A e l data m = Some (SPR_OK, m') \<and>
    sl_size (lists m' l) = 1 \<and> sl_free_nodes (lists m' l) = ln_next (lnodes m' n) \<and>
    chain (\<lambda>a. ln_next (lnodes m' a)) (sl_head (lists m' l)) (n # fr)"
proof -
  note d = list_invD [OF l]
  have n: "n \<noteq> NULL" "unat n \<in> U" "n \<notin> set fr" "sl_free_nodes (lists m l) = n"
    using d(5-7) by auto
  note acc = inv_accessible [OF inv d(1)] inv_accessible [OF inv n(2)]
  let ?m = "m\<lparr>lists := (lists m)(l := lists m l\<lparr>sl_free_nodes := ln_next (lnodes m n),
      sl_capacity := sl_capacity (lists m l) - 1, sl_head := n, sl_tail := n, sl_size := 1\<rparr>),
    lnodes := (lnodes m)(n := lnodes m n\<lparr>ln_prev := NULL, ln_data := data\<rparr>)\<rparr>"
  have "push_front_with A e l data m = Some (SPR_OK, ?m)"
    using take_node_reserved(1) [OF inv l, of A] acc d(8) list_inv_head [OF l]
    by (simp add: push_front_with_def load_list_def upd_list_def upd_lnode_def)
  moreover have "chain (\<lambda>a. ln_next (lnodes ?m a)) b fr = chain (\<lambda>a. ln_next (lnodes m a)) b fr" for b
    by (intro chain_cong) auto
  ultimately show ?thesis using d(5) n by (intro exI [of _ ?m]) simp
qed

end
section \<open>Removal\<close>

lemma back_links_tl: "back_links pv (x # xs) \<Longrightarrow> back_links pv xs"
  by (cases xs) simp_all

lemma back_links_join:
  "back_links pv (ys @ x # z # zs) \<Longrightarrow> ys \<noteq> [] \<Longrightarrow> distinct (ys @ x # z # zs) \<Longrightarrow>
    back_links (pv(z := pv x)) (ys @ z # zs)"
proof -
  assume b: "back_links pv (ys @ x # z # zs)" and ne: "ys \<noteq> []" and d: "distinct (ys @ x # z # zs)"
  have parts: "back_links pv ys" "pv x = last ys" "back_links pv (z # zs)"
    using b ne by (simp_all add: back_links_append)
  have "back_links (pv(z := pv x)) (z # zs) = back_links pv (z # zs)"
    using d by (intro back_links_cong_tl) auto
  moreover have "back_links (pv(z := pv x)) ys = back_links pv ys"
    using d by (intro back_links_other) auto
  ultimately show ?thesis using parts ne by (simp add: back_links_append)
qed

context region_allocator
begin

lemma unlink_first_ok:
  assumes inv: "inv m U" and l: "list_inv m U l (x # y # zs) fr"
  shows "\<exists>m'. unlink_first e l m = Some (x, m') \<and> list_inv m' U l (y # zs) fr \<and> inv m' U \<and> same_data m m'"
proof -
  note d = list_invD [OF l]
  have h: "sl_head (lists m l) = x" "ln_next (lnodes m x) = y" "x \<noteq> NULL" "y \<noteq> NULL" "x \<noteq> y"
    using list_inv_head [OF l] d(2,6) by auto
  have u: "unat x \<in> U" "unat y \<in> U" using d(7) by simp_all
  note acc = inv_accessible [OF inv d(1)] inv_accessible [OF inv u(1)] inv_accessible [OF inv u(2)]
  let ?ln = "(lnodes m)(y := lnodes m y\<lparr>ln_prev := NULL\<rparr>)"
  let ?m = "m\<lparr>lnodes := ?ln,
    lists := (lists m)(l := lists m l\<lparr>sl_head := y, sl_size := sl_size (lists m l) - 1\<rparr>)\<rparr>"
  have nx: "(\<lambda>a. ln_next (?ln a)) = (\<lambda>a. ln_next (lnodes m a))" by auto
  have "back_links (\<lambda>a. ln_prev (?ln a)) (y # zs) = back_links (\<lambda>a. ln_prev (lnodes m a)) (y # zs)"
    using d(6) by (intro back_links_cong_tl) auto
  moreover have "chain (\<lambda>a. ln_next (lnodes m a)) y (y # zs)" "back_links (\<lambda>a. ln_prev (lnodes m a)) (y # zs)"
    using d(2,3) h by auto
  ultimately have "list_inv ?m U l (y # zs) fr"
    using d by (intro list_invI [where L = "lists m l\<lparr>sl_head := y, sl_size := sl_size (lists m l) - 1\<rparr>"
      and ln = ?ln]) (simp_all add: nx del: chain.simps back_links.simps fun_upd_apply, simp_all)
  moreover have "inv ?m U" using inv inv_lists inv_lnodes by simp
  moreover have "unlink_first e l m = Some (x, ?m)"
    using acc h by (simp add: unlink_first_def dec_size_def load_list_def load_lnode_def upd_list_def upd_lnode_def)
  ultimately show ?thesis by (intro exI [of _ ?m]) (simp add: same_data_def)
qed

lemma unlink_last_ok:
  assumes inv: "inv m U" and l: "list_inv m U l (ys @ [y, x]) fr"
  shows "\<exists>m'. unlink_last e l m = Some (x, m') \<and> list_inv m' U l (ys @ [y]) fr \<and> inv m' U \<and> same_data m m'"
proof -
  note d = list_invD [OF l]
  have t: "sl_tail (lists m l) = x" "ln_prev (lnodes m x) = y"
    using d(3,4) back_links_snoc [of _ "ys @ [y]" x] by simp_all
  have nz: "x \<noteq> NULL" "y \<noteq> NULL" using chain_nonzero [OF d(2)] by simp_all
  have u: "unat x \<in> U" "unat y \<in> U" and xy: "x \<noteq> y" using d(6,7) by auto
  note acc = inv_accessible [OF inv d(1)] inv_accessible [OF inv u(1)] inv_accessible [OF inv u(2)]
  let ?ln = "(lnodes m)(y := lnodes m y\<lparr>ln_next := NULL\<rparr>)"
  let ?m = "m\<lparr>lnodes := ?ln,
    lists := (lists m)(l := lists m l\<lparr>sl_tail := y, sl_size := sl_size (lists m l) - 1\<rparr>)\<rparr>"
  have nx: "(\<lambda>a. ln_next (?ln a)) = (\<lambda>a. ln_next (lnodes m a))(y := NULL)"
    and pv: "(\<lambda>a. ln_prev (?ln a)) = (\<lambda>a. ln_prev (lnodes m a))" by auto
  have "chain ((\<lambda>a. ln_next (lnodes m a))(last (ys @ [y]) := ln_next (lnodes m x)))
      (sl_head (lists m l)) ((ys @ [y]) @ [])"
    using chain_unlink [of "\<lambda>a. ln_next (lnodes m a)" "sl_head (lists m l)" "ys @ [y]" x "[]"] d(2,6)
    by simp
  moreover have "ln_next (lnodes m x) = NULL"
    using chain_suffix [of "\<lambda>a. ln_next (lnodes m a)" _ "ys @ [y]" x "[]"] d(2) by simp
  ultimately have c: "chain (\<lambda>a. ln_next (?ln a)) (sl_head (lists m l)) (ys @ [y])"
    unfolding nx by simp
  have "chain (\<lambda>a. ln_next (?ln a)) b fr = chain (\<lambda>a. ln_next (lnodes m a)) b fr" for b
    unfolding nx using d(6) by (intro chain_update_other) auto
  moreover have "back_links (\<lambda>a. ln_prev (lnodes m a)) (ys @ [y])"
    using d(3) back_links_snoc [of _ "ys @ [y]" x] by simp
  ultimately have "list_inv ?m U l (ys @ [y]) fr"
    using d c by (intro list_invI [where L = "lists m l\<lparr>sl_tail := y, sl_size := sl_size (lists m l) - 1\<rparr>"
      and ln = ?ln]) (simp_all add: pv del: fun_upd_apply, simp_all)
  moreover have "inv ?m U" using inv inv_lists inv_lnodes by simp
  moreover have "unlink_last e l m = Some (x, ?m)"
    using acc t nz xy by (simp add: unlink_last_def dec_size_def load_list_def load_lnode_def upd_list_def upd_lnode_def)
  ultimately show ?thesis by (intro exI [of _ ?m]) (simp add: same_data_def)
qed

lemma unlink_middle_ok:
  assumes inv: "inv m U" and l: "list_inv m U l (ys @ x # z # zs) fr" and ne: "ys \<noteq> []"
  shows "\<exists>m'. unlink_middle e l x m = Some (x, m') \<and> list_inv m' U l (ys @ z # zs) fr \<and> inv m' U \<and> same_data m m'"
proof -
  note d = list_invD [OF l]
  let ?p = "last ys"
  have p: "?p \<in> set ys" using ne by simp
  have "chain (\<lambda>a. ln_next (lnodes m a)) (ln_next (lnodes m x)) (z # zs)"
    by (rule chain_suffix [OF d(2)])
  then have nxt: "ln_next (lnodes m x) = z" by simp
  have prv: "ln_prev (lnodes m x) = ?p"
    using d(3) back_links_append [of ys "x # z # zs"] ne by simp
  have u: "unat x \<in> U" "unat z \<in> U" "unat ?p \<in> U" using d(7) p by simp_all
  have ne': "?p \<noteq> x" "?p \<noteq> z" "x \<noteq> z" "x \<notin> set fr" "z \<notin> set fr" "?p \<notin> set fr" using d(6) p by auto
  note acc = inv_accessible [OF inv d(1)] inv_accessible [OF inv u(1)] inv_accessible [OF inv u(2)]
    inv_accessible [OF inv u(3)]
  let ?ln = "(lnodes m)(z := lnodes m z\<lparr>ln_prev := ?p\<rparr>, ?p := lnodes m ?p\<lparr>ln_next := z\<rparr>)"
  let ?m = "m\<lparr>lnodes := ?ln,
    lists := (lists m)(l := lists m l\<lparr>sl_size := sl_size (lists m l) - 1\<rparr>)\<rparr>"
  have nx: "(\<lambda>a. ln_next (?ln a)) = (\<lambda>a. ln_next (lnodes m a))(?p := z)"
    and pv: "(\<lambda>a. ln_prev (?ln a)) = (\<lambda>a. ln_prev (lnodes m a))(z := ?p)" using ne' by auto
  have c: "chain (\<lambda>a. ln_next (?ln a)) (sl_head (lists m l)) (ys @ z # zs)"
  proof -
    have "distinct (ys @ x # z # zs)" using d(6) by auto
    then show ?thesis using chain_unlink [OF d(2)] ne nxt unfolding nx by simp
  qed
  have f: "chain (\<lambda>a. ln_next (?ln a)) b fr = chain (\<lambda>a. ln_next (lnodes m a)) b fr" for b
    unfolding nx using ne' by (intro chain_update_other) auto
  have b: "back_links (\<lambda>a. ln_prev (?ln a)) (ys @ z # zs)"
  proof -
    have "distinct (ys @ x # z # zs)" using d(6) by auto
    then show ?thesis using back_links_join [OF d(3) ne] prv unfolding pv by simp
  qed
  have "list_inv ?m U l (ys @ z # zs) fr"
    using d c f b ne by (intro list_invI [where L = "lists m l\<lparr>sl_size := sl_size (lists m l) - 1\<rparr>"
      and ln = ?ln]) (simp_all del: fun_upd_apply chain.simps, simp_all)
  moreover have "inv ?m U" using inv inv_lists inv_lnodes by simp
  moreover have "unlink_middle e l x m = Some (x, ?m)"
    using acc nxt prv ne'
    by (simp add: unlink_middle_def dec_size_def load_list_def load_lnode_def upd_list_def upd_lnode_def)
  ultimately show ?thesis by (intro exI [of _ ?m]) (simp add: same_data_def)
qed

text \<open>Handing the unlinked node to the free list.\<close>

lemma release_node:
  assumes inv: "inv m U" and l: "list_inv m U l xs fr"
    and x: "x \<noteq> NULL" "x \<notin> set (xs @ fr)" "unat x \<in> U"
  shows "\<exists>m'. do {
         l' \<leftarrow> load_list e l m;
         m \<leftarrow> upd_list e l (sl_free_nodes_update (\<lambda>_. x)) m;
         m \<leftarrow> upd_lnode e x (ln_next_update (\<lambda>_. sl_free_nodes l')) m;
         m \<leftarrow> upd_list e l (\<lambda>l. l\<lparr>sl_capacity := sl_capacity l + 1\<rparr>) m;
         Some (SPR_OK, m) } = Some (SPR_OK, m') \<and>
    list_inv m' U l xs (x # fr) \<and> inv m' U \<and> same_data m m'"
proof -
  note d = list_invD [OF l]
  note acc = inv_accessible [OF inv d(1)] inv_accessible [OF inv x(3)]
  let ?ln = "(lnodes m)(x := lnodes m x\<lparr>ln_next := sl_free_nodes (lists m l)\<rparr>)"
  let ?L = "lists m l\<lparr>sl_free_nodes := x, sl_capacity := sl_capacity (lists m l) + 1\<rparr>"
  let ?m = "m\<lparr>lists := (lists m)(l := ?L), lnodes := ?ln\<rparr>"
  have nx: "(\<lambda>a. ln_next (?ln a)) = (\<lambda>a. ln_next (lnodes m a))(x := sl_free_nodes (lists m l))"
    and pv: "(\<lambda>a. ln_prev (?ln a)) = (\<lambda>a. ln_prev (lnodes m a))" by auto
  have c: "chain (\<lambda>a. ln_next (?ln a)) b xs = chain (\<lambda>a. ln_next (lnodes m a)) b xs"
    "chain (\<lambda>a. ln_next (?ln a)) b fr = chain (\<lambda>a. ln_next (lnodes m a)) b fr" for b
    unfolding nx using x(2) by (auto intro!: chain_update_other)
  then have "chain (\<lambda>a. ln_next (?ln a)) x (x # fr)" using d(5) x(1) by simp
  then have "list_inv ?m U l xs (x # fr)"
    using d c x by (intro list_invI [where L = ?L and ln = ?ln])
      (simp_all add: pv del: fun_upd_apply chain.simps, simp_all)
  moreover have "inv ?m U" using inv inv_lists inv_lnodes by simp
  ultimately show ?thesis
    using acc by (intro exI [of _ ?m]) (simp add: load_list_def upd_list_def upd_lnode_def same_data_def)
qed

lemma find_middle_eq:
  assumes inv: "inv m U" and ul: "unat l \<in> U"
    and c: "chain (\<lambda>a. ln_next (lnodes m a)) a (us @ [t])" "us \<noteq> []" "distinct (us @ [t])"
    and U: "\<forall>x \<in> set us. unat x \<in> U" and t: "sl_tail (lists m l) = t"
    and P: "tests test m P (set us)"
  shows "find_middle test e l a m = Some (find P us)"
  using c U P
proof (induction us arbitrary: a)
  case (Cons x us)
  have a: "a = x" "x \<noteq> NULL" using Cons.prems(1) by auto
  have acc: "accessible e (blocks m) x" "accessible e (blocks m) l"
    using Cons.prems(4) ul inv_accessible [OF inv] by auto
  have test: "test x m = Some (P x)" using Cons.prems(5) by (simp add: tests_def)
  show ?case
  proof (cases us)
    case Nil
    then have "ln_next (lnodes m x) = t" using Cons.prems(1) by auto
    then show ?thesis using acc test t a Nil
      by (subst find_middle.simps) (simp add: load_list_def load_lnode_def)
  next
    case (Cons y vs)
    have "ln_next (lnodes m x) = y" "y \<noteq> t"
      using Cons.prems(1,3) \<open>us = y # vs\<close> by auto
    moreover have "find_middle test e l (ln_next (lnodes m x)) m = Some (find P us)"
      using Cons.prems \<open>us = y # vs\<close> by (intro Cons.IH) (auto simp: tests_def)
    ultimately show ?thesis using acc test t a
      by (subst find_middle.simps) (simp add: load_list_def load_lnode_def)
  qed
qed simp

end
text \<open>The node the removal functions choose: the first if it passes the test, else the last if it
  does, else the first one between them that does.\<close>

definition victim :: "(addr \<Rightarrow> bool) \<Rightarrow> addr list \<Rightarrow> addr option" where
  "victim P xs = (if P (hd xs) then Some (hd xs) else if P (last xs) then Some (last xs)
     else find P xs)"

lemma two_or_more: "2 \<le> length xs \<Longrightarrow> \<exists>h us t. xs = h # us @ [t]"
  by (cases xs; cases "tl xs" rule: rev_cases) auto

lemma victim_middle:
  assumes "\<not> P h" "\<not> P t"
  shows "victim P (h # us @ [t]) = find P us"
  using assms by (simp add: victim_def find_append split: option.splits)

context region_allocator
begin

lemma remove_unfold:
  assumes inv: "inv m U" and l: "list_inv m U l (h # us @ [t]) fr"
    and P: "tests test m P (set (h # us @ [t]))"
  shows "remove_with test e l m =
     do { r \<leftarrow> (if P h then map_option Some (unlink_first e l m)
          else if P t then map_option Some (unlink_last e l m)
          else do {
            r \<leftarrow> find_middle test e l (ln_next (lnodes m h)) m;
            case r of None \<Rightarrow> Some None
            | Some temp1 \<Rightarrow> map_option Some (unlink_middle e l temp1 m) });
     case r of None \<Rightarrow> Some (SPR_NOT_FOUND, m)
     | Some (founded_node, m) \<Rightarrow> do {
         l' \<leftarrow> load_list e l m;
         m \<leftarrow> upd_list e l (sl_free_nodes_update (\<lambda>_. founded_node)) m;
         m \<leftarrow> upd_lnode e founded_node (ln_next_update (\<lambda>_. sl_free_nodes l')) m;
         m \<leftarrow> upd_list e l (\<lambda>l. l\<lparr>sl_capacity := sl_capacity l + 1\<rparr>) m;
         Some (SPR_OK, m) } }"
proof -
  note d = list_invD [OF l]
  have "sl_head (lists m l) = h" "sl_tail (lists m l) = t" using list_inv_head [OF l] d(4) by simp_all
  moreover have "load_list e l m = Some (lists m l)" "load_lnode e h m = Some (lnodes m h)"
    using d(1,7) inv_accessible [OF inv] by (simp_all add: load_list_def load_lnode_def)
  moreover have "test h m = Some (P h)" "test t m = Some (P t)" using P by (simp_all add: tests_def)
  ultimately show ?thesis by (simp add: remove_with_def)
qed

lemma remove_finish:
  assumes r: "f m = Some (x, m1)" and inv: "inv m1 U" and l: "list_inv m1 U l xs fr"
    and x: "x \<noteq> NULL" "x \<notin> set (xs @ fr)" "unat x \<in> U" and sd: "same_data m m1"
  shows "\<exists>m'. do { r \<leftarrow> map_option Some (f m);
     case r of None \<Rightarrow> Some (SPR_NOT_FOUND, m)
     | Some (founded_node, m) \<Rightarrow> do {
         l' \<leftarrow> load_list e l m;
         m \<leftarrow> upd_list e l (sl_free_nodes_update (\<lambda>_. founded_node)) m;
         m \<leftarrow> upd_lnode e founded_node (ln_next_update (\<lambda>_. sl_free_nodes l')) m;
         m \<leftarrow> upd_list e l (\<lambda>l. l\<lparr>sl_capacity := sl_capacity l + 1\<rparr>) m;
         Some (SPR_OK, m) } } = Some (SPR_OK, m') \<and>
    list_inv m' U l xs (x # fr) \<and> inv m' U \<and> same_data m m'"
  using release_node [OF inv l x] r sd by (auto simp: same_data_def)

lemma remove_found:
  assumes inv: "inv m U" and l: "list_inv m U l xs fr" and len: "2 \<le> length xs"
    and P: "tests test m P (set xs)" and v: "victim P xs = Some x"
  shows "\<exists>m'. remove_with test e l m = Some (SPR_OK, m') \<and>
    list_inv m' U l (remove1 x xs) (x # fr) \<and> inv m' U \<and> same_data m m'"
proof -
  obtain h us t where xs: "xs = h # us @ [t]" using two_or_more [OF len] by blast
  note l' = l [unfolded xs]
  note d = list_invD [OF l']
  note u = remove_unfold [OF inv l' P [unfolded xs]]
  have nz: "y \<noteq> NULL" if "y \<in> set xs" for y using chain_nonzero [OF d(2)] that xs by simp
  consider "P h" "x = h" | "\<not> P h" "P t" "x = t" | "\<not> P h" "\<not> P t" "find P us = Some x"
    using v xs victim_middle [of P h t us] by (auto simp: victim_def split: if_splits)
  then show ?thesis
  proof cases
    case 1
    obtain y zs where yz: "us @ [t] = y # zs" by (cases us) auto
    obtain m1 where m1: "unlink_first e l m = Some (h, m1)" "list_inv m1 U l (us @ [t]) fr" "inv m1 U"
      "same_data m m1"
      using unlink_first_ok [OF inv l' [unfolded yz]] yz by auto
    have "remove1 x xs = us @ [t]" using 1 xs by simp
    then show ?thesis
      using u 1 remove_finish [where f = "unlink_first e l", OF m1(1,3,2) _ _ _ m1(4)] nz [of h] d(6,7) xs
      by simp
  next
    case 2
    obtain ys y where yz: "h # us = ys @ [y]" by (metis list.distinct(1) rev_exhaust)
    then have xs': "h # us @ [t] = ys @ [y, t]" by (metis append.assoc append_Cons append_Nil)
    obtain m1 where m1: "unlink_last e l m = Some (t, m1)" "list_inv m1 U l (h # us) fr" "inv m1 U"
      "same_data m m1"
      using unlink_last_ok [OF inv l' [unfolded xs']] yz by auto
    have "t \<notin> set (h # us)" using d(6) by auto
    then have "remove1 x xs = h # us" using 2 xs by (simp add: remove1_append)
    moreover have "t \<notin> set ((h # us) @ fr)" using d(6) by auto
    ultimately show ?thesis
      using u 2 remove_finish [where f = "unlink_last e l", OF m1(1,3,2) _ _ _ m1(4)] nz [of t] d(7) xs
      by simp
  next
    case 3
    have x: "x \<in> set us" using find_SomeD [OF 3(3)] by simp
    obtain pre post where split: "us = pre @ x # post" using x by (auto dest: split_list)
    obtain z zs where yz: "post @ [t] = z # zs" by (cases post) auto
    have xs': "h # us @ [t] = (h # pre) @ x # z # zs" using split yz by simp
    have c: "chain (\<lambda>a. ln_next (lnodes m a)) (ln_next (lnodes m h)) (us @ [t])" "us \<noteq> []"
      "distinct (us @ [t])" "\<forall>x \<in> set us. unat x \<in> U" "sl_tail (lists m l) = t" "tests test m P (set us)"
      using d(2,4,6,7) x P xs by (auto simp: tests_def)
    have fm: "find_middle test e l (ln_next (lnodes m h)) m = Some (Some x)"
      using find_middle_eq [OF inv d(1) c] 3(3) by simp
    obtain m1 where m1: "unlink_middle e l x m = Some (x, m1)"
      "list_inv m1 U l ((h # pre) @ z # zs) fr" "inv m1 U" "same_data m m1"
      using unlink_middle_ok [OF inv l' [unfolded xs']] by auto
    have dx: "distinct (((h # pre) @ x # z # zs) @ fr)" using d(6) xs' by (simp only:)
    then have "remove1 x xs = (h # pre) @ z # zs" using xs xs' by (auto simp: remove1_append)
    moreover have "x \<notin> set (((h # pre) @ z # zs) @ fr)" using dx by auto
    moreover have "unat x \<in> U" "x \<noteq> NULL" using x d(7) nz xs by auto
    ultimately show ?thesis
      using u 3(1,2) fm remove_finish [where f = "unlink_middle e l x", OF m1(1,3,2) _ _ _ m1(4)]
      by simp
  qed
qed

lemma remove_not_found:
  assumes inv: "inv m U" and l: "list_inv m U l xs fr" and len: "3 \<le> length xs"
    and P: "tests test m P (set xs)" and v: "\<forall>x \<in> set xs. \<not> P x"
  shows "remove_with test e l m = Some (SPR_NOT_FOUND, m)"
proof -
  obtain h us t where xs: "xs = h # us @ [t]" using two_or_more [of xs] len by auto
  note l' = l [unfolded xs]
  note d = list_invD [OF l']
  have c: "chain (\<lambda>a. ln_next (lnodes m a)) (ln_next (lnodes m h)) (us @ [t])" "us \<noteq> []"
    "distinct (us @ [t])" "\<forall>x \<in> set us. unat x \<in> U" "sl_tail (lists m l) = t" "tests test m P (set us)"
    using d(2,4,6,7) P xs len by (auto simp: tests_def)
  have "find P us = None" using v xs by (simp add: find_None_iff)
  then show ?thesis
    using remove_unfold [OF inv l' P [unfolded xs]] find_middle_eq [OF inv d(1) c] v xs by simp
qed

text \<open>With fewer than three nodes a search without success runs off the end of the list.\<close>

lemma remove_not_found_short:
  assumes inv: "inv m U" and l: "list_inv m U l xs fr" and len: "length xs \<le> 2"
    and P: "tests test m P (set xs)" and v: "\<forall>x \<in> set xs. \<not> P x"
    and null: "test NULL m = None \<or> test NULL m = Some False"
  shows "remove_with test e l m = None"
proof -
  note d = list_invD [OF l]
  have acc: "accessible e (blocks m) l" "\<forall>x \<in> set xs. accessible e (blocks m) x"
    using d(1,7) inv_accessible [OF inv] by auto
  have nul: "find_middle test e l NULL m = None"
    using null by (subst find_middle.simps) (auto simp: load_lnode_def accessible_def)
  consider "xs = []" | x where "xs = [x]" | x y where "xs = [x, y]"
    using len by (cases xs; cases "tl xs"; cases "tl (tl xs)") auto
  then show ?thesis
  proof cases
    case 1
    then have "sl_head (lists m l) = NULL" "sl_tail (lists m l) = NULL" using d(2,4) by simp_all
    then show ?thesis using null acc
      by (auto simp: remove_with_def load_list_def load_lnode_def accessible_def)
  next
    case (2 x)
    then have h: "sl_head (lists m l) = x" "sl_tail (lists m l) = x" "ln_next (lnodes m x) = NULL"
      using d(2,4) by auto
    then show ?thesis using acc v nul P 2
      by (simp add: remove_with_def load_list_def load_lnode_def tests_def)
  next
    case (3 x y)
    then have h: "sl_head (lists m l) = x" "sl_tail (lists m l) = y" "ln_next (lnodes m x) = y"
      "ln_next (lnodes m y) = NULL" "y \<noteq> NULL" using d(2,4) by auto
    have "find_middle test e l y m = None"
      using acc v nul P 3 h by (subst find_middle.simps) (simp add: tests_def load_list_def load_lnode_def)
    then show ?thesis using acc v P 3 h
      by (simp add: remove_with_def load_list_def load_lnode_def tests_def)
  qed
qed

end
section \<open>Reserving, clearing, and the last node\<close>

context region_allocator
begin

lemma reserve_ok:
  assumes inv: "inv m U" and l: "list_inv m U l xs fr" and A: "A (sl_pool (lists m l)) = alloc"
    and n: "0 < unat n" "24 * unat n < 2 ^ 64" "request (24 * n)"
  shows "\<exists>err m'. reserve_with A e l n m = Some (err, m') \<and>
    (err \<noteq> 0 \<and> inv m' U \<and> list_inv m' U l xs fr \<and> contents m' xs = contents m xs \<or>
     err = SPR_OK \<and> (\<exists>U' ns. U \<subseteq> U' \<and> inv m' U' \<and> length ns = unat n \<and>
       list_inv m' U' l xs (ns @ fr) \<and> contents m' xs = contents m xs))"
proof -
  note d = list_invD [OF l]
  note accl = inv_accessible [OF inv d(1)]
  have sz: "sizeof_list_node * n = 24 * n" "unat (24 * n) = 24 * unat n"
    using n(2) by (simp_all add: sizeof_list_node_def unat_mult_exact)
  from inv n(3) show ?thesis
  proof (cases rule: alloc_cases)
    case (fail m')
    have same: "lists m' l = lists m l" "\<forall>x \<in> set (xs @ fr). lnodes m' x = lnodes m x"
      using fail(2) by (simp_all add: same_client_memory_def)
    show ?thesis using list_inv_region [OF l subset_refl same] accl fail(1,3,4) A sz
      by (simp add: reserve_with_def load_list_def)
  next
    case (ok a m' U')
    have same: "lists m' = lists m" "lnodes m' = lnodes m"
      using ok(2) by (simp_all add: same_client_memory_def)
    have sub: "region a (24 * n) \<subseteq> U'" "U \<subseteq> U'" using ok(7) by simp_all
    note fn = fresh_nodes [OF ok(6) sub(1) sz(2) n(1)]
    have nodes: "\<forall>i<unat n. accessible e (blocks m') (node_at a i) \<and> unat (node_at a i) \<in> U' - U"
      using fn(1,2) sub(1) ok(5) by blast
    have accl': "accessible e (blocks m') l" using d(1) sub(2) by (intro inv_accessible [OF ok(6)]) auto
    from l same sub(2) accl' nodes fn(3) show ?thesis
    proof (cases rule: add_free_fresh)
      case (added fl ln)
      let ?ns = "rev (map (node_at a) [0..<unat n])"
      let ?m2 = "m'\<lparr>lists := (lists m)(l := lists m l\<lparr>sl_free_nodes := fl,
        sl_capacity := sl_capacity (lists m l) + n\<rparr>), lnodes := ln\<rparr>"
      have "reserve_with A e l n m = Some (SPR_OK, ?m2)"
        using accl accl' ok(1,3) A sz added(1) by (simp add: reserve_with_def load_list_def upd_list_def)
      moreover have "inv ?m2 U'" "contents ?m2 xs = contents m xs"
        using ok(6) inv_lists inv_lnodes added(3) by (simp_all add: contents_def)
      moreover have "list_inv ?m2 U' l xs (?ns @ fr)" "length ?ns = unat n" using added(2) by simp_all
      ultimately show ?thesis
        using sub(2) by (intro exI [of _ SPR_OK] exI [of _ ?m2]) (auto intro!: exI [of _ U'] exI [of _ ?ns])
    qed
  qed
qed

lemma clear_loop_noop:
  assumes inv: "inv m U" and l: "list_inv m U l xs fr" and len: "3 \<le> length xs"
    and nodata: "\<forall>x \<in> set xs. x \<notin> set (contents m xs)"
    and c: "chain (\<lambda>a. ln_next (lnodes m a)) a ys" "set ys \<subseteq> set xs"
  shows "clear_loop e l a m = Some m"
  using c
proof (induction ys arbitrary: a)
  case Nil
  then show ?case by (simp add: clear_loop.simps)
next
  case (Cons y ys)
  note d = list_invD [OF l]
  have acc: "accessible e (blocks m) x" if "x \<in> set xs" for x
    using d(7) that by (intro inv_accessible [OF inv]) simp
  have "tests (has_data e y) m (\<lambda>a. ln_data (lnodes m a) = y) (set xs)"
    using acc by (simp add: tests_def has_data_def load_lnode_def)
  moreover have "\<forall>x \<in> set xs. ln_data (lnodes m x) \<noteq> y"
    using nodata Cons.prems(2) by (auto simp: contents_def)
  ultimately have "spr_list_remove e l y m = Some (SPR_NOT_FOUND, m)"
    unfolding spr_list_remove_def by (rule remove_not_found [OF inv l len])
  then show ?case using Cons acc [of y]
    by (subst clear_loop.simps) (simp add: load_lnode_def)
qed

lemma remove_last_then_push:
  assumes inv: "inv m U" and l: "list_inv m U l [x] fr" and P: "test x m = Some True"
  shows "\<exists>m' m''. remove_with test e l m = Some (SPR_OK, m') \<and>
    push_back_with A e l data m' = Some (SPR_OK, m'') \<and>
    sl_head (lists m'' l) = NULL \<and> sl_size (lists m'' l) = 1 \<and> ln_next (lnodes m'' x) = x"
proof -
  note d = list_invD [OF l]
  have h: "sl_head (lists m l) = x" "sl_tail (lists m l) = x" "ln_next (lnodes m x) = NULL" "x \<noteq> NULL"
    using d(2,4) by auto
  have acc: "accessible e (blocks m) l" "accessible e (blocks m) x"
    using d(1,7) inv_accessible [OF inv] by auto
  let ?f = "sl_free_nodes (lists m l)"
  let ?m' = "m\<lparr>lists := (lists m)(l := lists m l\<lparr>sl_head := NULL, sl_size := 0, sl_free_nodes := x,
      sl_capacity := sl_capacity (lists m l) + 1\<rparr>),
    lnodes := (lnodes m)(x := lnodes m x\<lparr>ln_next := ?f\<rparr>)\<rparr>"
  have rm: "remove_with test e l m = Some (SPR_OK, ?m')"
    using acc h P d(8)
    by (simp add: remove_with_def unlink_first_def dec_size_def load_list_def load_lnode_def
      upd_list_def upd_lnode_def)
  have "\<exists>m''. push_back_with A e l data ?m' = Some (SPR_OK, m'') \<and>
    sl_head (lists m'' l) = NULL \<and> sl_size (lists m'' l) = 1 \<and> ln_next (lnodes m'' x) = x"
    using acc h
    by (simp add: push_back_with_def take_node_def load_list_def load_lnode_def upd_list_def upd_lnode_def)
  then show ?thesis using rm by blast
qed

end

end
