(* ===== verification/Spr_List_Props.thy ===== *)
theory Spr_List_Props
  imports Spr_List_Lemmas
begin

text \<open>
  The properties of \<^verbatim>\<open>lib/spr_list.c\<close>.
\<close>

section \<open>Lists in a pool\<close>


text \<open>Samples: an empty list, and lists with three nodes and with one, at addresses the sample
  pool has handed out; node 4500 is reserved.\<close>

definition sample_used :: "nat set" where "sample_used = {4400..<4600}"

definition list_mem :: "addr list \<Rightarrow> addr list \<Rightarrow> mem" where
  "list_mem xs fr = sample_mem\<lparr>
     mnodes := (mnodes sample_mem)(4096 := taken (mnodes sample_mem 4096) 200),
     lists := (lists sample_mem)(4400 := \<lparr>sl_pool = sample_pool,
       sl_head = (case xs of [] \<Rightarrow> NULL | x # _ \<Rightarrow> x), sl_tail = (if xs = [] then NULL else last xs),
       sl_free_nodes = (case fr of [] \<Rightarrow> NULL | x # _ \<Rightarrow> x),
       sl_size = of_nat (length xs), sl_capacity = of_nat (length fr)\<rparr>),
     lnodes := (\<lambda>_. zero_list_node)(
       4450 := \<lparr>ln_next = (if 1 < length xs then 4474 else NULL), ln_prev = NULL, ln_data = 1\<rparr>,
       4474 := \<lparr>ln_next = 4498, ln_prev = 4450, ln_data = 2\<rparr>,
       4498 := \<lparr>ln_next = NULL, ln_prev = 4474, ln_data = 3\<rparr>)\<rparr>"

lemma list_mem_pool: "pool_uses sample_env sample_pool (list_mem xs fr) sample_used"
proof -
  let ?m = "sample_mem\<lparr>mnodes := (mnodes sample_mem)(4096 := taken (mnodes sample_mem 4096) 200)\<rparr>"
  have nodes: "set (all_nodes sample_slots) = {4096}"
    by (auto simp: set_all_nodes sample_slots_def SPR_MAX_POOL_SLOT_def)
  have "hands_out sample_env sample_pool 200 sample_mem sample_slots
      (mn_first_avail (mnodes sample_mem 4096)) ?m sample_slots"
    using sample_inv(1) unfolding pool_inv_def
    by (intro take_hands_out) (auto simp: nodes sample_fields)
  then have h: "hands_out sample_env sample_pool 200 sample_mem sample_slots 4400 ?m sample_slots"
    by (simp add: sample_fields)
  have "pool_inv sample_env ?m sample_pool sample_slots [] []"
    by (rule hands_out_inv [OF sample_inv(1) h])
  moreover have "used_by ?m sample_slots = sample_used"
    using h sample_inv(2) by (simp add: hands_out_def sample_used_def)
  ultimately show ?thesis
    unfolding pool_uses_def list_mem_def
    by (intro exI [of _ sample_slots] exI [of _ "[]"]) (simp add: spr_frame)
qed

lemma list_mem_lists:
  "list_inv (list_mem [] [4500]) sample_used 4400 [] [4500]"
  "list_inv (list_mem [4450] []) sample_used 4400 [4450] []"
  "list_inv (list_mem [4450, 4474, 4498] []) sample_used 4400 [4450, 4474, 4498] []"
  "sl_pool (lists (list_mem xs fr) 4400) = sample_pool"
  by (simp_all add: list_inv_def list_mem_def sample_used_def zero_list_node_def)

lemma find_self: "x \<in> set xs \<Longrightarrow> find (\<lambda>a. a = x) xs = Some x"
  by (induction xs) auto

section \<open>The properties\<close>

text \<open>\<^verbatim>\<open>spr_list_create\<close> returns null or a list without nodes: head, tail and free list are
  null, both counters are zero, and the list belongs to the pool.\<close>

theorem list_create_empty:
  assumes "pool_inv e m pool S cl fr"
  shows "\<exists>l m'. spr_list_create e pool m = Some (l, m') \<and>
    (l = NULL \<or> region l sizeof_list \<inter> used_by m S = {} \<and>
      list_inv m' (region l sizeof_list) l [] [] \<and> sl_pool (lists m' l) = pool)"
proof -
  have "small_request e sizeof_list"
    using assms by (simp add: pool_inv_def page_ok_def small_request_def round_up_def sizeof_list_def)
  then obtain a m' S' where a: "spr_palloc e pool sizeof_list m = Some (a, m')"
    "a = NULL \<and> errno m' = ENOMEM \<or> a \<noteq> NULL \<and> region a sizeof_list \<inter> used_by m S = {} \<and>
      pool_inv e m' pool S' cl fr \<and> region a sizeof_list \<subseteq> used_by m' S'"
    using palloc_region [OF assms, of sizeof_list] by blast
  show ?thesis
  proof (cases "a = NULL")
    case True
    then show ?thesis using a by (simp add: spr_list_create_def spr_list_create1_def spr_pcalloc_def
      ENOMEM_def SPR_OK_def)
  next
    case False
    have ina: "in_range a sizeof_list a" "unat a \<in> region a sizeof_list"
      by (simp_all add: in_range_def sizeof_list_def region_def)
    then have "unat a \<in> used_by m' S'" using a False by blast
    then have acc: "accessible e (blocks m') a"
      using a False by (auto simp: pool_inv_def intro: used_accessible)
    show ?thesis
      using a False acc ina
      by (auto simp: spr_list_create_def spr_list_create1_def spr_pcalloc_def upd_list_def
        list_inv_def memzero_inside zero_slist_def)
  qed
qed

theorem list_create_empty_witness:
  "\<exists>l m'. spr_list_create sample_env sample_pool sample_mem = Some (l, m') \<and>
    (l = NULL \<or> sl_size (lists m' l) = 0)"
  using list_create_empty [OF sample_inv(1)] by (fastforce simp: list_inv_def)





text \<open>\<^verbatim>\<open>spr_list_push_front\<close> on an empty list does not set the link of the new node: with
  reserved nodes, following the links from the head visits the new node and then every free
  node, although the size is one.\<close>

theorem list_push_front_empty_runs_into_free:
  assumes "pool_uses e pool m U" "list_inv m U l [] (n # fr)"
  shows "\<exists>m'. spr_list_push_front e l data m = Some (SPR_OK, m') \<and> sl_size (lists m' l) = 1 \<and>
    sl_free_nodes (lists m' l) = ln_next (lnodes m' n) \<and>
    chain (\<lambda>a. ln_next (lnodes m' a)) (sl_head (lists m' l)) (n # fr)"
  unfolding spr_list_push_front_def using assms by (rule palloc.push_front_empty)

theorem list_push_front_empty_runs_into_free_witness:
  "\<exists>m'. spr_list_push_front sample_env 4400 9 (list_mem [] [4500]) = Some (SPR_OK, m') \<and>
    sl_size (lists m' 4400) = 1"
  using list_push_front_empty_runs_into_free [OF list_mem_pool list_mem_lists(1), of 9] by blast

text \<open>C7: \<^verbatim>\<open>spr_list_remove\<close> and \<^verbatim>\<open>spr_list_remove1\<close> on a good list of at least two nodes take out
  the first node if it matches, else the last if it matches, else the first match between
  them; the other nodes keep their order and data, the node is the next to be reused, and list
  and pool stay good.\<close>

theorem list_remove_takes_victim:
  assumes "pool_uses e pool m U" "list_inv m U l xs fr" "2 \<le> length xs"
  shows "(victim (\<lambda>a. ln_data (lnodes m a) = data) xs = Some x \<longrightarrow>
      (\<exists>m'. spr_list_remove e l data m = Some (SPR_OK, m') \<and> pool_uses e pool m' U \<and>
        list_inv m' U l (remove1 x xs) (x # fr) \<and>
        contents m' (remove1 x xs) = contents m (remove1 x xs))) \<and>
    (node \<in> set xs \<longrightarrow>
      (\<exists>m'. spr_list_remove1 e l node m = Some (SPR_OK, m') \<and> pool_uses e pool m' U \<and>
        list_inv m' U l (remove1 node xs) (node # fr) \<and>
        contents m' (remove1 node xs) = contents m (remove1 node xs)))"
proof (intro conjI impI)
  have acc: "accessible e (blocks m) a" if "a \<in> set xs" for a
    using palloc.inv_accessible [OF assms(1)] assms(2) that by (auto simp: list_inv_def)
  then have t: "tests (has_data e data) m (\<lambda>a. ln_data (lnodes m a) = data) (set xs)"
    by (simp add: tests_def has_data_def load_lnode_def)
  assume "victim (\<lambda>a. ln_data (lnodes m a) = data) xs = Some x"
  from palloc.remove_found [OF assms t this] same_data_contents
  show "\<exists>m'. spr_list_remove e l data m = Some (SPR_OK, m') \<and> pool_uses e pool m' U \<and>
      list_inv m' U l (remove1 x xs) (x # fr) \<and>
      contents m' (remove1 x xs) = contents m (remove1 x xs)"
    unfolding spr_list_remove_def by blast
next
  have t: "tests (is_node node) m (\<lambda>a. a = node) (set xs)" by (simp add: tests_def is_node_def)
  assume "node \<in> set xs"
  then have "victim (\<lambda>a. a = node) xs = Some node"
    by (simp add: victim_def find_self)
  from palloc.remove_found [OF assms t this] same_data_contents
  show "\<exists>m'. spr_list_remove1 e l node m = Some (SPR_OK, m') \<and> pool_uses e pool m' U \<and>
      list_inv m' U l (remove1 node xs) (node # fr) \<and>
      contents m' (remove1 node xs) = contents m (remove1 node xs)"
    unfolding spr_list_remove1_def by blast
qed

theorem list_remove_takes_victim_witness:
  "\<exists>m'. spr_list_remove1 sample_env 4400 4474 (list_mem [4450, 4474, 4498] []) = Some (SPR_OK, m') \<and>
    list_inv m' sample_used 4400 [4450, 4498] [4474]"
  using list_remove_takes_victim [OF list_mem_pool list_mem_lists(3), of 0 0 4474] by auto
text \<open>A removal that finds nothing returns \<^verbatim>\<open>SPR_NOT_FOUND\<close> and changes nothing in a list of
  three or more nodes, but in a shorter list, the empty one included, it dereferences null.\<close>

theorem list_remove_not_found:
  assumes "pool_uses e pool m U" "list_inv m U l xs fr"
    and "data \<notin> set (contents m xs)" "node \<notin> set xs" "node \<noteq> NULL"
  shows "spr_list_remove e l data m =
      (if 3 \<le> length xs then Some (SPR_NOT_FOUND, m) else None) \<and>
    spr_list_remove1 e l node m = (if 3 \<le> length xs then Some (SPR_NOT_FOUND, m) else None)"
proof -
  have acc: "accessible e (blocks m) a" if "a \<in> set xs" for a
    using palloc.inv_accessible [OF assms(1)] assms(2) that by (auto simp: list_inv_def)
  then have t: "tests (has_data e data) m (\<lambda>a. ln_data (lnodes m a) = data) (set xs)"
    "tests (is_node node) m (\<lambda>a. a = node) (set xs)"
    by (simp_all add: tests_def has_data_def is_node_def load_lnode_def)
  have no: "\<forall>x \<in> set xs. ln_data (lnodes m x) \<noteq> data" "\<forall>x \<in> set xs. x \<noteq> node"
    using assms(3,4) by (auto simp: contents_def)
  have null: "has_data e data NULL m = None" "is_node node NULL m = Some False"
    using assms(5) by (simp_all add: has_data_def is_node_def load_lnode_def accessible_def)
  show ?thesis
    unfolding spr_list_remove_def spr_list_remove1_def
    using palloc.remove_not_found [OF assms(1,2) _ t(1) no(1)]
      palloc.remove_not_found [OF assms(1,2) _ t(2) no(2)]
      palloc.remove_not_found_short [OF assms(1,2) _ t(1) no(1)]
      palloc.remove_not_found_short [OF assms(1,2) _ t(2) no(2)] null
    by (simp add: not_le)
qed

theorem list_remove_not_found_witness:
  "spr_list_remove sample_env 4400 99 (list_mem [4450] []) = None \<and>
   spr_list_remove sample_env 4400 99 (list_mem [4450, 4474, 4498] [])
     = Some (SPR_NOT_FOUND, list_mem [4450, 4474, 4498] [])"
  using list_remove_not_found [OF list_mem_pool list_mem_lists(2), of 99 99]
    list_remove_not_found [OF list_mem_pool list_mem_lists(3), of 99 99]
  by (simp add: contents_def list_mem_def)

text \<open>\<^verbatim>\<open>spr_list_clear\<close> searches for the nodes as if they were data: on a list of at least
  three nodes none of whose data is the address of a node it removes nothing.\<close>

theorem list_clear_removes_nothing:
  assumes "pool_uses e pool m U" "list_inv m U l xs fr" "3 \<le> length xs"
    and "\<forall>x \<in> set xs. x \<notin> set (contents m xs)"
  shows "spr_list_clear e l m = Some m"
proof -
  have "accessible e (blocks m) l"
    using palloc.inv_accessible [OF assms(1)] assms(2) by (auto simp: list_inv_def)
  then show ?thesis
    using palloc.clear_loop_noop [OF assms list_invD(2) [OF assms(2)] subset_refl]
    by (simp add: spr_list_clear_def load_list_def)
qed

theorem list_clear_removes_nothing_witness:
  "spr_list_clear sample_env 4400 (list_mem [4450, 4474, 4498] []) =
    Some (list_mem [4450, 4474, 4498] [])"
  using list_clear_removes_nothing [OF list_mem_pool list_mem_lists(3)]
  by (simp add: contents_def list_mem_def)

text \<open>C39: Removing the only node leaves the tail pointing at it: the next \<^verbatim>\<open>spr_list_push_back\<close>
  reuses this very node, links it to itself and loses it; the head stays null although the
  size is one.\<close>

theorem list_push_after_removing_last_is_lost:
  assumes "pool_uses e pool m U" "list_inv m U l [x] fr"
  shows "\<exists>m' m''. spr_list_remove1 e l x m = Some (SPR_OK, m') \<and>
    spr_list_push_back e l data m' = Some (SPR_OK, m'') \<and>
    sl_head (lists m'' l) = NULL \<and> sl_size (lists m'' l) = 1 \<and> ln_next (lnodes m'' x) = x"
  unfolding spr_list_remove1_def spr_list_push_back_def
  using assms by (intro palloc.remove_last_then_push) (simp_all add: is_node_def)

theorem list_push_after_removing_last_is_lost_witness:
  "\<exists>m' m''. spr_list_remove1 sample_env 4400 4450 (list_mem [4450] []) = Some (SPR_OK, m') \<and>
    spr_list_push_back sample_env 4400 9 m' = Some (SPR_OK, m'') \<and>
    sl_head (lists m'' 4400) = NULL"
  using list_push_after_removing_last_is_lost [OF list_mem_pool list_mem_lists(2), of 9] by blast

text \<open>\<^verbatim>\<open>spr_list_reserve\<close> puts n new nodes in front of the free nodes and leaves the list's
  contents alone, or fails and changes nothing.\<close>

theorem list_reserve_adds_free_nodes:
  assumes "pool_uses e pool m U" "list_inv m U l xs fr" "sl_pool (lists m l) = pool"
    and "0 < unat n" "24 * unat n < 2 ^ 64" "small_request e (24 * n)"
  shows "\<exists>err m'. spr_list_reserve e l n m = Some (err, m') \<and>
    (err \<noteq> 0 \<and> pool_uses e pool m' U \<and> list_inv m' U l xs fr \<and> contents m' xs = contents m xs \<or>
     err = SPR_OK \<and> (\<exists>U' ns. U \<subseteq> U' \<and> pool_uses e pool m' U' \<and> length ns = unat n \<and>
       list_inv m' U' l xs (ns @ fr) \<and> contents m' xs = contents m xs))"
  unfolding spr_list_reserve_def using assms by (intro palloc.reserve_ok) simp_all

theorem list_reserve_adds_free_nodes_witness:
  "\<exists>err m'. spr_list_reserve sample_env 4400 5 (list_mem [4450] []) = Some (err, m')"
  using list_reserve_adds_free_nodes [OF list_mem_pool list_mem_lists(2,4), of 5]
  by (auto simp: sample_small round_up_def)

section \<open>Walking through a list\<close>

lemma chain_nth:
  "chain nx a xs \<Longrightarrow> i < length xs \<Longrightarrow> nx (xs ! i) = (if Suc i < length xs then xs ! Suc i else NULL)"
proof (induction xs arbitrary: a i)
  case (Cons x xs)
  then show ?case by (cases i; cases xs) auto
qed simp

lemma back_links_nth: "back_links pv xs \<Longrightarrow> Suc i < length xs \<Longrightarrow> pv (xs ! Suc i) = xs ! i"
proof (induction pv xs arbitrary: i rule: back_links.induct)
  case (1 pv x y zs)
  then show ?case by (cases i) auto
qed simp_all

text \<open>The macros of a good list lead through its nodes: from the first to the last by
  \<open>spr_list_next\<close>, which ends with null, and back by \<open>spr_list_prev\<close>; the first node has
  no defined predecessor. Size and capacity count the nodes and the free nodes.\<close>

theorem list_macros_walk:
  assumes "pool_uses e pool m U" "list_inv m U l xs fr"
  shows "spr_list_first e l m = Some (if xs = [] then NULL else hd xs) \<and>
    spr_list_last e l m = Some (if xs = [] then NULL else last xs) \<and>
    spr_list_size e l m = Some (of_nat (length xs)) \<and> spr_list_capacity e l m = Some (of_nat (length fr)) \<and>
    (\<forall>i < length xs. spr_list_data e (xs ! i) m = Some (contents m xs ! i) \<and>
      spr_list_next e (xs ! i) m = Some (if Suc i < length xs then xs ! Suc i else NULL) \<and>
      (Suc i < length xs \<longrightarrow> spr_list_prev e (xs ! Suc i) m = Some (xs ! i)))"
proof -
  note d = assms(2) [unfolded list_inv_def]
  have "accessible e (blocks m) l" and acc: "\<forall>x \<in> set xs. accessible e (blocks m) x"
    using d palloc.inv_accessible [OF assms(1)] by auto
  moreover have "sl_head (lists m l) = (if xs = [] then NULL else hd xs)"
    using d by (cases xs) auto
  moreover have "ln_next (lnodes m (xs ! i)) = (if Suc i < length xs then xs ! Suc i else NULL)"
    if "i < length xs" for i using chain_nth [OF _ that] d by blast
  moreover have "ln_prev (lnodes m (xs ! Suc i)) = xs ! i" if "Suc i < length xs" for i
    using back_links_nth [OF _ that] d by blast
  ultimately show ?thesis
    using d by (simp add: spr_list_first_def spr_list_last_def spr_list_size_def spr_list_capacity_def
      spr_list_data_def spr_list_next_def spr_list_prev_def load_list_def load_lnode_def contents_def)
qed

theorem list_macros_walk_witness:
  "spr_list_first sample_env 4400 (list_mem [4450, 4474, 4498] []) = Some 4450 \<and>
   spr_list_next sample_env 4474 (list_mem [4450, 4474, 4498] []) = Some 4498"
  using list_macros_walk [OF list_mem_pool list_mem_lists(3)] by fastforce

end
