(* ===== verification/Spr_Errno.thy ===== *)
theory Spr_Errno
  imports Spr_String_Props
begin

text \<open>
  \<^verbatim>\<open>lib/spr_errno.c\<close> and \<^verbatim>\<open>lib/spr_dso.c\<close>: the messages of the library's own codes, the copy of a
  message into the caller's buffer, and on Windows the trimming of the system's text. The text the
  system has for its codes is a parameter.
\<close>

definition SPR_ERR_UNKNOW :: err where "SPR_ERR_UNKNOW = 2147483647"

definition error_list :: "(err \<times> string) list" where
  "error_list = [
     (SPR_OK, ''OK''),
     (SPR_FAILED, ''Internal error''),
     (SPR_BUSY, ''Resource is busy''),
     (SPR_DONE, ''Operation is done''),
     (SPR_ABORT, ''Operation aborted''),
     (SPR_DECLINED, ''Operation declined''),
     (SPR_NOT_FOUND, ''Resource not found''),
     (SPR_ERR_FILESYS_ABS_PATH, ''Specified path is not absolute''),
     (SPR_ERR_FILESYS_LONG_PATH, ''Result path is too long''),
     (SPR_ERR_UNKNOW, ''Unknown error code'')]"

definition char_byte :: "char \<Rightarrow> byte" where
  "char_byte c = of_nat (of_char c)"

text \<open>Copying the first n bytes of a constant text, which ends in a zero, into memory.\<close>

definition copy_text :: "env \<Rightarrow> addr \<Rightarrow> byte list \<Rightarrow> nat \<Rightarrow> mem \<Rightarrow> mem option" where
  "copy_text e buf text n m =
     (if n \<le> Suc (length text) \<and> list_all (\<lambda>k. accessible e (blocks m) (buf + of_nat k)) [0..<n]
      then Some (m\<lparr>bytes := (\<lambda>x. if unat (x - buf) < n then (text @ [0]) ! unat (x - buf)
        else bytes m x)\<rparr>)
      else None)"

text \<open>The common end of \<^verbatim>\<open>spr_os_strerror\<close> and \<^verbatim>\<open>spr_strerror\<close>.\<close>

definition put_message :: "env \<Rightarrow> byte list \<Rightarrow> addr \<Rightarrow> size \<Rightarrow> mem \<Rightarrow> mem option" where
  "put_message e text buf bufsize m =
     (if length text < unat bufsize then do {
        m \<leftarrow> copy_text e buf text (length text) m;
        store_byte e (buf + of_nat (length text)) 0 m }
      else do {
        m \<leftarrow> copy_text e buf text (unat bufsize) m;
        store_byte e (buf + (bufsize - 1)) 0 m })"

definition spr_os_strerror ::
  "(err \<Rightarrow> byte list) \<Rightarrow> env \<Rightarrow> err \<Rightarrow> addr \<Rightarrow> size \<Rightarrow> mem \<Rightarrow> (addr \<times> mem) option" where
  "spr_os_strerror strerror e err buf bufsize m = do {
     m \<leftarrow> put_message e (strerror err) buf bufsize m;
     Some (buf, m) }"

text \<open>The \<^verbatim>\<open>for\<close> loop over the table, which ends at the code \<^verbatim>\<open>SPR_ERR_UNKNOW\<close> at the latest;
  running off the table would be undefined.\<close>

fun lookup_message :: "err \<Rightarrow> (err \<times> string) list \<Rightarrow> string option" where
  "lookup_message err [] = None"
| "lookup_message err ((code, message) # rest) =
     (if code = err \<or> code = SPR_ERR_UNKNOW then Some message else lookup_message err rest)"

definition spr_strerror ::
  "(err \<Rightarrow> byte list) \<Rightarrow> env \<Rightarrow> err \<Rightarrow> addr \<Rightarrow> size \<Rightarrow> mem \<Rightarrow> (addr \<times> mem) option" where
  "spr_strerror strerror e err buf bufsize m =
     (if 0 < err \<and> err < SPR_ERROR_DOMAIN_BASE then spr_os_strerror strerror e err buf bufsize m
      else do {
        message \<leftarrow> lookup_message err error_list;
        m \<leftarrow> put_message e (map char_byte message) buf bufsize m;
        Some (buf, m) })"

section \<open>Properties\<close>

lemma copy_text_ok:
  assumes "n \<le> length text" "n < 2 ^ 64" "\<forall>k<n. accessible e (blocks m) (buf + of_nat k)"
  shows "\<exists>m'. copy_text e buf text n m = Some m' \<and> bytes_at e m' buf (take n text) \<and>
    (\<exists>b. m' = m\<lparr>bytes := b\<rparr>)"
proof -
  let ?m = "m\<lparr>bytes := (\<lambda>x. if unat (x - buf) < n then (text @ [0]) ! unat (x - buf) else bytes m x)\<rparr>"
  have "copy_text e buf text n m = Some ?m" using assms by (simp add: copy_text_def list_all_iff)
  moreover have "bytes_at e ?m buf (take n text)"
    unfolding bytes_at_iff_nth
  proof (intro allI impI)
    fix i assume i: "i < length (take n text)"
    then have "unat (of_nat i :: addr) = i" using assms(2) by (intro unat_of_nat_exact) simp
    then show "load_byte e (buf + of_nat i) ?m = Some (take n text ! i)"
      using i assms(3) by (simp add: load_byte_def nth_append)
  qed
  ultimately show ?thesis by blast
qed

text \<open>The message that belongs to a code.\<close>

definition message_of :: "(err \<Rightarrow> byte list) \<Rightarrow> err \<Rightarrow> byte list" where
  "message_of strerror err =
     (if 0 < err \<and> err < 20000 then strerror err
      else map char_byte (case map_of error_list err of Some s \<Rightarrow> s | None \<Rightarrow> ''Unknown error code''))"

lemma lookup_message_eq:
  "lookup_message err error_list = Some (case map_of error_list err of Some s \<Rightarrow> s
     | None \<Rightarrow> ''Unknown error code'')"
  by (simp add: error_list_def SPR_ERR_UNKNOW_def spr_codes)

section \<open>\<^verbatim>\<open>lib/spr_dso.c\<close> (POSIX branch)\<close>

definition spr_dlerror :: "byte list option \<Rightarrow> env \<Rightarrow> addr \<Rightarrow> size \<Rightarrow> mem \<Rightarrow> (addr \<times> mem) option" where
  "spr_dlerror dlerror e buf bufsize m = do {
     let str = (case dlerror of None \<Rightarrow> [] | Some s \<Rightarrow> s);
     m \<leftarrow> put_message e str buf bufsize m;
     Some (buf, m) }"

lemma put_message_ok:
  assumes n: "bufsize \<noteq> 0" and acc: "\<forall>k<unat bufsize. accessible e (blocks m) (buf + of_nat k)"
  shows "\<exists>m'. put_message e text buf bufsize m = Some m' \<and>
    bytes_at e m' buf (take (unat bufsize - 1) text @ [0])"
proof -
  let ?n = "unat bufsize"
  have pos: "0 < ?n" using n by (simp add: unat_gt_0)
  have lt: "?n < 2 ^ 64" using unsigned_less [of bufsize, where ?'a = nat] by simp
  let ?k = "min (?n - 1) (length text)"
  let ?c = "if length text < ?n then length text else ?n"
  have tk: "take (?n - 1) text = take ?k text" by (simp add: min_def)
  have c: "?c \<le> length text" "?c < 2 ^ 64" "\<forall>k<?c. accessible e (blocks m) (buf + of_nat k)"
    using lt acc by (auto split: if_splits)
  obtain m1 b where m1: "copy_text e buf text ?c m = Some m1" "bytes_at e m1 buf (take ?c text)"
    "m1 = m\<lparr>bytes := b\<rparr>"
    using copy_text_ok [OF c] by blast
  have last: "buf + of_nat ?k = (if length text < ?n then buf + of_nat (length text) else buf + (bufsize - 1))"
  proof (cases "length text < ?n")
    case False
    have "of_nat (?n - 1) = bufsize - (1 :: size)" using pos by (simp add: of_nat_diff)
    moreover have "?k = ?n - 1" using False by simp
    ultimately show ?thesis using False by (simp only: if_False)
  next
    case True
    then have "?k = length text" by simp
    then show ?thesis using True by (simp only: if_True)
  qed
  let ?m2 = "m1\<lparr>bytes := (bytes m1)(buf + of_nat ?k := 0)\<rparr>"
  have kn: "?k < ?n" using pos by simp
  have acck: "accessible e (blocks m1) (buf + of_nat ?k)" using acc kn m1(3) by simp
  then have put: "put_message e text buf bufsize m = Some ?m2"
    using m1(1) last by (simp add: put_message_def store_byte_def split: if_splits)
  have "bytes_at e ?m2 buf (take ?k text @ [0])"
    unfolding bytes_at_iff_nth
  proof (intro allI impI)
    fix i assume "i < length (take ?k text @ [0])"
    then have i: "i \<le> ?k" by (simp add: less_Suc_eq_le)
    show "load_byte e (buf + of_nat i) ?m2 = Some ((take ?k text @ [0]) ! i)"
    proof (cases "i = ?k")
      case True
      then show ?thesis using acck by (simp add: load_byte_def nth_append)
    next
      case False
      then have "i < ?k" using i False by linarith
      have u: "unat (of_nat i :: addr) = i" "unat (of_nat ?k :: addr) = ?k"
        using i kn lt by (auto intro!: unat_of_nat_exact)
      have "(of_nat i :: addr) \<noteq> of_nat ?k"
      proof
        assume "(of_nat i :: addr) = of_nat ?k"
        then have "unat (of_nat i :: addr) = unat (of_nat ?k :: addr)" by (simp only:)
        then show False using u False by simp
      qed
      moreover have "load_byte e (buf + of_nat i) m1 = Some (take ?c text ! i)"
        using \<open>i < ?k\<close> by (intro bytes_at_nth [OF m1(2)]) auto
      ultimately show ?thesis using \<open>i < ?k\<close>
        by (simp add: load_byte_def nth_append split: if_splits)
    qed
  qed
  then show ?thesis using put tk by (intro exI [of _ ?m2]) simp
qed

text \<open>C40: \<^verbatim>\<open>spr_strerror\<close> into a buffer of at least one byte returns the buffer, which then holds
  the message cut to the buffer and terminated by a zero: the system's text for a system code,
  the table's for a code of the library, and "Unknown error code" for any other.\<close>

theorem strerror_message:
  assumes "bufsize \<noteq> 0" "\<forall>k<unat bufsize. accessible e (blocks m) (buf + of_nat k)"
  shows "\<exists>m'. spr_strerror strerror e err buf bufsize m = Some (buf, m') \<and>
    bytes_at e m' buf (take (unat bufsize - 1) (message_of strerror err) @ [0])"
  using put_message_ok [OF assms, of "message_of strerror err"]
  by (auto simp: spr_strerror_def spr_os_strerror_def message_of_def lookup_message_eq
    SPR_ERROR_DOMAIN_BASE_def)

lemma sample_buffer: "\<forall>k<unat (9::size). accessible sample_env (blocks sample_text) (4400 + of_nat k)"
proof (intro allI impI)
  fix k :: nat assume "k < unat (9::size)"
  then have "k < 9" by simp
  then have "unat (4400 + of_nat k :: addr) = 4400 + k"
    by (subst unat_add_exact) (simp_all add: unat_of_nat_exact)
  then show "accessible sample_env (blocks sample_text) (4400 + of_nat k)"
    using \<open>k < 9\<close> by (auto simp: sample_text_def sample_mem1_def sample_fields sample_access in_range_def
      unat_eq_0 [symmetric])
qed

theorem strerror_message_witness:
  "\<exists>m'. spr_strerror (\<lambda>_. []) sample_env (- 6) 4400 9 sample_text = Some (4400, m') \<and>
    bytes_at sample_env m' 4400 (map char_byte ''Resource'' @ [0])"
proof -
  have "message_of (\<lambda>_. []) (- 6) = map char_byte ''Resource not found''"
    by (simp add: message_of_def error_list_def spr_codes)
  then show ?thesis
    using strerror_message [of 9 sample_env sample_text 4400 "\<lambda>_. []" "- 6"] sample_buffer by simp
qed

text \<open>With a buffer of no bytes \<^verbatim>\<open>spr_strerror\<close> and \<^verbatim>\<open>spr_dlerror\<close> write a zero one byte before
  the buffer.\<close>

theorem strerror_empty_buffer_underflow:
  "spr_strerror strerror e err buf 0 m =
     map_option (Pair buf) (store_byte e (buf - 1) 0 m) \<and>
   spr_dlerror dlerror e buf 0 m = map_option (Pair buf) (store_byte e (buf - 1) 0 m)"
proof -
  have "copy_text e buf str 0 m = Some m" for str
    by (simp add: copy_text_def)
  then have "put_message e str buf 0 m = store_byte e (buf - 1) 0 m" for str
    by (simp add: put_message_def)
  moreover have "Option.bind x (\<lambda>m. Some (buf, m)) = map_option (Pair buf) x" for x :: "mem option"
    by (cases x) simp_all
  ultimately show ?thesis
    by (simp add: spr_strerror_def spr_os_strerror_def lookup_message_eq spr_dlerror_def Let_def)
qed

section \<open>The Windows branch\<close>

text \<open>\<^verbatim>\<open>FormatMessage\<close> is a parameter: the text it has for a code in a language that fits a buffer of this
  size, or the empty list when it answers 0 and leaves the buffer alone. The loop removes dots and line
  ends from the end; its index is a 32-bit \<^verbatim>\<open>DWORD\<close>.\<close>

type_synonym formatter = "32 word \<Rightarrow> err \<Rightarrow> 32 word \<Rightarrow> byte list"

definition is_trimmed :: "byte \<Rightarrow> bool" where
  "is_trimmed c \<longleftrightarrow> c = 0 \<or> c = 13 \<or> c = 10 \<or> c = 46"

partial_function (option) trim_loop :: "env \<Rightarrow> addr \<Rightarrow> 32 word \<Rightarrow> mem \<Rightarrow> mem option" where
  "trim_loop e buf len m =
     (case load_byte e (buf + ucast len) m of
        None \<Rightarrow> None
      | Some c \<Rightarrow>
         if is_trimmed c
         then (case store_byte e (buf + ucast len) 0 m of
             None \<Rightarrow> None
           | Some m \<Rightarrow> trim_loop e buf (len - 1) m)
         else Some m)"

declare trim_loop.simps [code]

definition spr_os_strerror_win32 ::
  "formatter \<Rightarrow> env \<Rightarrow> err \<Rightarrow> addr \<Rightarrow> size \<Rightarrow> mem \<Rightarrow> (addr \<times> mem) option" where
  "spr_os_strerror_win32 FormatMessage e err buf bufsize m =
     (let lang = 0x409 in
      if bufsize = 0 then Some (NULL, m)
      else
        let text = FormatMessage lang err (ucast bufsize);
            text = (if text = [] then FormatMessage 0 err (ucast bufsize) else text) in
        if text = [] then Some (NULL, m)
        else do {
          m \<leftarrow> copy_text e buf text (Suc (length text)) m;
          m \<leftarrow> trim_loop e buf (of_nat (length text)) m;
          Some (buf, m) })"

text \<open>The second half of \<^verbatim>\<open>spr_strerror\<close>: a code of the library, or \<^verbatim>\<open>SPR_ERR_UNKNOW\<close>, with which the
  function calls itself and which is not a system code.\<close>

definition table_message :: "env \<Rightarrow> err \<Rightarrow> addr \<Rightarrow> size \<Rightarrow> mem \<Rightarrow> (addr \<times> mem) option" where
  "table_message e err buf bufsize m = do {
     message \<leftarrow> lookup_message err error_list;
     m \<leftarrow> put_message e (map char_byte message) buf bufsize m;
     Some (buf, m) }"

definition spr_strerror_win32 ::
  "formatter \<Rightarrow> env \<Rightarrow> err \<Rightarrow> addr \<Rightarrow> size \<Rightarrow> mem \<Rightarrow> (addr \<times> mem) option" where
  "spr_strerror_win32 FormatMessage e err buf bufsize m =
     (if 0 < err \<and> err < SPR_ERROR_DOMAIN_BASE then do {
        (str, m) \<leftarrow> spr_os_strerror_win32 FormatMessage e err buf bufsize m;
        if str = NULL then table_message e SPR_ERR_UNKNOW buf bufsize m else Some (str, m) }
      else table_message e err buf bufsize m)"

definition spr_dlerror_win32 ::
  "formatter \<Rightarrow> env \<Rightarrow> err \<Rightarrow> addr \<Rightarrow> size \<Rightarrow> mem \<Rightarrow> (addr \<times> mem) option" where
  "spr_dlerror_win32 FormatMessage e last_error buf bufsize m =
     spr_strerror_win32 FormatMessage e last_error buf bufsize m"

text \<open>The text without dots, line ends and zeros at its end.\<close>

definition trimmed :: "byte list \<Rightarrow> byte list" where
  "trimmed t = rev (dropWhile is_trimmed (rev t))"

lemma trimmed_snoc: "trimmed (t @ [c]) = (if is_trimmed c then trimmed t else t @ [c])"
  by (simp add: trimmed_def)

lemma bytes_at_store:
  assumes "bytes_at e m a (xs @ c # ys)" "length xs + length ys < 2 ^ 64"
  shows "\<exists>m'. store_byte e (a + of_nat (length xs)) d m = Some m' \<and> bytes_at e m' a (xs @ d # ys)"
proof -
  let ?p = "a + of_nat (length xs)"
  have ld: "load_byte e ?p m = Some c" using assms(1) by (simp add: bytes_at_append)
  let ?m' = "m\<lparr>bytes := (bytes m)(?p := d)\<rparr>"
  have st: "store_byte e ?p d m = Some ?m'" using ld by (auto simp: store_byte_def load_byte_def split: if_splits)
  have "load_byte e (a + of_nat i) ?m' = Some ((xs @ d # ys) ! i)" if i: "i < length (xs @ d # ys)" for i
  proof (cases "i = length xs")
    case True
    then show ?thesis using ld by (auto simp: load_byte_def split: if_splits)
  next
    case False
    have "(of_nat i :: addr) \<noteq> of_nat (length xs)"
    proof
      assume "(of_nat i :: addr) = of_nat (length xs)"
      then have "unat (of_nat i :: addr) = unat (of_nat (length xs) :: addr)" by (simp only:)
      moreover have "unat (of_nat i :: addr) = i" "unat (of_nat (length xs) :: addr) = length xs"
        using i assms(2) by (intro unat_of_nat_exact; simp)+
      ultimately show False using False by simp
    qed
    moreover have "load_byte e (a + of_nat i) m = Some ((xs @ c # ys) ! i)"
      using i by (intro bytes_at_nth [OF assms(1)]) simp
    moreover have "(xs @ c # ys) ! i = (xs @ d # ys) ! i" using False by (simp add: nth_append nth_Cons')
    ultimately show ?thesis by (simp add: load_byte_def split: if_splits)
  qed
  then show ?thesis using st by (auto simp: bytes_at_iff_nth)
qed

lemma ucast_index:
  assumes "n < 2 ^ 32"
  shows "ucast (of_nat n :: 32 word) = (of_nat n :: addr)"
proof (rule word_unat_eq_iff [THEN iffD2])
  have "unat (of_nat n :: 32 word) = n" using assms by (intro unat_of_nat_exact) simp
  moreover have "unat (of_nat n :: addr) = n" using assms by (intro unat_of_nat_exact) simp
  ultimately show "unat (ucast (of_nat n :: 32 word) :: addr) = unat (of_nat n :: addr)"
    using assms by (simp add: unsigned_ucast_eq take_bit_nat_eq_self)
qed

lemma trim_loop_eq:
  assumes "bytes_at e m buf (t @ replicate z 0)" "t \<noteq> []" "\<exists>c \<in> set t. \<not> is_trimmed c" "length t + z < 2 ^ 32"
  shows "\<exists>m'. trim_loop e buf (of_nat (length t - 1)) m = Some m' \<and>
    bytes_at e m' buf (trimmed t @ replicate (length t + z - length (trimmed t)) 0)"
  using assms
proof (induction t arbitrary: m z rule: rev_induct)
  case (snoc c t)
  let ?i = "of_nat (length t) :: 32 word"
  have i: "(ucast ?i :: addr) = of_nat (length t)" using snoc.prems(4) by (intro ucast_index) simp
  have ld: "load_byte e (buf + of_nat (length t)) m = Some c"
    using snoc.prems(1) by (simp add: bytes_at_append)
  show ?case
  proof (cases "is_trimmed c")
    case False
    then show ?thesis using ld i snoc.prems(1)
      by (subst trim_loop.simps) (simp add: trimmed_snoc)
  next
    case True
    have "bytes_at e m buf (t @ c # replicate z 0)" using snoc.prems(1) by simp
    then obtain m1 where m1: "store_byte e (buf + of_nat (length t)) 0 m = Some m1"
      "bytes_at e m1 buf (t @ replicate (Suc z) 0)"
      using bytes_at_store [of e m buf t c "replicate z 0" 0] snoc.prems(4) by auto
    have t: "\<exists>c \<in> set t. \<not> is_trimmed c" "t \<noteq> []" using snoc.prems(3) True by auto
    have "?i - 1 = of_nat (length t - 1)" using t(2) by (simp add: of_nat_diff Suc_leI)
    then have "trim_loop e buf ?i m = trim_loop e buf (of_nat (length t - 1)) m1"
      using True ld i m1(1) by (subst trim_loop.simps) simp
    moreover obtain m' where "trim_loop e buf (of_nat (length t - 1)) m1 = Some m'"
      "bytes_at e m' buf (trimmed t @ replicate (length t + Suc z - length (trimmed t)) 0)"
      using snoc.IH [OF m1(2) t(2,1)] snoc.prems(4) by auto
    ultimately show ?thesis using True by (simp add: trimmed_snoc)
  qed
qed simp

text \<open>On Windows \<^verbatim>\<open>spr_strerror\<close> of a system code puts the system's text into the buffer, without the
  dots and line ends at its end, terminated by a zero, and tries the neutral language when English has
  no text. The text must fit the buffer and hold another character than those removed.\<close>

theorem strerror_win32_trims:
  assumes "0 < err" "err < 20000" "text = (if fm 0x409 err (ucast n) = [] then fm 0 err (ucast n) else fm 0x409 err (ucast n))"
    and "\<exists>c \<in> set text. \<not> is_trimmed c" "length text < unat n" "length text + 1 < 2 ^ 32" "buf \<noteq> NULL"
    and "\<forall>k<unat n. accessible e (blocks m) (buf + of_nat k)"
  shows "\<exists>m'. spr_strerror_win32 fm e err buf n m = Some (buf, m') \<and> bytes_at e m' buf (trimmed text @ [0])"
proof -
  have ne: "text \<noteq> []" using assms(4) by auto
  let ?m1 = "m\<lparr>bytes := (\<lambda>x. if unat (x - buf) < Suc (length text) then (text @ [0]) ! unat (x - buf) else bytes m x)\<rparr>"
  have "n \<noteq> 0" using assms(5) by auto
  have c: "copy_text e buf text (Suc (length text)) m = Some ?m1"
    using assms(5,8) by (simp add: copy_text_def list_all_iff)
  have "bytes_at e ?m1 buf (text @ [0])"
    unfolding bytes_at_iff_nth
  proof (intro allI impI)
    fix i assume i: "i < length (text @ [0])"
    then have "unat (of_nat i :: addr) = i" using assms(6) by (intro unat_of_nat_exact) simp
    then show "load_byte e (buf + of_nat i) ?m1 = Some ((text @ [0]) ! i)"
      using i assms(5,8) by (simp add: load_byte_def)
  qed
  moreover have "\<exists>c \<in> set (text @ [0]). \<not> is_trimmed c" using assms(4) by auto
  ultimately obtain m' where m': "trim_loop e buf (of_nat (length text)) ?m1 = Some m'"
    "bytes_at e m' buf (trimmed (text @ [0]) @ replicate (length text + 1 - length (trimmed (text @ [0]))) 0)"
    using trim_loop_eq [of e ?m1 buf "text @ [0]" 0] assms(6) by auto
  have tr: "trimmed (text @ [0]) = trimmed text" by (simp add: trimmed_snoc is_trimmed_def)
  have "length (trimmed text) \<le> length text"
    using length_dropWhile_le [of is_trimmed "rev text"] by (simp add: trimmed_def)
  then have "replicate (length text + 1 - length (trimmed text)) (0::byte)
      = [0] @ replicate (length text - length (trimmed text)) 0"
    by (simp add: Suc_diff_le)
  then have "bytes_at e m' buf (trimmed text @ [0])" using m'(2) tr by (simp add: bytes_at_append)
  moreover have "spr_os_strerror_win32 fm e err buf n m = Some (buf, m')"
    using c m'(1) ne \<open>n \<noteq> 0\<close> assms(3) by (simp add: spr_os_strerror_win32_def Let_def)
  ultimately show ?thesis using assms(1,2,7) by (simp add: spr_strerror_win32_def SPR_ERROR_DOMAIN_BASE_def)
qed

theorem strerror_win32_trims_witness:
  "\<exists>m'. spr_strerror_win32 (\<lambda>lang err n. [72, 105, 46, 13, 10]) sample_env 5 4400 9 sample_text = Some (4400, m') \<and>
    bytes_at sample_env m' 4400 [72, 105, 0]"
  using strerror_win32_trims [of 5 "[72, 105, 46, 13, 10]" "\<lambda>lang err n. [72, 105, 46, 13, 10]" 9 4400 sample_env sample_text]
    sample_buffer by (simp add: is_trimmed_def trimmed_def)

text \<open>A text of nothing but the removed characters sends the loop past the start of the buffer: after index
  0 it goes on at index 4294967295.\<close>

lemma trim_loop_wraps:
  assumes "bytes_at e m buf t" "t \<noteq> []" "\<forall>c \<in> set t. is_trimmed c" "length t < 2 ^ 32"
  shows "\<exists>m'. trim_loop e buf (of_nat (length t - 1)) m = trim_loop e buf (- 1) m' \<and> blocks m' = blocks m"
  using assms
proof (induction t arbitrary: m rule: rev_induct)
  case (snoc c t)
  let ?i = "of_nat (length t) :: 32 word"
  have i: "(ucast ?i :: addr) = of_nat (length t)" using snoc.prems(4) by (intro ucast_index) simp
  have "load_byte e (buf + of_nat (length t)) m = Some c" "is_trimmed c"
    using snoc.prems(1,3) by (simp_all add: bytes_at_append)
  moreover obtain m1 where m1: "store_byte e (buf + of_nat (length t)) 0 m = Some m1" "bytes_at e m1 buf (t @ [0])"
    using bytes_at_store [of e m buf t c "[]" 0] snoc.prems(1,4) by auto
  ultimately have step: "trim_loop e buf ?i m = trim_loop e buf (?i - 1) m1"
    using i by (subst trim_loop.simps) simp
  have bl: "blocks m1 = blocks m" using m1(1) by (auto simp: store_byte_def split: if_splits)
  show ?case
  proof (cases "t = []")
    case True
    then show ?thesis using step bl by auto
  next
    case False
    then have "?i - 1 = of_nat (length t - 1)" by (simp add: of_nat_diff Suc_leI)
    then show ?thesis
      using snoc.IH [of m1] m1(2) False snoc.prems(3,4) step bl by (auto simp: bytes_at_append)
  qed
qed simp

lemma trim_loop_underflow:
  assumes "bytes_at e m buf t" "t \<noteq> []" "\<forall>c \<in> set t. is_trimmed c" "length t < 2 ^ 32"
    and "\<not> accessible e (blocks m) (buf + 4294967295)"
  shows "trim_loop e buf (of_nat (length t - 1)) m = None"
proof -
  have "(ucast (- 1 :: 32 word) :: addr) = 4294967295" by code_simp
  then have "trim_loop e buf (- 1) m' = None" if "blocks m' = blocks m" for m'
    using assms(5) that by (subst trim_loop.simps) (simp add: load_byte_def)
  then show ?thesis using trim_loop_wraps [OF assms(1-4)] by auto
qed

end
