(* ===== verification/Spr_Filesys.thy ===== *)
theory Spr_Filesys
  imports Spr_String_Props
begin

text \<open>
  \<^verbatim>\<open>lib/spr_filesys.c\<close>, the POSIX branch and the common functions: file types and access
  bits, files, paths, directories and pattern expansion. The system calls are parameters; the
  structures of the caller are passed and returned, the buffers lie in the memory.
\<close>

section \<open>Constants (include/spr_filesys.h, sys/stat.h)\<close>

type_synonym mode = "32 word"
type_synonym access = "64 word"
type_synonym file_type = "64 word"

text \<open>The mode bits of the system headers.\<close>

definition S_IFMT :: mode where "S_IFMT = 0xf000"
definition S_IFSOCK :: mode where "S_IFSOCK = 0xc000"
definition S_IFLNK :: mode where "S_IFLNK = 0xa000"
definition S_IFREG :: mode where "S_IFREG = 0x8000"
definition S_IFBLK :: mode where "S_IFBLK = 0x6000"
definition S_IFDIR :: mode where "S_IFDIR = 0x4000"
definition S_IFCHR :: mode where "S_IFCHR = 0x2000"
definition S_IFIFO :: mode where "S_IFIFO = 0x1000"
definition S_ISUID :: mode where "S_ISUID = 0x800"
definition S_ISGID :: mode where "S_ISGID = 0x400"
definition S_ISVTX :: mode where "S_ISVTX = 0x200"
definition S_IRUSR :: mode where "S_IRUSR = 0x100"
definition S_IWUSR :: mode where "S_IWUSR = 0x80"
definition S_IXUSR :: mode where "S_IXUSR = 0x40"
definition S_IRGRP :: mode where "S_IRGRP = 0x20"
definition S_IWGRP :: mode where "S_IWGRP = 0x10"
definition S_IXGRP :: mode where "S_IXGRP = 0x8"
definition S_IROTH :: mode where "S_IROTH = 0x4"
definition S_IWOTH :: mode where "S_IWOTH = 0x2"
definition S_IXOTH :: mode where "S_IXOTH = 0x1"

lemmas mode_bits = S_IFMT_def S_IFSOCK_def S_IFLNK_def S_IFREG_def S_IFBLK_def S_IFDIR_def
  S_IFCHR_def S_IFIFO_def S_ISUID_def S_ISGID_def S_ISVTX_def S_IRUSR_def S_IWUSR_def S_IXUSR_def
  S_IRGRP_def S_IWGRP_def S_IXGRP_def S_IROTH_def S_IWOTH_def S_IXOTH_def

definition SPR_FILE_ACCESS_USETID :: access where "SPR_FILE_ACCESS_USETID = 0x8000"
definition SPR_FILE_ACCESS_UR :: access where "SPR_FILE_ACCESS_UR = 0x0400"
definition SPR_FILE_ACCESS_UW :: access where "SPR_FILE_ACCESS_UW = 0x0200"
definition SPR_FILE_ACCESS_UX :: access where "SPR_FILE_ACCESS_UX = 0x0100"
definition SPR_FILE_ACCESS_GSETID :: access where "SPR_FILE_ACCESS_GSETID = 0x4000"
definition SPR_FILE_ACCESS_GR :: access where "SPR_FILE_ACCESS_GR = 0x0040"
definition SPR_FILE_ACCESS_GW :: access where "SPR_FILE_ACCESS_GW = 0x0020"
definition SPR_FILE_ACCESS_GX :: access where "SPR_FILE_ACCESS_GX = 0x0010"
definition SPR_FILE_ACCESS_STICKY :: access where "SPR_FILE_ACCESS_STICKY = 0x2000"
definition SPR_FILE_ACCESS_OR :: access where "SPR_FILE_ACCESS_OR = 0x0004"
definition SPR_FILE_ACCESS_OW :: access where "SPR_FILE_ACCESS_OW = 0x0002"
definition SPR_FILE_ACCESS_OX :: access where "SPR_FILE_ACCESS_OX = 0x0001"

lemmas access_bits = SPR_FILE_ACCESS_USETID_def SPR_FILE_ACCESS_UR_def SPR_FILE_ACCESS_UW_def
  SPR_FILE_ACCESS_UX_def SPR_FILE_ACCESS_GSETID_def SPR_FILE_ACCESS_GR_def SPR_FILE_ACCESS_GW_def
  SPR_FILE_ACCESS_GX_def SPR_FILE_ACCESS_STICKY_def SPR_FILE_ACCESS_OR_def SPR_FILE_ACCESS_OW_def
  SPR_FILE_ACCESS_OX_def

text \<open>The file types: the \<open>#else\<close> values, and the \<open>DT_\<close> values of \<^verbatim>\<open>dirent.h\<close> that the
  library uses when a directory entry carries its type.\<close>

record file_types =
  SPR_FILE_TYPE_UNKFILE :: file_type
  SPR_FILE_TYPE_FILE :: file_type
  SPR_FILE_TYPE_DIR :: file_type
  SPR_FILE_TYPE_CHR :: file_type
  SPR_FILE_TYPE_BLK :: file_type
  SPR_FILE_TYPE_PIPE :: file_type
  SPR_FILE_TYPE_LINK :: file_type
  SPR_FILE_TYPE_SOCK :: file_type

definition own_types :: file_types where
  "own_types = \<lparr>SPR_FILE_TYPE_UNKFILE = 0, SPR_FILE_TYPE_FILE = 1, SPR_FILE_TYPE_DIR = 2,
     SPR_FILE_TYPE_CHR = 3, SPR_FILE_TYPE_BLK = 4, SPR_FILE_TYPE_PIPE = 5, SPR_FILE_TYPE_LINK = 6,
     SPR_FILE_TYPE_SOCK = 7\<rparr>"

definition d_types :: file_types where
  "d_types = \<lparr>SPR_FILE_TYPE_UNKFILE = 0, SPR_FILE_TYPE_FILE = 8, SPR_FILE_TYPE_DIR = 4,
     SPR_FILE_TYPE_CHR = 2, SPR_FILE_TYPE_BLK = 6, SPR_FILE_TYPE_PIPE = 1, SPR_FILE_TYPE_LINK = 10,
     SPR_FILE_TYPE_SOCK = 12\<rparr>"

section \<open>The system calls\<close>

text \<open>The system is a parameter: a record of the calls the library makes, over an abstract
  system state \<open>'k\<close>. A failing call answers -1 (or null), and \<open>k_errno\<close> reads the error
  number. A call that gets a path gets the memory it lies in.\<close>

datatype whence = SEEK_SET | SEEK_CUR | SEEK_END

record file_stat =
  st_mode :: mode

record dirent =
  d_name :: addr
  d_type :: byte

record 'k kernel =
  k_errno :: "'k \<Rightarrow> err"
  k_open :: "addr \<Rightarrow> 32 word \<Rightarrow> 32 word \<Rightarrow> mem \<Rightarrow> 'k \<Rightarrow> int \<times> 'k"
  k_lseek :: "int \<Rightarrow> int \<Rightarrow> whence \<Rightarrow> 'k \<Rightarrow> int \<times> 'k"
  k_read :: "int \<Rightarrow> nat \<Rightarrow> 'k \<Rightarrow> byte list option \<times> 'k"
  k_write :: "int \<Rightarrow> byte list \<Rightarrow> 'k \<Rightarrow> int \<times> 'k"
  k_stat :: "addr \<Rightarrow> mem \<Rightarrow> 'k \<Rightarrow> file_stat option \<times> 'k"
  k_fstat :: "int \<Rightarrow> 'k \<Rightarrow> file_stat option \<times> 'k"
  k_close :: "int \<Rightarrow> 'k \<Rightarrow> 'k"
  k_opendir :: "addr \<Rightarrow> mem \<Rightarrow> 'k \<Rightarrow> addr \<times> 'k"
  k_readdir :: "addr \<Rightarrow> 'k \<Rightarrow> dirent option \<times> 'k"
  k_closedir :: "addr \<Rightarrow> 'k \<Rightarrow> 'k"
  k_glob :: "addr \<Rightarrow> mem \<Rightarrow> 'k \<Rightarrow> int \<times> addr list \<times> 'k"

section \<open>File types and access\<close>

definition spr_stat_get_file_type :: "file_types \<Rightarrow> file_stat \<Rightarrow> file_type" where
  "spr_stat_get_file_type T stat = (
     let mode = st_mode stat;
         type = SPR_FILE_TYPE_UNKFILE T;
         type = (if mode AND S_IFMT = S_IFREG then SPR_FILE_TYPE_FILE T else type);
         type = (if mode AND S_IFMT = S_IFDIR then SPR_FILE_TYPE_DIR T else type);
         type = (if mode AND S_IFMT = S_IFCHR then SPR_FILE_TYPE_CHR T else type);
         type = (if mode AND S_IFMT = S_IFBLK then SPR_FILE_TYPE_BLK T else type);
         type = (if mode AND S_IFMT = S_IFIFO then SPR_FILE_TYPE_PIPE T else type);
         type = (if mode AND S_IFMT = S_IFLNK then SPR_FILE_TYPE_LINK T else type)
     in if mode AND S_IFMT = S_IFSOCK then SPR_FILE_TYPE_SOCK T else type)"

text \<open>\<open>if (mode & bit) access |= flag\<close>.\<close>

definition set_access :: "mode \<Rightarrow> mode \<Rightarrow> access \<Rightarrow> access \<Rightarrow> access" where
  "set_access mode b flag access = (if mode AND b \<noteq> 0 then access OR flag else access)"

definition spr_stat_get_access :: "file_stat \<Rightarrow> access" where
  "spr_stat_get_access stat = (
     let mode = st_mode stat;
         access = 0;
         access = set_access mode S_ISUID SPR_FILE_ACCESS_USETID access;
         access = set_access mode S_IRUSR SPR_FILE_ACCESS_UR access;
         access = set_access mode S_IWUSR SPR_FILE_ACCESS_UW access;
         access = set_access mode S_IXUSR SPR_FILE_ACCESS_UX access;
         access = set_access mode S_ISGID SPR_FILE_ACCESS_GSETID access;
         access = set_access mode S_IRGRP SPR_FILE_ACCESS_GR access;
         access = set_access mode S_IWGRP SPR_FILE_ACCESS_GW access;
         access = set_access mode S_IXGRP SPR_FILE_ACCESS_GX access;
         access = set_access mode S_ISVTX SPR_FILE_ACCESS_STICKY access;
         access = set_access mode S_IROTH SPR_FILE_ACCESS_OR access;
         access = set_access mode S_IWOTH SPR_FILE_ACCESS_OW access
     in set_access mode S_IXOTH SPR_FILE_ACCESS_OX access)"

section \<open>Buffers\<close>

text \<open>The bytes of a buffer the system reads, and the bytes it stores into one.\<close>

definition read_bytes :: "env \<Rightarrow> addr \<Rightarrow> nat \<Rightarrow> mem \<Rightarrow> byte list option" where
  "read_bytes e a n m =
     (if list_all (\<lambda>i. accessible e (blocks m) (a + of_nat i)) [0..<n]
      then Some (map (\<lambda>i. bytes m (a + of_nat i)) [0..<n]) else None)"

fun store_bytes :: "env \<Rightarrow> addr \<Rightarrow> byte list \<Rightarrow> mem \<Rightarrow> mem option" where
  "store_bytes e a [] m = Some m"
| "store_bytes e a (b # bs) m = do { m \<leftarrow> store_byte e a b m; store_bytes e (a + 1) bs m }"

section \<open>Files\<close>

text \<open>\<open>struct spr_file_s\<close> and \<open>struct spr_file_info_s\<close>, which the caller owns.\<close>

record spr_file =
  fl_fd :: int
  fl_name :: addr
  fl_offset :: "64 word"

record file_info =
  fi_type :: file_type
  fi_access :: access
  fi_stat :: file_stat

definition SPR_INVALID_FILE :: int where "SPR_INVALID_FILE = -1"

definition zero_file :: spr_file where
  "zero_file = \<lparr>fl_fd = 0, fl_name = NULL, fl_offset = 0\<rparr>"

definition spr_file_open ::
  "'k kernel \<Rightarrow> addr \<Rightarrow> 64 word \<Rightarrow> 64 word \<Rightarrow> 64 word \<Rightarrow> mem \<Rightarrow> spr_file \<times> 'k \<Rightarrow> err \<times> spr_file \<times> 'k" where
  "spr_file_open K path mode create access m = (\<lambda>(file, k).
     let file = zero_file in
     case k_open K path (ucast (mode OR create)) (ucast access) m k of (fd, k) \<Rightarrow>
       if fd = SPR_INVALID_FILE then (k_errno K k, file, k)
       else (SPR_OK, file\<lparr>fl_fd := fd, fl_name := path, fl_offset := 0\<rparr>, k))"

definition spr_file_read ::
  "'k kernel \<Rightarrow> env \<Rightarrow> addr \<Rightarrow> size \<Rightarrow> 64 word \<Rightarrow> mem \<Rightarrow> spr_file \<times> 'k \<Rightarrow> (int \<times> mem \<times> spr_file \<times> 'k) option" where
  "spr_file_read K e buf n offset m = (\<lambda>(file, k).
     case k_lseek K (fl_fd file) (sint offset) SEEK_SET k of (r, k) \<Rightarrow>
       if r = -1 then Some (-1, m, file, k)
       else case k_read K (fl_fd file) (unat n) k of
         (None, k) \<Rightarrow> Some (-1, m, file, k)
       | (Some bs, k) \<Rightarrow> do {
           m \<leftarrow> store_bytes e buf bs m;
           Some (int (length bs), m, file\<lparr>fl_offset := fl_offset file + of_nat (length bs)\<rparr>, k) })"

text \<open>The \<open>for (;;)\<close> loop of \<open>spr_file_write\<close>. It has no bound in the code: a system that
  keeps answering 0 would keep it running.\<close>

partial_function (option) write_loop ::
  "'k kernel \<Rightarrow> env \<Rightarrow> mem \<Rightarrow> addr \<Rightarrow> 64 word \<Rightarrow> size \<Rightarrow> spr_file \<Rightarrow> 'k \<Rightarrow> (int \<times> spr_file \<times> 'k) option" where
  "write_loop K e m buf written n file k =
     (case read_bytes e (buf + written) (unat n) m of
        None \<Rightarrow> None
      | Some bs \<Rightarrow>
         (let r = fst (k_write K (fl_fd file) bs k); k = snd (k_write K (fl_fd file) bs k) in
          if r = -1 then Some (-1, file, k)
          else if of_int r = n
          then Some (sint (written + of_int r), file\<lparr>fl_offset := fl_offset file + of_int r\<rparr>, k)
          else write_loop K e m buf (written + of_int r) (n - of_int r)
            (file\<lparr>fl_offset := fl_offset file + of_int r\<rparr>) k))"

declare write_loop.simps [code]

definition spr_file_write ::
  "'k kernel \<Rightarrow> env \<Rightarrow> addr \<Rightarrow> size \<Rightarrow> 64 word \<Rightarrow> mem \<Rightarrow> spr_file \<times> 'k \<Rightarrow> (int \<times> spr_file \<times> 'k) option" where
  "spr_file_write K e buf n offset m = (\<lambda>(file, k).
     case k_lseek K (fl_fd file) (sint offset) SEEK_SET k of (r, k) \<Rightarrow>
       if r = -1 then Some (-1, file, k)
       else write_loop K e m buf 0 n file k)"

definition spr_file_size :: "'k kernel \<Rightarrow> spr_file \<Rightarrow> 'k \<Rightarrow> int \<times> 'k" where
  "spr_file_size K file k = (
     case k_lseek K (fl_fd file) 0 SEEK_CUR k of (off, k) \<Rightarrow>
       if off = -1 then (-1, k)
       else case k_lseek K (fl_fd file) 0 SEEK_END k of (n, k) \<Rightarrow>
         if n = -1 then (-1, k)
         else case k_lseek K (fl_fd file) off SEEK_SET k of (r, k) \<Rightarrow>
           if r = -1 then (-1, k) else (n, k))"

definition spr_read_fd ::
  "'k kernel \<Rightarrow> env \<Rightarrow> int \<Rightarrow> addr \<Rightarrow> size \<Rightarrow> mem \<Rightarrow> 'k \<Rightarrow> (int \<times> mem \<times> 'k) option" where
  "spr_read_fd K e fd buf n m k = (
     case k_read K fd (unat n) k of
       (None, k) \<Rightarrow> Some (-1, m, k)
     | (Some bs, k) \<Rightarrow> do { m \<leftarrow> store_bytes e buf bs m; Some (int (length bs), m, k) })"

definition spr_write_fd ::
  "'k kernel \<Rightarrow> env \<Rightarrow> int \<Rightarrow> addr \<Rightarrow> size \<Rightarrow> mem \<Rightarrow> 'k \<Rightarrow> (int \<times> 'k) option" where
  "spr_write_fd K e fd buf n m k = do {
     bs \<leftarrow> read_bytes e buf (unat n) m;
     Some (k_write K fd bs k) }"

definition STDOUT_FILENO :: int where "STDOUT_FILENO = 1"
definition STDERR_FILENO :: int where "STDERR_FILENO = 2"

definition spr_write_stdout :: "'k kernel \<Rightarrow> env \<Rightarrow> addr \<Rightarrow> mem \<Rightarrow> 'k \<Rightarrow> (int \<times> 'k) option" where
  "spr_write_stdout K e str m k = do {
     n \<leftarrow> spr_strlen e str m;
     spr_write_fd K e STDOUT_FILENO str n m k }"

definition spr_write_stderr :: "'k kernel \<Rightarrow> env \<Rightarrow> addr \<Rightarrow> mem \<Rightarrow> 'k \<Rightarrow> (int \<times> 'k) option" where
  "spr_write_stderr K e str m k = do {
     n \<leftarrow> spr_strlen e str m;
     spr_write_fd K e STDERR_FILENO str n m k }"

definition fill_info :: "file_types \<Rightarrow> file_stat \<Rightarrow> file_info \<Rightarrow> file_info" where
  "fill_info T st info = info\<lparr>fi_stat := st, fi_type := spr_stat_get_file_type T st,
     fi_access := spr_stat_get_access st\<rparr>"

definition spr_file_info_by_path ::
  "'k kernel \<Rightarrow> file_types \<Rightarrow> addr \<Rightarrow> mem \<Rightarrow> file_info \<times> 'k \<Rightarrow> err \<times> file_info \<times> 'k" where
  "spr_file_info_by_path K T path m = (\<lambda>(info, k).
     case k_stat K path m k of
       (None, k) \<Rightarrow> (k_errno K k, info, k)
     | (Some st, k) \<Rightarrow> (SPR_OK, fill_info T st info, k))"

definition spr_file_info ::
  "'k kernel \<Rightarrow> file_types \<Rightarrow> spr_file \<Rightarrow> file_info \<times> 'k \<Rightarrow> err \<times> file_info \<times> 'k" where
  "spr_file_info K T file = (\<lambda>(info, k).
     case k_fstat K (fl_fd file) k of
       (None, k) \<Rightarrow> (k_errno K k, info, k)
     | (Some st, k) \<Rightarrow> (SPR_OK, fill_info T st info, k))"

definition spr_file_close :: "'k kernel \<Rightarrow> spr_file option \<times> 'k \<Rightarrow> spr_file option \<times> 'k" where
  "spr_file_close K = (\<lambda>(file, k).
     case file of
       None \<Rightarrow> (None, k)
     | Some file \<Rightarrow>
         let k = k_close K (fl_fd file) k in
         (Some (file\<lparr>fl_fd := SPR_INVALID_FILE, fl_name := NULL, fl_offset := 0\<rparr>), k))"

section \<open>Paths\<close>

text \<open>The platform's path separator: a slash, or a backslash on Windows.\<close>

definition spr_is_path_separator :: "byte \<Rightarrow> byte \<Rightarrow> bool" where
  "spr_is_path_separator sep c \<longleftrightarrow> c = sep"

definition spr_check_absolute_path :: "env \<Rightarrow> addr \<Rightarrow> mem \<Rightarrow> err option" where
  "spr_check_absolute_path e path m = do {
     c \<leftarrow> load_byte e path m;
     Some (if c = 47 then SPR_OK else SPR_ERR_FILESYS_ABS_PATH) }"

definition spr_file_full_path ::
  "env \<Rightarrow> byte \<Rightarrow> addr \<Rightarrow> addr \<Rightarrow> addr \<Rightarrow> mem \<Rightarrow> (size \<times> mem) option" where
  "spr_file_full_path e sep buf path file m = do {
     path_len \<leftarrow> spr_strlen e path m;
     file_len \<leftarrow> spr_strlen e file m;
     c \<leftarrow> load_byte e (path + (path_len - 1)) m;
     let path_len = (if spr_is_path_separator sep c then path_len - 1 else path_len);
     let copied = 0;
     m \<leftarrow> spr_memmove e (buf + copied) path path_len m;
     let copied = copied + path_len;
     m \<leftarrow> store_byte e (buf + copied) sep m;
     let copied = copied + 1;
     m \<leftarrow> spr_memmove e (buf + copied) file file_len m;
     let copied = copied + file_len;
     m \<leftarrow> store_byte e (buf + copied) 0 m;
     Some (copied, m) }"

partial_function (option) spr_is_path_has_wildcard :: "env \<Rightarrow> addr \<Rightarrow> mem \<Rightarrow> bool option" where
  "spr_is_path_has_wildcard e ch m =
     (case load_byte e ch m of
        None \<Rightarrow> None
      | Some c \<Rightarrow>
         if c = 0 then Some False
         else if c = 63 \<or> c = 42 then Some True
         else spr_is_path_has_wildcard e (ch + 1) m)"

declare spr_is_path_has_wildcard.simps [code]

section \<open>Directories\<close>

record spr_dir =
  dr_dir :: addr
  dr_dirent :: "dirent option"
  dr_name :: addr
  dr_type :: byte

definition zero_dir :: spr_dir where
  "zero_dir = \<lparr>dr_dir = NULL, dr_dirent = None, dr_name = NULL, dr_type = 0\<rparr>"

definition spr_dir_open :: "'k kernel \<Rightarrow> addr \<Rightarrow> mem \<Rightarrow> spr_dir \<times> 'k \<Rightarrow> err \<times> spr_dir \<times> 'k" where
  "spr_dir_open K path m = (\<lambda>(dir, k).
     let dir = zero_dir in
     case k_opendir K path m k of (d, k) \<Rightarrow>
       let dir = dir\<lparr>dr_dir := d\<rparr> in
       if d = NULL then (k_errno K k, dir, k)
       else (SPR_OK, dir\<lparr>dr_name := path\<rparr>, k))"

text \<open>The common first half of the two variants of \<open>spr_dir_read\<close>: the next entry, or the
  status to return.\<close>

definition dir_next :: "'k kernel \<Rightarrow> spr_dir \<times> 'k \<Rightarrow> (err + dirent) \<times> spr_dir \<times> 'k" where
  "dir_next K = (\<lambda>(dir, k).
     case k_readdir K (dr_dir dir) k of (ent, k) \<Rightarrow>
       let dir = dir\<lparr>dr_dirent := ent\<rparr> in
       case ent of
         None \<Rightarrow> (Inl (if k_errno K k \<noteq> SPR_OK then k_errno K k else SPR_DONE), dir, k)
       | Some d \<Rightarrow> (Inr d, dir, k))"

text \<open>With \<open>SPR_HAVE_D_TYPE\<close>.\<close>

definition spr_dir_read :: "'k kernel \<Rightarrow> spr_dir \<times> 'k \<Rightarrow> err \<times> spr_dir \<times> 'k" where
  "spr_dir_read K s =
     (case dir_next K s of
        (Inl err, dir, k) \<Rightarrow> (err, dir, k)
      | (Inr d, dir, k) \<Rightarrow> (SPR_OK, dir\<lparr>dr_type := d_type d\<rparr>, k))"

text \<open>Without it the type comes from \<open>stat\<close>: \<open>fullpath\<close> is the local array, \<open>fstat\<close> the local
  structure, which keeps its old content when the call fails.\<close>

definition spr_dir_read_stat ::
  "'k kernel \<Rightarrow> env \<Rightarrow> addr \<Rightarrow> file_stat \<Rightarrow> mem \<Rightarrow> spr_dir \<times> 'k \<Rightarrow> (err \<times> mem \<times> spr_dir \<times> 'k) option" where
  "spr_dir_read_stat K e fullpath fstat m s =
     (case dir_next K s of
        (Inl err, dir, k) \<Rightarrow> Some (err, m, dir, k)
      | (Inr d, dir, k) \<Rightarrow> do {
          (_, m) \<leftarrow> spr_file_full_path e 47 fullpath (dr_name dir) (d_name d) m;
          case k_stat K fullpath m k of (r, k) \<Rightarrow>
            let fstat = (case r of Some st \<Rightarrow> st | None \<Rightarrow> fstat) in
            Some (SPR_OK, m, dir\<lparr>dr_type := ucast (spr_stat_get_file_type own_types fstat)\<rparr>, k) })"

definition spr_dir_close :: "'k kernel \<Rightarrow> spr_dir option \<Rightarrow> 'k \<Rightarrow> 'k" where
  "spr_dir_close K dir k = (case dir of None \<Rightarrow> k | Some d \<Rightarrow> k_closedir K (dr_dir d) k)"

definition spr_dir_current_name :: "spr_dir \<Rightarrow> addr option" where
  "spr_dir_current_name dir = map_option d_name (dr_dirent dir)"

definition spr_dir_current_file_type :: "spr_dir \<Rightarrow> file_type" where
  "spr_dir_current_file_type dir = ucast (dr_type dir)"

definition spr_dir_current_is_file :: "file_types \<Rightarrow> spr_dir \<Rightarrow> err" where
  "spr_dir_current_is_file T dir = (if ucast (dr_type dir) = SPR_FILE_TYPE_FILE T then 1 else 0)"

section \<open>Pattern expansion\<close>

text \<open>\<open>gl_pathv\<close> is the vector of results of the system's \<open>glob\<close>, \<open>gl_pathc\<close> its length.\<close>

record spr_glob =
  gl_pathv :: "addr list"
  gl_pattern :: addr
  gl_last :: size

definition spr_glob_open :: "'k kernel \<Rightarrow> addr \<Rightarrow> mem \<Rightarrow> spr_glob \<times> 'k \<Rightarrow> err \<times> spr_glob \<times> 'k" where
  "spr_glob_open K pattern m = (\<lambda>(gl, k).
     case k_glob K pattern m k of (rv, pathv, k) \<Rightarrow>
       let gl = gl\<lparr>gl_pathv := pathv\<rparr> in
       if rv \<noteq> 0 then (k_errno K k, gl, k)
       else (SPR_OK, gl\<lparr>gl_pattern := pattern, gl_last := 0\<rparr>, k))"

definition spr_glob_read :: "env \<Rightarrow> addr \<Rightarrow> mem \<Rightarrow> spr_glob \<Rightarrow> (err \<times> mem \<times> spr_glob) option" where
  "spr_glob_read e res m gl =
     (let n = of_nat (length (gl_pathv gl)) in
      if n \<le> gl_last gl then Some (SPR_DONE, m, gl)
      else do {
        let path = gl_pathv gl ! unat (gl_last gl);
        len \<leftarrow> spr_strlen e path m;
        m \<leftarrow> spr_memmove e res path (len + 1) m;
        Some (SPR_OK, m, gl\<lparr>gl_last := gl_last gl + 1\<rparr>) })"

text \<open>\<open>globfree\<close> releases the results.\<close>

definition spr_glob_close :: "spr_glob \<Rightarrow> spr_glob" where
  "spr_glob_close gl = gl\<lparr>gl_pathv := []\<rparr>"

end
