(* ===== verification/Spr_Utf8.thy ===== *)
theory Spr_Utf8
  imports Spr_String_Props
begin

text \<open>
  The conversion of paths on Windows in \<^verbatim>\<open>lib/spr_filesys.c\<close>: the UTF-8 decoder
  \<^verbatim>\<open>spr_utf8_decode\<close> and \<^verbatim>\<open>spr_path_to_wchar\<close>, and what they compute on encoded text.
\<close>

section \<open>The decoder\<close>

text \<open>\<open>(uint16_t)\<close>, \<open>(uint32_t)\<close> conversions are truncations and extensions of words.\<close>

type_synonym wchar = "16 word"
type_synonym code_point = "32 word"

text \<open>The \<open>while (len)\<close> loop over the continuation bytes: the value, or the early return
  (\<open>None\<close>), with the advanced pointer.\<close>

fun utf8_tail :: "env \<Rightarrow> nat \<Rightarrow> addr \<Rightarrow> code_point \<Rightarrow> mem \<Rightarrow> (code_point option \<times> addr) option" where
  "utf8_tail e 0 p u m = Some (Some u, p)"
| "utf8_tail e (Suc len) p u m = do {
     b \<leftarrow> load_byte e p m;
     let i = (ucast b :: code_point);
     if i < 0x80 then Some (None, p + 1)
     else utf8_tail e len (p + 1) (push_bit 6 u OR (i AND 0x3f)) m }"

text \<open>The three leading-byte branches: value bits, least valid value minus one, length.\<close>

definition utf8_lead :: "code_point \<Rightarrow> (code_point \<times> code_point \<times> size) option" where
  "utf8_lead u =
     (if 0xf0 \<le> u then Some (u AND 0x07, 0xffff, 3)
      else if 0xe0 \<le> u then Some (u AND 0x0f, 0x7ff, 2)
      else if 0xc2 \<le> u then Some (u AND 0x1f, 0x7f, 1)
      else None)"

definition spr_utf8_decode :: "env \<Rightarrow> addr \<Rightarrow> size \<Rightarrow> mem \<Rightarrow> (code_point \<times> addr) option" where
  "spr_utf8_decode e p n m = do {
     b \<leftarrow> load_byte e p m;
     case utf8_lead (ucast b) of
       None \<Rightarrow> Some (0xffffffff, p + 1)
     | Some (u, valid, len) \<Rightarrow>
         if n - 1 < len then Some (0xfffffffe, p)
         else do {
           (r, p) \<leftarrow> utf8_tail e (unat len) (p + 1) u m;
           case r of
             None \<Rightarrow> Some (0xffffffff, p)
           | Some u \<Rightarrow> Some (if valid < u then u else 0xffffffff, p) } }"

section \<open>The conversion\<close>

text \<open>The output array with its real number of elements; a store behind its end is undefined.\<close>

definition put_wchar :: "wchar list \<Rightarrow> nat \<Rightarrow> wchar \<Rightarrow> wchar list option" where
  "put_wchar out u c = (if u < length out then Some (out[u := c]) else None)"

text \<open>The loop of \<open>spr_path_to_wchar\<close>: \<open>u\<close> counts the units written, \<open>outlen\<close> is the bound the
  caller passed. The result says whether the function returns the array (or null).\<close>

function wchar_loop ::
  "env \<Rightarrow> nat \<Rightarrow> nat \<Rightarrow> addr \<Rightarrow> wchar list \<Rightarrow> mem \<Rightarrow> (bool \<times> wchar list) option" where
  "wchar_loop e outlen u p out m =
     (if u < outlen then do {
        b \<leftarrow> load_byte e p m;
        if b < 0x80 then do {
          out \<leftarrow> put_wchar out u (ucast b);
          if b = 0 then Some (True, out)
          else wchar_loop e outlen (Suc u) (p + 1) out m }
        else if Suc u = outlen then Some (False, out)
        else do {
          (n, p) \<leftarrow> spr_utf8_decode e p 4 m;
          if 0x10ffff < n then Some (False, out)
          else if 0xffff < n then do {
            let n = n - 0x10000;
            out \<leftarrow> put_wchar out u (ucast (0xd800 + drop_bit 10 n));
            out \<leftarrow> put_wchar out (Suc u) (ucast (0xdc00 + (n AND 0x3ff)));
            wchar_loop e outlen (Suc (Suc u)) p out m }
          else do {
            out \<leftarrow> put_wchar out u (ucast n);
            wchar_loop e outlen (Suc u) p out m } } }
      else Some (False, out))"
  by pat_completeness auto
termination
  by (relation "measure (\<lambda>(e, outlen, u, p, out, m). outlen - u)") auto

declare wchar_loop.simps [simp del]

definition spr_path_to_wchar ::
  "env \<Rightarrow> wchar list \<Rightarrow> size \<Rightarrow> addr \<Rightarrow> mem \<Rightarrow> (bool \<times> wchar list) option" where
  "spr_path_to_wchar e out outlen instr m = wchar_loop e (unat outlen) 0 instr out m"

section \<open>UTF-8 and UTF-16\<close>

text \<open>The encodings of a code point.\<close>

definition utf8 :: "nat \<Rightarrow> byte list" where
  "utf8 c =
     (if c < 0x80 then [of_nat c]
      else if c < 0x800 then [of_nat (0xc0 + c div 64), of_nat (0x80 + c mod 64)]
      else if c < 0x10000 then
        [of_nat (0xe0 + c div 4096), of_nat (0x80 + c div 64 mod 64), of_nat (0x80 + c mod 64)]
      else [of_nat (0xf0 + c div 262144), of_nat (0x80 + c div 4096 mod 64),
        of_nat (0x80 + c div 64 mod 64), of_nat (0x80 + c mod 64)])"

definition utf16 :: "nat \<Rightarrow> wchar list" where
  "utf16 c =
     (if c < 0x10000 then [of_nat c]
      else [of_nat (0xd800 + (c - 0x10000) div 1024), of_nat (0xdc00 + (c - 0x10000) mod 1024)])"

lemma add_mod_exact: "x < n \<Longrightarrow> (n * k + x) mod n = x" for x n k :: nat
  by simp

lemma unat_shift_or:
  fixes u i :: code_point
  assumes "unat u < 2 ^ 26"
  shows "unat (push_bit 6 u OR (i AND 0x3f)) = unat u * 64 + unat i mod 64"
proof -
  have lo: "i AND 0x3f = take_bit 6 i"
    using take_bit_eq_mask [of 6 i] by (simp add: mask_eq_exp_minus_1)
  have "push_bit 6 u OR (i AND 0x3f) = push_bit 6 u + (i AND 0x3f)"
    unfolding lo by (rule disjunctive_add [symmetric]) (auto simp: bit_simps)
  moreover have "unat (push_bit 6 u) = unat u * 64"
    using assms by (simp add: push_bit_eq_mult unat_word_ariths mult.commute)
  moreover have "unat (i AND 0x3f) = unat i mod 64"
    unfolding lo by (simp add: unsigned_take_bit_eq take_bit_eq_mod unat_mod)
  ultimately show ?thesis using assms by (simp add: unat_add_exact)
qed

lemma unat_ucast_byte: "unat (ucast b :: code_point) = unat b" for b :: byte
  using byte_less [of b] by (simp add: unsigned_ucast_eq take_bit_nat_eq_self)

lemma utf8_tail_step:
  assumes "load_byte e p m = Some (of_nat (128 + x))" "x < 64" "unat u < 2 ^ 26"
  shows "utf8_tail e (Suc len) p u m = utf8_tail e len (p + 1) (of_nat (unat u * 64 + x)) m"
proof -
  have b: "unat (of_nat (128 + x) :: byte) = 128 + x" using assms(2) by (intro unat_of_nat_exact) simp
  have x: "(128 + x) mod 64 = x" using add_mod_exact [of x 64 2] assms(2) by simp
  have "push_bit 6 u OR (ucast (of_nat (128 + x) :: byte) AND 0x3f) = of_nat (unat u * 64 + x)"
  proof (rule word_unat_eq_iff [THEN iffD2])
    show "unat (push_bit 6 u OR (ucast (of_nat (128 + x) :: byte) AND 0x3f)) = unat (of_nat (unat u * 64 + x) :: code_point)"
      unfolding unat_shift_or [OF assms(3)] unat_ucast_byte b
      using assms(2,3) x by (subst unat_of_nat_exact) simp_all
  qed
  moreover have "\<not> (ucast (of_nat (128 + x) :: byte) :: code_point) < 0x80"
    using b by (simp add: word_less_nat_alt unat_ucast_byte del: of_nat_add)
  ultimately show ?thesis using assms(1) by (simp del: of_nat_add)
qed

lemma and_low_bits:
  assumes "x < 2 ^ k"
  shows "(of_nat (2 ^ k * y + x) :: code_point) AND mask k = of_nat x"
proof -
  have "(of_nat (2 ^ k * y + x) :: code_point) AND mask k = take_bit k (of_nat (2 ^ k * y + x))"
    by (simp only: take_bit_eq_mask)
  also have "\<dots> = of_nat (take_bit k (2 ^ k * y + x))"
    by (simp only: take_bit_of_nat)
  also have "take_bit k (2 ^ k * y + x) = x"
    using assms add_mod_exact by (simp only: take_bit_eq_mod)
  finally show ?thesis .
qed

lemma lead_value:
  "x < 32 \<Longrightarrow> (of_nat (0xc0 + x) :: code_point) AND 0x1f = of_nat x"
  "x < 16 \<Longrightarrow> (of_nat (0xe0 + x) :: code_point) AND 0x0f = of_nat x"
  "x < 8 \<Longrightarrow> (of_nat (0xf0 + x) :: code_point) AND 0x07 = of_nat x"
  using and_low_bits [of x 5 6] and_low_bits [of x 4 14] and_low_bits [of x 3 30]
  by (simp_all add: mask_eq_exp_minus_1)

lemma lead_byte:
  assumes "x < 256"
  shows "(ucast (of_nat x :: byte) :: code_point) = of_nat x"
proof -
  have "unat (ucast (of_nat x :: byte) :: code_point) = unat (of_nat x :: code_point)"
    unfolding unat_ucast_byte using assms by (simp add: unat_of_nat_exact)
  then show ?thesis by (simp only: word_unat_eq_iff)
qed

lemma code_point_le:
  assumes "x < 2 ^ 32" "y < 2 ^ 32"
  shows "(of_nat x \<le> (of_nat y :: code_point)) \<longleftrightarrow> x \<le> y" "(of_nat x < (of_nat y :: code_point)) \<longleftrightarrow> x < y"
  using assms by (simp_all add: word_le_nat_alt word_less_nat_alt unat_of_nat_exact)

lemma utf8_lead_values:
  "2 \<le> x \<Longrightarrow> x < 32 \<Longrightarrow> utf8_lead (of_nat (0xc0 + x)) = Some (of_nat x, 0x7f, 1)"
  "x < 16 \<Longrightarrow> utf8_lead (of_nat (0xe0 + x)) = Some (of_nat x, 0x7ff, 2)"
  "x < 8 \<Longrightarrow> utf8_lead (of_nat (0xf0 + x)) = Some (of_nat x, 0xffff, 3)"
proof -
  have le: "(0xf0 \<le> (of_nat y :: code_point)) \<longleftrightarrow> 0xf0 \<le> y" "(0xe0 \<le> (of_nat y :: code_point)) \<longleftrightarrow> 0xe0 \<le> y"
    "(0xc2 \<le> (of_nat y :: code_point)) \<longleftrightarrow> 0xc2 \<le> y" if "y < 256" for y
    using that code_point_le(1) [of 240 y] code_point_le(1) [of 224 y] code_point_le(1) [of 194 y]
    by simp_all
  show "utf8_lead (of_nat (0xc0 + x)) = Some (of_nat x, 0x7f, 1)" if "2 \<le> x" "x < 32"
    using that lead_value(1) [of x] le [of "0xc0 + x"] unfolding utf8_lead_def by (simp del: of_nat_add)
  show "utf8_lead (of_nat (0xe0 + x)) = Some (of_nat x, 0x7ff, 2)" if "x < 16"
    using that lead_value(2) [of x] le [of "0xe0 + x"] unfolding utf8_lead_def by (simp del: of_nat_add)
  show "utf8_lead (of_nat (0xf0 + x)) = Some (of_nat x, 0xffff, 3)" if "x < 8"
    using that lead_value(3) [of x] le [of "0xf0 + x"] unfolding utf8_lead_def by (simp del: of_nat_add)
qed

lemma decode_utf8:
  assumes c: "0x80 \<le> c" "c \<le> 0x10ffff" and b: "bytes_at e m p (utf8 c)"
  shows "spr_utf8_decode e p 4 m = Some (of_nat c, p + of_nat (length (utf8 c)))"
proof -
  consider (two) "c < 0x800" | (three) "0x800 \<le> c" "c < 0x10000" | (four) "0x10000 \<le> c"
    by linarith
  then show ?thesis
  proof cases
    case two
    let ?x = "c div 64"
    have x: "2 \<le> ?x" "?x < 32" "?x * 64 + c mod 64 = c" using two c by auto
    have ld: "load_byte e p m = Some (of_nat (192 + ?x))" "load_byte e (p + 1) m = Some (of_nat (128 + c mod 64))"
      using b two c by (simp_all add: utf8_def)
    have "utf8_tail e (Suc 0) (p + 1) (of_nat ?x) m = Some (Some (of_nat c), p + 2)"
      using utf8_tail_step [OF ld(2), of "of_nat ?x" 0] x by (simp add: unat_of_nat_exact add.assoc)
    then show ?thesis using ld(1) x two c utf8_lead_values(1) [OF x(1,2)] lead_byte [of "192 + ?x"]
        code_point_le(2) [of 127 c]
      by (simp add: spr_utf8_decode_def utf8_def del: of_nat_add utf8_tail.simps)
  next
    case three
    let ?x = "c div 4096" and ?y = "c div 64 mod 64"
    have x: "?x < 16" "?x * 64 + ?y = c div 64" "c div 64 * 64 + c mod 64 = c" "c div 64 < 2 ^ 26"
      using three by (auto simp: div_mult2_eq [of c 64 64, simplified])
    have ld: "load_byte e p m = Some (of_nat (224 + ?x))" "load_byte e (p + 1) m = Some (of_nat (128 + ?y))"
      "load_byte e (p + 1 + 1) m = Some (of_nat (128 + c mod 64))"
      using b three by (simp_all add: utf8_def)
    have "utf8_tail e (Suc (Suc 0)) (p + 1) (of_nat ?x) m = utf8_tail e (Suc 0) (p + 1 + 1) (of_nat (c div 64)) m"
      using utf8_tail_step [OF ld(2), of "of_nat ?x" "Suc 0"] x by (simp add: unat_of_nat_exact del: utf8_tail.simps of_nat_add of_nat_mult)
    also have "\<dots> = Some (Some (of_nat c), p + 3)"
      using utf8_tail_step [OF ld(3), of "of_nat (c div 64)" 0] x by (simp add: unat_of_nat_exact add.assoc)
    finally have tail: "utf8_tail e 2 (p + 1) (of_nat ?x) m = Some (Some (of_nat c), p + 3)"
      by (simp only: numeral_2_eq_2)
    show ?thesis using tail ld(1) x three c utf8_lead_values(2) [OF x(1)] lead_byte [of "224 + ?x"]
        code_point_le(2) [of 2047 c]
      by (simp add: spr_utf8_decode_def utf8_def del: of_nat_add utf8_tail.simps)
  next
    case four
    let ?x = "c div 262144" and ?y = "c div 4096 mod 64" and ?z = "c div 64 mod 64"
    have x: "?x < 8" "?x * 64 + ?y = c div 4096" "c div 4096 * 64 + ?z = c div 64"
      "c div 64 * 64 + c mod 64 = c" "c div 64 < 2 ^ 26" "c div 4096 < 2 ^ 26"
      using c by (auto simp: div_mult2_eq [of c 64 64, simplified] div_mult2_eq [of c 4096 64, simplified])
    have ld: "load_byte e p m = Some (of_nat (240 + ?x))" "load_byte e (p + 1) m = Some (of_nat (128 + ?y))"
      "load_byte e (p + 1 + 1) m = Some (of_nat (128 + ?z))"
      "load_byte e (p + 1 + 1 + 1) m = Some (of_nat (128 + c mod 64))"
      using b four by (simp_all add: utf8_def)
    have "utf8_tail e (Suc (Suc (Suc 0))) (p + 1) (of_nat ?x) m
        = utf8_tail e (Suc (Suc 0)) (p + 1 + 1) (of_nat (c div 4096)) m"
      using utf8_tail_step [OF ld(2), of "of_nat ?x" "Suc (Suc 0)"] x by (simp add: unat_of_nat_exact del: utf8_tail.simps of_nat_add of_nat_mult)
    also have "\<dots> = utf8_tail e (Suc 0) (p + 1 + 1 + 1) (of_nat (c div 64)) m"
      using utf8_tail_step [OF ld(3), of "of_nat (c div 4096)" "Suc 0"] x by (simp add: unat_of_nat_exact del: utf8_tail.simps of_nat_add of_nat_mult)
    also have "\<dots> = Some (Some (of_nat c), p + 4)"
      using utf8_tail_step [OF ld(4), of "of_nat (c div 64)" 0] x by (simp add: unat_of_nat_exact add.assoc del: of_nat_add of_nat_mult)
    finally have tail: "utf8_tail e 3 (p + 1) (of_nat ?x) m = Some (Some (of_nat c), p + 4)"
      by (simp only: numeral_3_eq_3)
    have lead: "(ucast (of_nat (240 + ?x) :: byte) :: code_point) = of_nat (240 + ?x)"
      using x(1) by (intro lead_byte) linarith
    show ?thesis using tail ld(1) four c utf8_lead_values(3) [OF x(1)] lead code_point_le(2) [of 65535 c]
      by (simp add: spr_utf8_decode_def utf8_def del: of_nat_add utf8_tail.simps)
  qed
qed

text \<open>One round of the conversion loop on an encoded code point.\<close>

lemma put_wchar_ok: "u < length out \<Longrightarrow> put_wchar out u c = Some (out[u := c])"
  by (simp add: put_wchar_def)

lemma utf16_length: "length (utf16 c) = (if c < 0x10000 then 1 else 2)"
  by (simp add: utf16_def)

definition write_at :: "wchar list \<Rightarrow> nat \<Rightarrow> wchar list \<Rightarrow> wchar list" where
  "write_at out u cs = take u out @ cs @ drop (u + length cs) out"

lemma update_write_at: "u < length out \<Longrightarrow> out[u := c] = write_at out u [c]"
  by (simp add: write_at_def upd_conv_take_nth_drop)

lemma write_at_write_at:
  "u + length cs \<le> length out \<Longrightarrow> write_at (write_at out u cs) (u + length cs) ds = write_at out u (cs @ ds)"
  by (simp add: write_at_def ac_simps)

lemma length_write_at: "u + length cs \<le> length out \<Longrightarrow> length (write_at out u cs) = length out"
  by (simp add: write_at_def)

lemma ucast_code_point: "(ucast (of_nat k :: code_point) :: wchar) = of_nat k"
  by (simp add: word_unat_eq_iff unsigned_ucast_eq unsigned_of_nat)

lemma high_surrogate:
  assumes "0x10000 \<le> c" "c \<le> 0x10ffff"
  shows "[ucast (0xd800 + drop_bit 10 (of_nat c - 0x10000 :: code_point)),
      ucast (0xdc00 + ((of_nat c - 0x10000 :: code_point) AND 0x3ff))] = utf16 c"
proof -
  let ?n = "c - 0x10000"
  have n: "(of_nat c - 0x10000 :: code_point) = of_nat ?n" "?n < 2 ^ 20" using assms by (auto simp: of_nat_diff)
  have "drop_bit 10 (of_nat ?n :: code_point) = of_nat (?n div 1024)"
    using n(2) by (simp add: word_unat_eq_iff unat_of_nat_exact drop_bit_eq_div unat_div)
  moreover have "(of_nat ?n :: code_point) AND 0x3ff = of_nat (?n mod 1024)"
    using and_low_bits [of "?n mod 1024" 10 "?n div 1024"] by (simp add: mask_eq_exp_minus_1)
  moreover have "(ucast (0xd800 + (of_nat k :: code_point)) :: wchar) = of_nat (0xd800 + k)"
    "(ucast (0xdc00 + (of_nat k :: code_point)) :: wchar) = of_nat (0xdc00 + k)" for k
    using ucast_code_point [of "0xd800 + k"] ucast_code_point [of "0xdc00 + k"] by simp_all
  ultimately show ?thesis unfolding n(1) using assms
    by (simp add: utf16_def)
qed

lemma wchar_round:
  assumes b: "bytes_at e m p (utf8 c)" and c: "0 < c" "c \<le> 0x10ffff" and u: "u < outlen"
  shows "wchar_loop e outlen u p out m =
    (if 0x80 \<le> c \<and> Suc u = outlen then Some (False, out)
     else if length out < u + length (utf16 c) then None
     else wchar_loop e outlen (u + length (utf16 c)) (p + of_nat (length (utf8 c))) (write_at out u (utf16 c)) m)"
proof (cases "c < 0x80")
  case True
  then have ld: "load_byte e p m = Some (of_nat c)" using b by (simp add: utf8_def)
  have byte: "unat (of_nat c :: byte) = c" using True by (intro unat_of_nat_exact) simp
  then have "(of_nat c :: byte) < 0x80" "(of_nat c :: byte) \<noteq> 0"
    using True c by (auto simp: word_less_nat_alt simp flip: unat_eq_0)
  moreover have "(ucast (of_nat c :: byte) :: wchar) = of_nat c"
    using True by (simp add: word_unat_eq_iff unsigned_ucast_eq byte unat_of_nat_exact take_bit_nat_eq_self)
  ultimately show ?thesis using ld u True
    by (subst wchar_loop.simps) (simp add: put_wchar_def update_write_at utf16_def utf8_def)
next
  case False
  then have c80: "0x80 \<le> c" by simp
  obtain b0 bs where b0: "utf8 c = b0 # bs" "\<not> b0 < 0x80"
  proof -
    have ge: "\<not> (of_nat k :: byte) < 0x80" if "0x80 \<le> k" "k < 256" for k
      using that by (simp add: word_less_nat_alt unat_of_nat_exact)
    have "c div 262144 < 16" using c by auto
    then have "utf8 c \<noteq> [] \<and> \<not> hd (utf8 c) < 0x80"
      using False by (auto simp: utf8_def simp del: of_nat_add dest!: ge [THEN notE, rotated 2])
    then show thesis using that by (auto simp: neq_Nil_conv)
  qed
  then have ld: "load_byte e p m = Some b0" using b by simp
  note dec = decode_utf8 [OF c80 c(2) b]
  have cmp: "\<not> (0x10ffff < (of_nat c :: code_point))" "(0xffff < (of_nat c :: code_point)) \<longleftrightarrow> 0x10000 \<le> c"
    using c code_point_le(2) [of "0x10ffff" c] code_point_le(2) [of "0xffff" c] by auto
  show ?thesis
  proof (cases "c < 0x10000")
    case True
    then show ?thesis using ld b0 dec cmp u c80 ucast_code_point
      by (subst wchar_loop.simps) (simp add: put_wchar_def update_write_at utf16_def)
  next
    case False
    then have "utf16 c = [ucast (0xd800 + drop_bit 10 (of_nat c - 0x10000 :: code_point)),
      ucast (0xdc00 + ((of_nat c - 0x10000 :: code_point) AND 0x3ff))]"
      using high_surrogate c by simp
    moreover have "out[u := x, Suc u := y] = write_at out u [x, y]" if "Suc u < length out" for x y
      using that update_write_at [of u out x] update_write_at [of "Suc u" "write_at out u [x]" y]
        write_at_write_at [of u "[x]" out "[y]"] by (simp add: length_write_at)
    ultimately show ?thesis using ld b0 dec cmp u c80 False
      by (subst wchar_loop.simps) (auto simp: put_wchar_def Let_def)
  qed
qed

lemma wchar_loop_text:
  assumes "bytes_at e m p (concat (map utf8 cs) @ [0])" "\<forall>c\<in>set cs. 0 < c \<and> c \<le> 0x10ffff"
    and "u + length (concat (map utf16 cs)) < outlen" "u + length (concat (map utf16 cs)) < length out"
  shows "wchar_loop e outlen u p out m = Some (True, write_at out u (concat (map utf16 cs) @ [0]))"
  using assms
proof (induction cs arbitrary: u p out)
  case Nil
  then show ?case by (subst wchar_loop.simps) (simp add: put_wchar_ok update_write_at)
next
  case (Cons c cs)
  let ?u = "u + length (utf16 c)" and ?out = "write_at out u (utf16 c)"
  have b: "bytes_at e m p (utf8 c)" "bytes_at e m (p + of_nat (length (utf8 c))) (concat (map utf8 cs) @ [0])"
    using Cons.prems(1) by (simp_all add: bytes_at_append del: bytes_at.simps)
  have "wchar_loop e outlen u p out m = wchar_loop e outlen ?u (p + of_nat (length (utf8 c))) ?out m"
    using Cons.prems by (subst wchar_round [OF b(1)]) (auto simp: utf16_length split: if_splits)
  also have "\<dots> = Some (True, write_at ?out ?u (concat (map utf16 cs) @ [0]))"
    using Cons.prems b(2) by (intro Cons.IH) (simp_all add: length_write_at)
  also have "write_at ?out ?u (concat (map utf16 cs) @ [0]) = write_at out u (concat (map utf16 (c # cs)) @ [0])"
    using Cons.prems(4) by (subst write_at_write_at) simp_all
  finally show ?case .
qed

text \<open>Text that does not fit: the function returns null when the bound was the array's, and has no
  defined result when the bound lets it write behind the array.\<close>

lemma wchar_loop_full: "outlen \<le> u \<Longrightarrow> wchar_loop e outlen u p out m = Some (False, out)"
  by (simp add: wchar_loop.simps)

lemma wchar_loop_short:
  assumes "bytes_at e m p (concat (map utf8 cs) @ [0])" "\<forall>c\<in>set cs. 0 < c \<and> c \<le> 0x10ffff"
    and "outlen \<le> u + length (concat (map utf16 cs))" "u \<le> outlen" "outlen \<le> length out"
  shows "\<exists>out'. wchar_loop e outlen u p out m = Some (False, out')"
  using assms
proof (induction cs arbitrary: u p out)
  case Nil
  then show ?case by (simp add: wchar_loop_full)
next
  case (Cons c cs)
  let ?u = "u + length (utf16 c)"
  have b: "bytes_at e m p (utf8 c)" "bytes_at e m (p + of_nat (length (utf8 c))) (concat (map utf8 cs) @ [0])"
    using Cons.prems(1) by (simp_all add: bytes_at_append del: bytes_at.simps)
  show ?case
  proof (cases "u = outlen \<or> 0x80 \<le> c \<and> Suc u = outlen")
    case True
    then show ?thesis using wchar_round [OF b(1), of u outlen out] Cons.prems(2) by (auto simp: wchar_loop_full)
  next
    case False
    then have u: "?u \<le> outlen" "u < outlen" using Cons.prems(4) by (auto simp: utf16_length)
    then have "wchar_loop e outlen u p out m
        = wchar_loop e outlen ?u (p + of_nat (length (utf8 c))) (write_at out u (utf16 c)) m"
      using False Cons.prems wchar_round [OF b(1), of u outlen out] by auto
    moreover have "\<exists>out'. wchar_loop e outlen ?u (p + of_nat (length (utf8 c))) (write_at out u (utf16 c)) m = Some (False, out')"
      using Cons.prems u b(2) by (intro Cons.IH) (simp_all add: length_write_at)
    ultimately show ?thesis by simp
  qed
qed

lemma wchar_loop_overflow:
  assumes "bytes_at e m p (concat (map utf8 cs) @ [0])" "\<forall>c\<in>set cs. 0 < c \<and> c \<le> 0x10ffff"
    and "length out \<le> u + length (concat (map utf16 cs))" "u \<le> length out" "Suc (length out) < outlen"
  shows "wchar_loop e outlen u p out m = None"
  using assms
proof (induction cs arbitrary: u p out)
  case Nil
  then show ?case by (subst wchar_loop.simps) (simp add: put_wchar_def)
next
  case (Cons c cs)
  let ?u = "u + length (utf16 c)"
  have b: "bytes_at e m p (utf8 c)" "bytes_at e m (p + of_nat (length (utf8 c))) (concat (map utf8 cs) @ [0])"
    using Cons.prems(1) by (simp_all add: bytes_at_append del: bytes_at.simps)
  have step: "wchar_loop e outlen u p out m = (if length out < ?u then None
      else wchar_loop e outlen ?u (p + of_nat (length (utf8 c))) (write_at out u (utf16 c)) m)"
    using Cons.prems wchar_round [OF b(1), of u outlen out] by auto
  show ?case
  proof (cases "length out < ?u")
    case False
    then have "wchar_loop e outlen ?u (p + of_nat (length (utf8 c))) (write_at out u (utf16 c)) m = None"
      using Cons.prems b(2) by (intro Cons.IH) (simp_all add: length_write_at)
    then show ?thesis using step by simp
  qed (simp add: step)
qed

section \<open>Properties\<close>

text \<open>The sample memory with the text e-acute, U+1F600 and the terminator at 4400.\<close>

definition sample_utf8 :: mem where
  "sample_utf8 = sample_text\<lparr>bytes := (\<lambda>_. 0)(4400 := 0xc3, 4401 := 0xa9, 4402 := 0xf0, 4403 := 0x9f,
     4404 := 0x98, 4405 := 0x80, 4406 := 0)\<rparr>"

lemma sample_utf8_text: "bytes_at sample_env sample_utf8 4400 (concat (map utf8 [0xe9, 0x1f600]) @ [0])"
  by (simp add: utf8_def load_byte_def sample_utf8_def sample_text_def sample_mem1_def sample_fields
    sample_access in_range_def)

text \<open>C12: \<^verbatim>\<open>spr_path_to_wchar\<close> on the UTF-8 encoding of any text of code points 1 to 10FFFF writes
  exactly the UTF-16 encoding with its terminator, surrogate pairs included, and returns the
  array, whenever text and terminator fit into the array; when they do not fit it returns null
  and writes no unit behind the array.\<close>

theorem path_to_wchar_encodes:
  assumes "bytes_at e m path (concat (map utf8 cs) @ [0])" "\<forall>c\<in>set cs. 0 < c \<and> c \<le> 0x10ffff"
    and "unat outlen = length out"
  shows "if length (concat (map utf16 cs)) < length out
    then spr_path_to_wchar e out outlen path m = Some (True, concat (map utf16 cs) @ 0 #
      drop (length (concat (map utf16 cs)) + 1) out)
    else \<exists>out'. spr_path_to_wchar e out outlen path m = Some (False, out')"
  using wchar_loop_text [OF assms(1,2), of 0 "length out" out]
    wchar_loop_short [OF assms(1,2), of "length out" 0 out] assms(3)
  by (simp add: spr_path_to_wchar_def write_at_def)

theorem path_to_wchar_encodes_witness:
  "spr_path_to_wchar sample_env [7, 7, 7, 7, 7] 5 4400 sample_utf8
    = Some (True, [0xe9, 0xd83d, 0xde00, 0, 7])"
  using path_to_wchar_encodes [OF sample_utf8_text, of 5 "[7, 7, 7, 7, 7]"] by (simp add: utf16_def)

text \<open>The decoder checks of a continuation byte only that it is at least 80 (hexadecimal): a byte
  from C0 to FF in second place, which UTF-8 does not allow there, is accepted and read like the
  continuation byte with the same low six bits.\<close>

theorem utf8_bad_continuation_accepted:
  assumes "2 \<le> x" "x < 32" "y < 64" "bytes_at e m p [of_nat (0xc0 + x), of_nat (0xc0 + y)]"
  shows "spr_utf8_decode e p 4 m = Some (of_nat (x * 64 + y), p + 2)"
proof -
  have b: "unat (of_nat (192 + y) :: byte) = 192 + y" using assms(3) by (intro unat_of_nat_exact) simp
  have v: "push_bit 6 (of_nat x) OR (ucast (of_nat (192 + y) :: byte) AND 0x3f) = (of_nat (x * 64 + y) :: code_point)"
  proof (rule word_unat_eq_iff [THEN iffD2])
    have "unat (of_nat x :: code_point) = x" using assms(2) by (intro unat_of_nat_exact) simp
    then show "unat (push_bit 6 (of_nat x) OR (ucast (of_nat (192 + y) :: byte) AND 0x3f) :: code_point)
        = unat (of_nat (x * 64 + y) :: code_point)"
      using assms(2,3) add_mod_exact [of y 64 3] unfolding unat_of_nat_exact
      by (subst unat_shift_or) (simp_all add: unat_ucast_byte b unat_of_nat_exact del: of_nat_add of_nat_mult)
  qed
  have "utf8_tail e (Suc 0) (p + 1) (of_nat x) m = Some (Some (of_nat (x * 64 + y)), p + 2)"
    using assms(4) b v by (simp add: word_less_nat_alt unat_ucast_byte add.assoc del: of_nat_add of_nat_mult)
  moreover have "(0x7f < (of_nat (x * 64 + y) :: code_point))"
    using assms(1-3) code_point_le(2) [of 127 "x * 64 + y"] by simp
  ultimately show ?thesis
    using assms utf8_lead_values(1) [of x] lead_byte [of "192 + x"]
    by (simp add: spr_utf8_decode_def del: of_nat_add of_nat_mult utf8_tail.simps)
qed

theorem utf8_bad_continuation_accepted_witness:
  "spr_utf8_decode sample_env 4400 4 (sample_utf8\<lparr>bytes := (bytes sample_utf8)(4401 := 0xe9)\<rparr>)
    = Some (0xe9, 4402)"
  using utf8_bad_continuation_accepted [of 3 41 sample_env
      "sample_utf8\<lparr>bytes := (bytes sample_utf8)(4401 := 0xe9)\<rparr>" 4400]
  by (simp add: load_byte_def sample_utf8_def sample_text_def sample_mem1_def sample_fields
    sample_access in_range_def)

end
