(* ===== verification/Spr_Filesys_Props.thy ===== *)
theory Spr_Filesys_Props
  imports Spr_Filesys Spr_Utf8
begin

text \<open>
  What the POSIX file operations and the path functions compute. The behaviour of the system is
  stated as contracts on the parameter, which the sample kernel meets.
\<close>

lemma sample_block_access:
  assumes "4096 \<le> a" "a + i < 8192"
  shows "accessible sample_env [(4096, 4096)] (of_nat a + of_nat i)"
proof -
  have u: "unat (of_nat a + of_nat i :: addr) = a + i"
    using assms(2) by (subst unat_add_exact) (simp_all add: unat_of_nat_exact)
  then have "(of_nat a + of_nat i :: addr) \<noteq> 0" using assms(1) by (metis unat_0 add_is_0 not_numeral_le_zero)
  then show ?thesis using assms u by (simp add: sample_access in_range_def)
qed

lemma sample_blocks: "blocks sample_text = [(4096, 4096)]" "blocks sample_utf8 = [(4096, 4096)]"
  by (simp_all add: sample_utf8_def sample_text_def sample_mem1_def sample_fields)

section \<open>Access bits\<close>

text \<open>The mode bit of every access bit, in the order of the code, and the translation of a word
  along a table of bits.\<close>

definition access_table :: "(mode \<times> access) list" where
  "access_table = [(S_ISUID, SPR_FILE_ACCESS_USETID), (S_IRUSR, SPR_FILE_ACCESS_UR),
     (S_IWUSR, SPR_FILE_ACCESS_UW), (S_IXUSR, SPR_FILE_ACCESS_UX),
     (S_ISGID, SPR_FILE_ACCESS_GSETID), (S_IRGRP, SPR_FILE_ACCESS_GR),
     (S_IWGRP, SPR_FILE_ACCESS_GW), (S_IXGRP, SPR_FILE_ACCESS_GX),
     (S_ISVTX, SPR_FILE_ACCESS_STICKY), (S_IROTH, SPR_FILE_ACCESS_OR),
     (S_IWOTH, SPR_FILE_ACCESS_OW), (S_IXOTH, SPR_FILE_ACCESS_OX)]"

definition translate :: "('a::len word \<times> 'b::len word) list \<Rightarrow> 'a word \<Rightarrow> 'b word" where
  "translate T x = fold (\<lambda>(b, g) a. if x AND b \<noteq> 0 then a OR g else a) T 0"

definition mode_of_access :: "access \<Rightarrow> mode" where
  "mode_of_access = translate (map prod.swap access_table)"

lemma get_access_translate: "spr_stat_get_access st = translate access_table (st_mode st)"
  by (simp add: spr_stat_get_access_def translate_def access_table_def set_access_def Let_def)

lemma or_nonzero: "x OR y \<noteq> 0 \<longleftrightarrow> x \<noteq> 0 \<or> y \<noteq> 0" for x y :: "'a::len word"
  by (metis or_eq_0_iff)

lemma fold_translate_and:
  fixes f :: "'b::len word"
  shows "fold (\<lambda>(b, g) a. if x AND b \<noteq> 0 then a OR g else a) T a AND f \<noteq> 0
    \<longleftrightarrow> a AND f \<noteq> 0 \<or> (\<exists>(b, g)\<in>set T. x AND b \<noteq> 0 \<and> g AND f \<noteq> 0)"
proof (induction T arbitrary: a)
  case (Cons p T)
  obtain b g where p: "p = (b, g)" by (cases p)
  have "(a OR g) AND f \<noteq> 0 \<longleftrightarrow> a AND f \<noteq> 0 \<or> g AND f \<noteq> 0"
    unfolding bit.conj_disj_distrib2 by (rule or_nonzero)
  then show ?case using Cons.IH by (auto simp: p)
qed simp

text \<open>Tables whose target bits do not overlap.\<close>

lemma translate_flag:
  assumes "(b, g) \<in> set T" "\<forall>(b', g')\<in>set T. g' AND g \<noteq> 0 \<longleftrightarrow> b' = b"
  shows "translate T x AND g \<noteq> 0 \<longleftrightarrow> x AND b \<noteq> 0"
  using assms fold_translate_and [of x T 0 g] unfolding translate_def by auto

lemma access_table_disjoint: "\<forall>(b, g)\<in>set access_table. \<forall>(b', g')\<in>set access_table. g' AND g \<noteq> 0 \<longleftrightarrow> b' = b"
  by (simp add: access_table_def access_bits mode_bits)

lemma get_access_flag:
  assumes "(b, g) \<in> set access_table"
  shows "spr_stat_get_access st AND g \<noteq> 0 \<longleftrightarrow> st_mode st AND b \<noteq> 0"
  unfolding get_access_translate using assms access_table_disjoint by (intro translate_flag) auto

lemma fold_single_bits:
  fixes T :: "('a::len word \<times> 'b::len word) list"
  assumes "\<forall>(g, b)\<in>set T. (a AND g \<noteq> 0 \<longleftrightarrow> x AND b \<noteq> 0) \<and> (\<exists>i. b = 2 ^ i)"
  shows "fold (\<lambda>(g, b) m. if a AND g \<noteq> 0 then m OR b else m) T m = m OR (x AND fold (\<lambda>(g, b) m. m OR b) T 0)"
  using assms
proof (induction T arbitrary: m)
  case (Cons p T)
  obtain g b where p: "p = (g, b)" by (cases p)
  have out: "fold (\<lambda>(g, b) m. m OR b) T c = c OR fold (\<lambda>(g, b) m. m OR b) T 0" for c
  proof (induction T arbitrary: c)
    case (Cons q T)
    obtain g' b' where q: "q = (g', b')" by (cases q)
    show ?case using Cons.IH [of "c OR b'"] Cons.IH [of b'] by (simp add: q or.assoc)
  qed simp
  obtain i where "b = 2 ^ i" "a AND g \<noteq> 0 \<longleftrightarrow> x AND b \<noteq> 0" using Cons.prems by (auto simp: p)
  then have "(if a AND g \<noteq> 0 then m OR b else m) = m OR (x AND b)"
    using and_single_bit [of x i] by (cases "x AND b = 0") simp_all
  then show ?case using Cons.IH [of "m OR (x AND b)"] Cons.prems out [of b]
    by (auto simp: p or.assoc bit.conj_disj_distrib)
qed simp

lemma access_table_single: "\<forall>(g, b)\<in>set (map prod.swap access_table). \<exists>i. b = 2 ^ i"
proof -
  have "\<exists>i. (2 ^ k :: mode) = 2 ^ i" for k by blast
  from this [of 0] this [of 1] this [of 2] this [of 3] this [of 4] this [of 5] this [of 6] this [of 7]
    this [of 8] this [of 9] this [of 10] this [of 11]
  show ?thesis by (simp add: access_table_def mode_bits)
qed

text \<open>C22: The access bits of \<^verbatim>\<open>spr_stat_get_access\<close> lose nothing and add nothing: translating them back
  along the same table gives exactly the twelve permission bits of the mode, set-id and sticky
  bits included, for every mode word.\<close>

theorem access_bits_roundtrip:
  "mode_of_access (spr_stat_get_access st) = st_mode st AND 0xfff \<and>
   (\<forall>(b, g)\<in>set access_table. spr_stat_get_access st AND g \<noteq> 0 \<longleftrightarrow> st_mode st AND b \<noteq> 0)"
proof
  let ?a = "spr_stat_get_access st" and ?x = "st_mode st"
  have "\<forall>(g, b)\<in>set (map prod.swap access_table). (?a AND g \<noteq> 0 \<longleftrightarrow> ?x AND b \<noteq> 0) \<and> (\<exists>i. b = 2 ^ i)"
    using access_table_single get_access_flag [of _ _ st] by fastforce
  from fold_single_bits [OF this, of 0]
  have "mode_of_access ?a = ?x AND fold (\<lambda>(g, b) m. m OR b) (map prod.swap access_table) 0"
    by (simp add: mode_of_access_def translate_def)
  also have "fold (\<lambda>(g, b) m. m OR b) (map prod.swap access_table) 0 = (0xfff :: mode)"
    by (simp add: access_table_def mode_bits)
  finally show "mode_of_access ?a = ?x AND 0xfff" .
  show "\<forall>(b, g)\<in>set access_table. ?a AND g \<noteq> 0 \<longleftrightarrow> ?x AND b \<noteq> 0"
    using get_access_flag by auto
qed

theorem access_bits_roundtrip_witness:
  "mode_of_access (spr_stat_get_access \<lparr>st_mode = 0x89ed\<rparr>) = 0x9ed"
  using access_bits_roundtrip [of "\<lparr>st_mode = 0x89ed\<rparr>"] by simp

text \<open>\<^verbatim>\<open>spr_stat_get_file_type\<close> decides the type by the format field of the mode alone: each of the
  seven formats gets its type, and every other field value the unknown type.\<close>

definition format_types :: "file_types \<Rightarrow> (mode \<times> file_type) list" where
  "format_types T = [(S_IFREG, SPR_FILE_TYPE_FILE T), (S_IFDIR, SPR_FILE_TYPE_DIR T),
     (S_IFCHR, SPR_FILE_TYPE_CHR T), (S_IFBLK, SPR_FILE_TYPE_BLK T), (S_IFIFO, SPR_FILE_TYPE_PIPE T),
     (S_IFLNK, SPR_FILE_TYPE_LINK T), (S_IFSOCK, SPR_FILE_TYPE_SOCK T)]"

lemma file_type_by_format:
  "spr_stat_get_file_type T st = (case map_of (format_types T) (st_mode st AND S_IFMT) of
     Some t \<Rightarrow> t | None \<Rightarrow> SPR_FILE_TYPE_UNKFILE T)"
  by (simp add: spr_stat_get_file_type_def format_types_def Let_def mode_bits)

section \<open>The contract of the file calls\<close>

text \<open>
  What POSIX documents of \<open>lseek\<close>, \<open>read\<close> and \<open>write\<close> on a regular file, over two views of the
  system state: the position and the content of the file behind a descriptor. A write may be
  short but makes progress; a read may be short; a call that fails changes no content.
\<close>

definition overwrite :: "byte list \<Rightarrow> nat \<Rightarrow> byte list \<Rightarrow> byte list" where
  "overwrite c p bs = (if bs = [] then c
     else take p c @ replicate (p - length c) 0 @ bs @ drop (p + length bs) c)"

definition lseek_contract :: "'k kernel \<Rightarrow> int \<Rightarrow> ('k \<Rightarrow> nat) \<Rightarrow> ('k \<Rightarrow> byte list) \<Rightarrow> bool" where
  "lseek_contract K fd pos content \<longleftrightarrow> (\<forall>k.
     (\<forall>off\<ge>0. case k_lseek K fd off SEEK_SET k of (r, k') \<Rightarrow> content k' = content k \<and>
       (r = -1 \<or> r = off \<and> pos k' = nat off)) \<and>
     (case k_lseek K fd 0 SEEK_CUR k of (r, k') \<Rightarrow> content k' = content k \<and> pos k' = pos k \<and>
       (r = -1 \<or> r = int (pos k))) \<and>
     (case k_lseek K fd 0 SEEK_END k of (r, k') \<Rightarrow> content k' = content k \<and>
       (r = -1 \<or> r = int (length (content k)))))"

definition write_contract :: "'k kernel \<Rightarrow> int \<Rightarrow> ('k \<Rightarrow> nat) \<Rightarrow> ('k \<Rightarrow> byte list) \<Rightarrow> bool" where
  "write_contract K fd pos content \<longleftrightarrow> (\<forall>k bs. case k_write K fd bs k of (n, k') \<Rightarrow>
     n = -1 \<and> content k' = content k \<or>
     0 \<le> n \<and> nat n \<le> length bs \<and> (bs \<noteq> [] \<longrightarrow> 0 < n) \<and> pos k' = pos k + nat n \<and>
       content k' = overwrite (content k) (pos k) (take (nat n) bs))"

definition read_contract :: "'k kernel \<Rightarrow> int \<Rightarrow> ('k \<Rightarrow> nat) \<Rightarrow> ('k \<Rightarrow> byte list) \<Rightarrow> bool" where
  "read_contract K fd pos content \<longleftrightarrow> (\<forall>k n. case k_read K fd n k of
     (None, k') \<Rightarrow> content k' = content k
   | (Some bs, k') \<Rightarrow> content k' = content k \<and> (\<exists>j\<le>n. bs = take j (drop (pos k) (content k))))"

lemma overwrite_Nil [simp]: "overwrite c p [] = c"
  by (simp add: overwrite_def)

lemma split_at: "length d = n \<Longrightarrow> take n (d @ r) = d \<and> drop (n + k) (d @ r) = drop k r"
  by auto

lemma overwrite_append: "overwrite (overwrite c p xs) (p + length xs) ys = overwrite c p (xs @ ys)"
proof (cases "xs = [] \<or> ys = []")
  case False
  let ?d = "take p c @ replicate (p - length c) 0 @ xs" and ?r = "drop (p + length xs) c"
  have len: "length ?d = p + length xs" by simp
  have ov: "overwrite c p xs = ?d @ ?r" using False by (simp add: overwrite_def)
  have "length (?d @ ?r) \<ge> p + length xs" by simp
  then have "overwrite (?d @ ?r) (p + length xs) ys = ?d @ ys @ drop (length ys) ?r"
    using False split_at [OF len, of ?r "length ys"] by (simp add: overwrite_def del: append_assoc)
  also have "\<dots> = overwrite c p (xs @ ys)"
    using False by (simp add: overwrite_def ac_simps)
  finally show ?thesis unfolding ov .
qed auto

lemma overwrite_read: "drop p (overwrite c p bs) = bs @ drop (p + length bs) c" if "bs \<noteq> []"
  using that by (simp add: overwrite_def)

section \<open>Writing\<close>

lemma read_bytes_eq: "bytes_at e m a bs \<Longrightarrow> read_bytes e a (length bs) m = Some bs"
  unfolding bytes_at_iff_nth
  by (auto simp: read_bytes_def load_byte_def list_all_iff intro!: nth_equalityI split: if_splits)

text \<open>One turn of the loop, for a call that answered \<open>j\<close>.\<close>

lemma write_loop_step:
  assumes bs: "bytes_at e m (buf + written) bs" "n = of_nat (length bs)" "unat written + length bs < 2 ^ 63"
    and call: "fst (k_write K (fl_fd fl) bs k) = int j" "j \<le> length bs"
  defines "k' \<equiv> snd (k_write K (fl_fd fl) bs k)"
  shows "unat (written + of_nat j) = unat written + j"
    "write_loop K e m buf written n fl k =
      (if j = length bs then Some (int (unat written + j), fl\<lparr>fl_offset := fl_offset fl + n\<rparr>, k')
       else write_loop K e m buf (written + of_nat j) (n - of_nat j)
         (fl\<lparr>fl_offset := fl_offset fl + of_nat j\<rparr>) k')"
proof -
  have un: "unat n = length bs" using bs(2,3) by (simp add: unat_of_nat_exact)
  have rd: "read_bytes e (buf + written) (unat n) m = Some bs" unfolding un by (rule read_bytes_eq [OF bs(1)])
  have uj: "unat (of_nat j :: size) = j" using call(2) bs(3) by (intro unat_of_nat_exact) simp
  show "unat (written + of_nat j) = unat written + j"
    using uj call(2) bs(3) by (subst unat_add_exact) simp_all
  have "(of_nat j :: size) = n \<longleftrightarrow> j = length bs"
    unfolding word_unat_eq_iff uj un by (rule refl)
  moreover have "sint (written + of_nat j) = int (unat written + j)"
  proof -
    have "written + of_nat j = of_nat (unat written + j)" by simp
    then show ?thesis using bs(3) call(2) by (simp only: sint_small)
  qed
  ultimately show "write_loop K e m buf written n fl k =
      (if j = length bs then Some (int (unat written + j), fl\<lparr>fl_offset := fl_offset fl + n\<rparr>, k')
       else write_loop K e m buf (written + of_nat j) (n - of_nat j)
         (fl\<lparr>fl_offset := fl_offset fl + of_nat j\<rparr>) k')"
    using rd call(1) bs(2) by (subst write_loop.simps, cases "j = length bs") (simp_all add: Let_def k'_def)
qed

lemma write_loop_ok:
  assumes contract: "write_contract K (fl_fd fl) pos content"
    and "bytes_at e m (buf + written) bs" "n = of_nat (length bs)" "unat written + length bs < 2 ^ 63"
  shows "\<exists>r f k'. write_loop K e m buf written n fl k = Some (r, f, k') \<and>
    (r = -1 \<and> (\<exists>j\<le>length bs. content k' = overwrite (content k) (pos k) (take j bs)) \<or>
     r = int (unat written + length bs) \<and> f = fl\<lparr>fl_offset := fl_offset fl + n\<rparr> \<and>
       content k' = overwrite (content k) (pos k) bs)"
  using assms
proof (induction "length bs" arbitrary: bs written n fl k rule: less_induct)
  case less
  let ?r = "fst (k_write K (fl_fd fl) bs k)" and ?k = "snd (k_write K (fl_fd fl) bs k)"
  have c: "?r = -1 \<and> content ?k = content k \<or> 0 \<le> ?r \<and> nat ?r \<le> length bs \<and> (bs \<noteq> [] \<longrightarrow> 0 < ?r) \<and>
      pos ?k = pos k + nat ?r \<and> content ?k = overwrite (content k) (pos k) (take (nat ?r) bs)"
    using less.prems(1) unfolding write_contract_def case_prod_beta by blast
  show ?case
  proof (cases "?r = -1")
    case True
    have "read_bytes e (buf + written) (unat n) m = Some bs"
      using read_bytes_eq [OF less.prems(2)] less.prems(3,4) by (simp add: unat_of_nat_exact)
    then show ?thesis using True c by (subst write_loop.simps) (auto intro: exI [of _ 0])
  next
    case False
    define j where "j = nat ?r"
    have j: "?r = int j" "j \<le> length bs" "bs \<noteq> [] \<longrightarrow> 0 < j" "pos ?k = pos k + j"
      "content ?k = overwrite (content k) (pos k) (take j bs)"
      using c False by (auto simp: j_def)
    note step = write_loop_step [OF less.prems(2,3,4) j(1,2)]
    show ?thesis
    proof (cases "j = length bs")
      case True
      then show ?thesis using j step(2) by auto
    next
      case False
      let ?fl = "fl\<lparr>fl_offset := fl_offset fl + of_nat j\<rparr>" and ?n = "n - of_nat j"
      have "bytes_at e m (buf + written) (take j bs @ drop j bs)" using less.prems(2) by simp
      then have "bytes_at e m (buf + (written + of_nat j)) (drop j bs)"
        using j(2) unfolding bytes_at_append by (simp add: add.assoc)
      moreover have "?n = of_nat (length (drop j bs))" using j(2) less.prems(3) by (simp add: of_nat_diff)
      moreover have "length (drop j bs) < length bs" using False j(2,3) by (cases bs) auto
      ultimately obtain r f k' where IH: "write_loop K e m buf (written + of_nat j) ?n ?fl ?k = Some (r, f, k')"
        "r = -1 \<and> (\<exists>i\<le>length (drop j bs). content k' = overwrite (content ?k) (pos ?k) (take i (drop j bs))) \<or>
         r = int (unat (written + of_nat j) + length (drop j bs)) \<and>
           f = ?fl\<lparr>fl_offset := fl_offset ?fl + ?n\<rparr> \<and> content k' = overwrite (content ?k) (pos ?k) (drop j bs)"
        using less.hyps [of "drop j bs" ?fl "written + of_nat j" ?n ?k] less.prems(1,4) step(1) j(2) by auto
      have ov: "overwrite (content ?k) (pos ?k) xs = overwrite (content k) (pos k) (take j bs @ xs)" for xs
        using overwrite_append [of "content k" "pos k" "take j bs" xs] j by simp
      have "take j bs @ take i (drop j bs) = take (j + i) bs" for i by (simp add: take_add)
      then show ?thesis using IH step False j(2) unfolding ov
        by (auto intro!: exI [of _ "j + _"])
    qed
  qed
qed

text \<open>The kernel of the examples: one file of at most 4 bytes per write, whose position and content are
  the system state.\<close>

definition sample_kernel :: "(nat \<times> byte list) kernel" where
  "sample_kernel = \<lparr>k_errno = (\<lambda>k. 2),
     k_open = (\<lambda>path flags access m k. (-1, k)),
     k_lseek = (\<lambda>fd off w (p, c). case w of
        SEEK_SET \<Rightarrow> (off, (nat off, c)) | SEEK_CUR \<Rightarrow> (int p, (p, c)) | SEEK_END \<Rightarrow> (int (length c), (length c, c))),
     k_read = (\<lambda>fd n (p, c). (Some (take n (drop p c)), (p + n, c))),
     k_write = (\<lambda>fd bs (p, c). let n = min 4 (length bs) in (int n, (p + n, overwrite c p (take n bs)))),
     k_stat = (\<lambda>path m k. (None, k)), k_fstat = (\<lambda>fd k. (None, k)), k_close = (\<lambda>fd k. k),
     k_opendir = (\<lambda>path m k. (NULL, k)), k_readdir = (\<lambda>d k. (None, k)), k_closedir = (\<lambda>d k. k),
     k_glob = (\<lambda>path m k. (0, [], k))\<rparr>"

lemma sample_kernel_ok:
  "lseek_contract sample_kernel fd fst snd" "write_contract sample_kernel fd fst snd"
  "read_contract sample_kernel fd fst snd"
  by (auto simp: sample_kernel_def lseek_contract_def write_contract_def read_contract_def Let_def min_def)

lemma seek_set:
  assumes "lseek_contract K fd pos content" "0 \<le> off"
  shows "content (snd (k_lseek K fd off SEEK_SET k)) = content k"
    "fst (k_lseek K fd off SEEK_SET k) = -1 \<or> fst (k_lseek K fd off SEEK_SET k) = off \<and>
      pos (snd (k_lseek K fd off SEEK_SET k)) = nat off"
  using assms unfolding lseek_contract_def case_prod_beta by blast+

lemma file_write_ok:
  assumes "lseek_contract K (fl_fd fl) pos content" "write_contract K (fl_fd fl) pos content"
    and "bytes_at e m buf bs" "length bs = unat n" "unat n < 2 ^ 63" "0 \<le> sint offset"
  shows "\<exists>r f k'. spr_file_write K e buf n offset m (fl, k) = Some (r, f, k') \<and>
    (r = int (unat n) \<and> f = fl\<lparr>fl_offset := fl_offset fl + n\<rparr> \<and>
       content k' = overwrite (content k) (nat (sint offset)) bs \<or>
     r = -1 \<and> (\<exists>j\<le>unat n. content k' = overwrite (content k) (nat (sint offset)) (take j bs)))"
proof -
  let ?r = "fst (k_lseek K (fl_fd fl) (sint offset) SEEK_SET k)"
  let ?k = "snd (k_lseek K (fl_fd fl) (sint offset) SEEK_SET k)"
  note seek = seek_set [OF assms(1,6), of k]
  have open_call: "spr_file_write K e buf n offset m (fl, k)
      = (if ?r = -1 then Some (-1, fl, ?k) else write_loop K e m buf 0 n fl ?k)"
    by (simp add: spr_file_write_def case_prod_beta)
  show ?thesis
  proof (cases "?r = -1")
    case True
    then show ?thesis using open_call seek(1) by (auto intro: exI [of _ 0])
  next
    case False
    then show ?thesis using open_call seek assms(4,5)
        write_loop_ok [OF assms(2), of e m buf 0 bs n ?k] assms(3) by auto
  qed
qed

text \<open>C8: \<^verbatim>\<open>spr_file_write\<close> returns, however short the writes of the system are as long as each makes
  progress, and then either all bytes of the buffer stand in the file at the given offset, the
  result is their number and the offset field has grown by it, or the result is -1 and the file
  holds its old content with at most a prefix of the buffer at that offset.\<close>

theorem file_write_complete:
  assumes "lseek_contract K (fl_fd fl) pos content" "write_contract K (fl_fd fl) pos content"
    and "bytes_at e m buf bs" "length bs = unat n" "unat n < 2 ^ 63" "0 \<le> sint offset"
  shows "\<exists>r f k'. spr_file_write K e buf n offset m (fl, k) = Some (r, f, k') \<and>
    (r = int (unat n) \<and> f = fl\<lparr>fl_offset := fl_offset fl + n\<rparr> \<and>
       content k' = overwrite (content k) (nat (sint offset)) bs \<or>
     r = -1 \<and> (\<exists>j\<le>unat n. content k' = overwrite (content k) (nat (sint offset)) (take j bs)))"
  by (rule file_write_ok [OF assms])

theorem file_write_complete_witness:
  "\<exists>r f k'. spr_file_write sample_kernel sample_env 4400 6 1 sample_utf8 (zero_file, (0, [9, 9])) = Some (r, f, k') \<and>
    (r = 6 \<and> snd k' = [9, 0xc3, 0xa9, 0xf0, 0x9f, 0x98, 0x80] \<or> r = -1)"
proof -
  have "bytes_at sample_env sample_utf8 4400 [0xc3, 0xa9, 0xf0, 0x9f, 0x98, 0x80]"
    using sample_utf8_text by (simp add: utf8_def)
  from file_write_complete [where fl = zero_file and n = 6 and offset = 1 and k = "(0, [9, 9])",
      OF sample_kernel_ok(1,2) this]
  show ?thesis by (fastforce simp: overwrite_def)
qed

section \<open>Reading back\<close>

lemma store_bytes_ok:
  assumes "length bs < 2 ^ 63" "\<forall>i<length bs. accessible e (blocks m) (a + of_nat i)"
  shows "\<exists>m'. store_bytes e a bs m = Some m' \<and> bytes_at e m' a bs \<and> blocks m' = blocks m \<and>
    (\<forall>x. (\<forall>i<length bs. x \<noteq> a + of_nat i) \<longrightarrow> bytes m' x = bytes m x)"
  using assms
proof (induction bs arbitrary: a m)
  case (Cons b bs)
  let ?m = "m\<lparr>bytes := (bytes m)(a := b)\<rparr>"
  have acc: "accessible e (blocks m) a" using Cons.prems(2) by force
  have "\<forall>i<length bs. accessible e (blocks ?m) (a + 1 + of_nat i)"
    using Cons.prems(2) by (auto simp: add.assoc)
  then obtain m' where m': "store_bytes e (a + 1) bs ?m = Some m'" "bytes_at e m' (a + 1) bs"
    "blocks m' = blocks m" "\<forall>x. (\<forall>i<length bs. x \<noteq> a + 1 + of_nat i) \<longrightarrow> bytes m' x = bytes ?m x"
    using Cons.IH [of ?m "a + 1"] Cons.prems(1) by auto
  have "a \<noteq> a + 1 + of_nat i" if "i < length bs" for i
  proof -
    have "unat (of_nat (Suc i) :: addr) = Suc i" using that Cons.prems(1) by (intro unat_of_nat_exact) simp
    then have "(of_nat (Suc i) :: addr) \<noteq> 0" by (metis unat_0 nat.simps(3))
    then show ?thesis by (simp add: add.assoc)
  qed
  then have "load_byte e a m' = Some b" using m'(3,4) acc by (simp add: load_byte_def)
  moreover have "bytes m' x = bytes m x" if "\<forall>i<Suc (length bs). x \<noteq> a + of_nat i" for x
    using m'(4) that by (auto simp: All_less_Suc2 add.assoc)
  ultimately show ?case using m' acc by (simp add: store_byte_def)
qed simp

text \<open>C20: What \<^verbatim>\<open>spr_file_write\<close> has written, \<^verbatim>\<open>spr_file_read\<close> reads back: after a complete write at
  an offset, reading at the same offset through the same descriptor returns the number j of bytes that
  the system delivers, at most n, and stores the first j bytes of the written buffer; it returns -1 and
  stores nothing exactly when \<^verbatim>\<open>lseek\<close> or \<^verbatim>\<open>read\<close> fails. This holds whatever the position of the
  descriptor, the fields of the file and the client's memory are by then, as long as the content
  of the file is still the one the write left.\<close>

theorem file_write_read_roundtrip:
  assumes "lseek_contract K (fl_fd fl) pos content" "write_contract K (fl_fd fl) pos content"
      "read_contract K (fl_fd fl) pos content"
    and "bytes_at e m buf bs" "length bs = unat n" "unat n < 2 ^ 63" "0 \<le> sint offset"
    and "\<forall>i<unat n. accessible e (blocks m2) (dst + of_nat i)"
    and w: "spr_file_write K e buf n offset m (fl, k) = Some (int (unat n), f, k')"
    and later: "content k2 = content k'" "fl_fd f2 = fl_fd fl"
  shows "\<exists>r m' f' k''. spr_file_read K e dst n offset m2 (f2, k2) = Some (r, m', f', k'') \<and>
    (case k_lseek K (fl_fd fl) (sint offset) SEEK_SET k2 of (p, k3) \<Rightarrow>
      if p = -1 then r = -1 \<and> m' = m2
      else case fst (k_read K (fl_fd fl) (unat n) k3) of
        None \<Rightarrow> r = -1 \<and> m' = m2
      | Some xs \<Rightarrow> \<exists>j\<le>unat n. length xs = j \<and> r = int j \<and> bytes_at e m' dst (take j bs))"
proof -
  have content: "content k2 = overwrite (content k) (nat (sint offset)) bs" and fd: "fl_fd f2 = fl_fd fl"
    using file_write_ok [OF assms(1,2,4-7), of k] w later by (auto simp del: of_nat_unat)
  let ?s = "k_lseek K (fl_fd f2) (sint offset) SEEK_SET k2"
  note seek = seek_set [OF assms(1,7), of k2]
  show ?thesis
  proof (cases "fst ?s = -1")
    case True
    then show ?thesis by (auto simp: spr_file_read_def case_prod_beta fd)
  next
    case False
    then have pos: "pos (snd ?s) = nat (sint offset)" "content (snd ?s) = content k2"
      using seek by (auto simp: fd)
    have rd: "case k_read K (fl_fd f2) (unat n) (snd ?s) of (None, k') \<Rightarrow> content k' = content (snd ?s)
        | (Some xs, k') \<Rightarrow> content k' = content (snd ?s) \<and> (\<exists>j\<le>unat n. xs = take j (drop (pos (snd ?s)) (content (snd ?s))))"
      unfolding fd by (rule assms(3) [unfolded read_contract_def, THEN spec, THEN spec])
    show ?thesis
    proof (cases "fst (k_read K (fl_fd f2) (unat n) (snd ?s))")
      case None
      then show ?thesis using False by (simp add: spr_file_read_def case_prod_beta fd)
    next
      case (Some xs)
      then obtain j where j: "j \<le> unat n" "xs = take j (drop (nat (sint offset)) (content k2))"
        using rd pos by (auto simp: case_prod_beta)
      have xs: "xs = take j bs"
        using j assms(5) overwrite_read [of bs "nat (sint offset)" "content k"] unfolding content
        by (cases "bs = []") (simp_all add: overwrite_def)
      have len: "length xs = j" using xs j assms(5) by simp
      obtain m' where "store_bytes e dst xs m2 = Some m'" "bytes_at e m' dst xs"
        using store_bytes_ok [of xs e m2 dst] len j(1) assms(6,8) by auto
      then show ?thesis using False Some xs len j(1)
        by (auto simp: spr_file_read_def case_prod_beta fd)
    qed
  qed
qed

theorem file_write_read_roundtrip_witness:
  "\<exists>m' f' k2. spr_file_read sample_kernel sample_env 4408 4 0 sample_utf8
      (zero_file, (1, [0xc3, 0xa9, 0xf0, 0x9f])) = Some (4, m', f', k2) \<and>
    bytes_at sample_env m' 4408 [0xc3, 0xa9, 0xf0, 0x9f]"
proof -
  have b: "bytes_at sample_env sample_utf8 4400 [0xc3, 0xa9, 0xf0, 0x9f]"
    using sample_utf8_text by (simp add: utf8_def)
  have acc: "\<forall>i<unat (4 :: size). accessible sample_env (blocks sample_utf8) (4408 + of_nat i)"
    using sample_block_access [of 4408] by (simp add: sample_blocks)
  have "read_bytes sample_env 4400 4 sample_utf8 = Some [0xc3, 0xa9, 0xf0, 0x9f]"
    using read_bytes_eq [OF b] by (simp add: eval_nat_numeral)
  then have w: "spr_file_write sample_kernel sample_env 4400 4 0 sample_utf8 (zero_file, (0, []))
      = Some (4, zero_file\<lparr>fl_offset := 4\<rparr>, (4, [0xc3, 0xa9, 0xf0, 0x9f]))"
    by (simp add: spr_file_write_def write_loop.simps sample_kernel_def overwrite_def zero_file_def Let_def)
  have "k_lseek sample_kernel (fl_fd zero_file) 0 SEEK_SET (1, [0xc3, 0xa9, 0xf0, 0x9f]) = (0, (0, [0xc3, 0xa9, 0xf0, 0x9f]))"
    "fst (k_read sample_kernel (fl_fd zero_file) 4 (0, [0xc3, 0xa9, 0xf0, 0x9f])) = Some [0xc3, 0xa9, 0xf0, 0x9f]"
    by (simp_all add: sample_kernel_def)
  then show ?thesis
    using file_write_read_roundtrip [where fl = zero_file and n = 4 and offset = 0 and k = "(0, [])" and
        k' = "(4, [0xc3, 0xa9, 0xf0, 0x9f])" and
        ?f2.0 = zero_file and ?k2.0 = "(1, [0xc3, 0xa9, 0xf0, 0x9f])", OF sample_kernel_ok b _ _ _ acc] w
    by simp
qed

section \<open>Sizes, failed opens, directory ends\<close>

text \<open>\<^verbatim>\<open>spr_file_size\<close> answers the size of the file and puts the descriptor back to the position it
  had, so that it can be asked in the middle of reading; or it answers -1. The content is never
  changed.\<close>

theorem file_size_keeps_position:
  assumes "lseek_contract K (fl_fd fl) pos content"
  shows "case spr_file_size K fl k of (r, k') \<Rightarrow> content k' = content k \<and>
    (r = -1 \<or> r = int (length (content k)) \<and> pos k' = pos k)"
proof -
  let ?c = "k_lseek K (fl_fd fl) 0 SEEK_CUR k"
  let ?e = "k_lseek K (fl_fd fl) 0 SEEK_END (snd ?c)"
  have c: "content (snd ?c) = content k" "fst ?c = -1 \<or> fst ?c = int (pos k)"
    and e: "content (snd ?e) = content (snd ?c)" "fst ?e = -1 \<or> fst ?e = int (length (content (snd ?c)))"
    using assms unfolding lseek_contract_def case_prod_beta by blast+
  show ?thesis
  proof (cases "fst ?c = -1")
    case False
    then show ?thesis using c e seek_set [OF assms, of "fst ?c" "snd ?e"]
      by (auto simp: spr_file_size_def case_prod_beta)
  qed (use c in \<open>simp add: spr_file_size_def case_prod_beta\<close>)
qed

theorem file_size_keeps_position_witness:
  "case spr_file_size sample_kernel zero_file (1, [5, 6, 7]) of (r, k') \<Rightarrow> snd k' = [5, 6, 7] \<and>
    (r = -1 \<or> r = 3 \<and> fst k' = 1)"
  using file_size_keeps_position [OF sample_kernel_ok(1), where fl = zero_file and k = "(1, [5, 6, 7])"] by simp

text \<open>When \<^verbatim>\<open>spr_file_open\<close> fails, the file structure has been cleared and names descriptor 0: a
  following \<^verbatim>\<open>spr_file_close\<close> closes the standard input of the process, and a read or a write
  through the structure goes to it.\<close>

theorem failed_open_names_stdin:
  assumes "k_open K path (ucast (mode OR create)) (ucast access) m k = (SPR_INVALID_FILE, k')"
  shows "spr_file_open K path mode create access m (fl, k) = (k_errno K k', zero_file, k') \<and>
    spr_file_close K (Some zero_file, k') = (Some (zero_file\<lparr>fl_fd := -1\<rparr>), k_close K 0 k')"
  using assms by (simp add: spr_file_open_def spr_file_close_def zero_file_def SPR_INVALID_FILE_def)

theorem failed_open_names_stdin_witness:
  "spr_file_open sample_kernel 4400 0 0 0 sample_utf8 (zero_file, (0, [])) = (2, zero_file, (0, []))"
  using failed_open_names_stdin [where K = sample_kernel and path = 4400 and mode = 0 and create = 0
      and access = 0 and m = sample_utf8 and k = "(0, [])" and k' = "(0, [])" and fl = zero_file]
  by (simp add: sample_kernel_def SPR_INVALID_FILE_def)

text \<open>At the end of a directory \<^verbatim>\<open>spr_dir_read\<close> answers \<^verbatim>\<open>SPR_DONE\<close> only if the error number
  happens to be zero: the code does not clear it before the call, so an error number left by any
  earlier call is reported as the failure of a directory that was read to its end.\<close>

theorem dir_end_with_stale_errno:
  assumes "k_readdir K (dr_dir d) k = (None, k')"
  shows "spr_dir_read K (d, k) = (if k_errno K k' = 0 then SPR_DONE else k_errno K k', d\<lparr>dr_dirent := None\<rparr>, k')"
  using assms by (simp add: spr_dir_read_def dir_next_def Let_def SPR_OK_def)

theorem dir_end_with_stale_errno_witness:
  "spr_dir_read sample_kernel (zero_dir, (0, [])) = (2, zero_dir, (0, []))"
  using dir_end_with_stale_errno [where K = sample_kernel and d = zero_dir and k = "(0, [])" and k' = "(0, [])"]
  by (simp add: sample_kernel_def zero_dir_def)

section \<open>Paths\<close>

lemma wildcard_eq:
  assumes "bytes_at e m p (s @ [0])" "0 \<notin> set s"
  shows "spr_is_path_has_wildcard e p m = Some (63 \<in> set s \<or> 42 \<in> set s)"
  using assms
proof (induction s arbitrary: p)
  case Nil
  then show ?case by (subst spr_is_path_has_wildcard.simps) simp
next
  case (Cons c s)
  then show ?case by (subst spr_is_path_has_wildcard.simps) auto
qed

text \<open>Writes behind what already stands in a buffer.\<close>

definition only_changed :: "addr \<Rightarrow> nat \<Rightarrow> nat \<Rightarrow> mem \<Rightarrow> mem \<Rightarrow> bool" where
  "only_changed buf i j m m' \<longleftrightarrow> blocks m' = blocks m \<and>
     (\<forall>x. (\<forall>k. i \<le> k \<and> k < j \<longrightarrow> x \<noteq> buf + of_nat k) \<longrightarrow> bytes m' x = bytes m x)"

lemma only_changed_trans:
  assumes "only_changed buf i j m m1" "only_changed buf j k m1 m2" "i \<le> j" "j \<le> k"
  shows "only_changed buf i k m m2"
  unfolding only_changed_def
proof (intro conjI allI impI)
  fix x assume x: "\<forall>l. i \<le> l \<and> l < k \<longrightarrow> x \<noteq> buf + of_nat l"
  have "bytes m2 x = bytes m1 x" using assms(2,3) x by (simp add: only_changed_def)
  moreover have "bytes m1 x = bytes m x" using assms(1,4) x by (simp add: only_changed_def)
  ultimately show "bytes m2 x = bytes m x" by simp
qed (use assms(1,2) in \<open>simp add: only_changed_def\<close>)

lemma only_changed_bytes_at:
  assumes "only_changed buf i j m m'" "bytes_at e m a bs"
    and "\<And>k l. i \<le> k \<Longrightarrow> k < j \<Longrightarrow> l < length bs \<Longrightarrow> a + of_nat l \<noteq> buf + of_nat k"
  shows "bytes_at e m' a bs"
proof (rule bytes_at_unchanged [OF assms(2)])
  show "blocks m' = blocks m" using assms(1) by (simp add: only_changed_def)
  show "\<forall>l<length bs. bytes m' (a + of_nat l) = bytes m (a + of_nat l)"
  proof (intro allI impI)
    fix l assume l: "l < length bs"
    have "\<forall>k. i \<le> k \<and> k < j \<longrightarrow> a + of_nat l \<noteq> buf + of_nat k" by (intro allI impI, elim conjE) (rule assms(3) [OF _ _ l])
    then show "bytes m' (a + of_nat l) = bytes m (a + of_nat l)"
      using assms(1) by (simp add: only_changed_def)
  qed
qed

lemma of_nat_addr_inj: "i < 2 ^ 63 \<Longrightarrow> j < 2 ^ 63 \<Longrightarrow> of_nat i = (of_nat j :: addr) \<longleftrightarrow> i = j"
proof -
  assume lt: "i < 2 ^ 63" "j < 2 ^ 63"
  have u: "unat (of_nat i :: addr) = i" "unat (of_nat j :: addr) = j" using lt by (auto intro!: unat_of_nat_exact)
  show ?thesis
  proof
    assume "of_nat i = (of_nat j :: addr)"
    then have "unat (of_nat i :: addr) = unat (of_nat j :: addr)" by (simp only:)
    then show "i = j" unfolding u .
  qed (simp only:)
qed

lemma memmove_append:
  assumes pre: "bytes_at e m buf pre" and src: "bytes_at e m src bs" "length bs = unat n"
    and len: "length pre + length bs < 2 ^ 63"
    and acc: "\<forall>i<length pre + length bs. accessible e (blocks m) (buf + of_nat i)"
  shows "\<exists>m'. spr_memmove e (buf + of_nat (length pre)) src n m = Some m' \<and> bytes_at e m' buf (pre @ bs) \<and>
    only_changed buf (length pre) (length pre + length bs) m m'"
proof -
  let ?dst = "buf + of_nat (length pre)"
  have "\<forall>k<unat n. accessible e (blocks m) (?dst + of_nat k)"
    using acc src(2) by (metis add.assoc nat_add_left_cancel_less of_nat_add)
  then obtain m' b where m': "spr_memmove e ?dst src n m = Some m'" "bytes_at e m' ?dst bs"
    "m' = m\<lparr>bytes := b\<rparr>" "\<forall>x. \<not> unat (x - ?dst) < unat n \<longrightarrow> b x = bytes m x"
    using memmove_ok [OF src, of ?dst] by blast
  have oc: "only_changed buf (length pre) (length pre + length bs) m m'"
    unfolding only_changed_def
  proof (intro conjI allI impI)
    fix x assume x: "\<forall>k. length pre \<le> k \<and> k < length pre + length bs \<longrightarrow> x \<noteq> buf + of_nat k"
    have "\<not> unat (x - ?dst) < unat n"
    proof
      assume "unat (x - ?dst) < unat n"
      then show False using x [rule_format, of "length pre + unat (x - ?dst)"] src(2) by simp
    qed
    then show "bytes m' x = bytes m x" using m'(3,4) by simp
  qed (simp add: m'(3))
  have "bytes_at e m' buf pre"
    using len by (intro only_changed_bytes_at [OF oc pre]) (simp add: of_nat_addr_inj)
  then show ?thesis using m'(1,2) oc by (auto simp: bytes_at_append)
qed

lemma store_append:
  assumes pre: "bytes_at e m buf pre" and len: "length pre < 2 ^ 62"
    and acc: "accessible e (blocks m) (buf + of_nat (length pre))"
  shows "\<exists>m'. store_byte e (buf + of_nat (length pre)) c m = Some m' \<and> bytes_at e m' buf (pre @ [c]) \<and>
    only_changed buf (length pre) (Suc (length pre)) m m'"
proof -
  let ?m = "m\<lparr>bytes := (bytes m)(buf + of_nat (length pre) := c)\<rparr>"
  have oc: "only_changed buf (length pre) (Suc (length pre)) m ?m"
    by (auto simp: only_changed_def)
  have "bytes_at e ?m buf pre"
    using len by (intro only_changed_bytes_at [OF oc pre]) (simp add: of_nat_addr_inj)
  then show ?thesis using acc oc by (auto simp: store_byte_def bytes_at_append load_byte_def)
qed

lemma full_path_ok:
  assumes path: "cstring e m path p" "p \<noteq> []" and fs: "cstring e m file f"
    and p': "p' = (if last p = sep then butlast p else p)"
    and len: "length p' + length f + 2 < 2 ^ 62"
    and acc: "\<forall>i<length p' + length f + 2. accessible e (blocks m) (buf + of_nat i)"
    and apart: "\<forall>i\<le>length p'. \<forall>j<length f. file + of_nat j \<noteq> buf + of_nat i"
  shows "\<exists>m'. spr_file_full_path e sep buf path file m = Some (of_nat (length p' + length f + 1), m') \<and>
    bytes_at e m' buf (p' @ [sep] @ f @ [0]) \<and> only_changed buf 0 (length p' + length f + 2) m m'"
proof -
  have pb: "bytes_at e m path p" and fb: "bytes_at e m file f" using path(1) fs by (auto intro: cstring_bytes)
  have lp: "length p < 2 ^ 63" "length f < 2 ^ 63" using path(1) fs by (auto simp: cstring_def)
  have last: "load_byte e (path + (of_nat (length p) - 1)) m = Some (last p)"
  proof -
    have "of_nat (length p - 1) = (of_nat (length p) - 1 :: addr)"
      using path(2) by (simp add: of_nat_diff Suc_le_eq)
    then show ?thesis
      using bytes_at_nth [OF pb, of "length p - 1"] path(2) by (simp add: last_conv_nth)
  qed
  have pl: "(if last p = sep then of_nat (length p) - 1 else of_nat (length p)) = (of_nat (length p') :: size)"
    using path(2) by (simp add: p' of_nat_diff Suc_le_eq)
  have pp: "bytes_at e m path p'"
  proof -
    have "p = p' @ drop (length p') p" using p' by (simp add: butlast_conv_take)
    then show ?thesis using pb bytes_at_append [of e m path p' "drop (length p') p"] by simp
  qed
  have un: "unat (of_nat (length p') :: size) = length p'" "unat (of_nat (length f) :: size) = length f"
    using len by (auto intro!: unat_of_nat_exact)
  obtain m1 where m1: "spr_memmove e buf path (of_nat (length p')) m = Some m1" "bytes_at e m1 buf p'"
    "only_changed buf 0 (length p') m m1"
    using memmove_append [of e m buf "[]" path p' "of_nat (length p')"] pp un(1) len acc by auto
  have b1: "blocks m1 = blocks m" using m1(3) by (simp add: only_changed_def)
  obtain m2 where m2: "store_byte e (buf + of_nat (length p')) sep m1 = Some m2" "bytes_at e m2 buf (p' @ [sep])"
    "only_changed buf (length p') (Suc (length p')) m1 m2"
    using store_append [OF m1(2), of sep] len acc b1 by auto
  have c2: "only_changed buf 0 (Suc (length p')) m m2" by (rule only_changed_trans [OF m1(3) m2(3)]) simp_all
  have b2: "blocks m2 = blocks m" using c2 by (simp add: only_changed_def)
  have f2: "bytes_at e m2 file f"
    using apart by (intro only_changed_bytes_at [OF c2 fb]) (simp add: less_Suc_eq_le)
  obtain m3 where m3: "spr_memmove e (buf + of_nat (length (p' @ [sep]))) file (of_nat (length f)) m2 = Some m3"
    "bytes_at e m3 buf ((p' @ [sep]) @ f)"
    "only_changed buf (length (p' @ [sep])) (length (p' @ [sep]) + length f) m2 m3"
    using memmove_append [OF m2(2) f2, of "of_nat (length f)"] un(2) len acc b2 by auto
  have c3: "only_changed buf 0 (Suc (length p' + length f)) m m3"
    using only_changed_trans [OF c2, of "Suc (length p') + length f" m3] m3(3) by simp
  have b3: "blocks m3 = blocks m" using c3 by (simp add: only_changed_def)
  have acc4: "accessible e (blocks m3) (buf + of_nat (length ((p' @ [sep]) @ f)))"
    using acc [rule_format, of "length p' + length f + 1"] b3 by (simp add: add.assoc)
  obtain m4 where m4: "store_byte e (buf + of_nat (length ((p' @ [sep]) @ f))) 0 m3 = Some m4"
    "bytes_at e m4 buf (((p' @ [sep]) @ f) @ [0])"
    "only_changed buf (length ((p' @ [sep]) @ f)) (Suc (length ((p' @ [sep]) @ f))) m3 m4"
    using store_append [OF m3(2) _ acc4, of 0] len by auto
  have "only_changed buf 0 (length p' + length f + 2) m m4"
    using only_changed_trans [OF c3, of "length p' + length f + 2" m4] m4(3) by simp
  moreover have "spr_file_full_path e sep buf path file m = Some (of_nat (length p' + length f + 1), m4)"
    using m1(1) m2(1) m3(1) m4(1) last
    by (simp add: spr_file_full_path_def strlen_eq [OF path(1)] strlen_eq [OF fs] spr_is_path_separator_def
      pl Let_def add.assoc add.commute add.left_commute)
  ultimately show ?thesis using m4(2) by auto
qed

text \<open>C21: \<^verbatim>\<open>spr_file_full_path\<close> on a path that is not empty joins the two strings with exactly one
  separator (a trailing separator of the path is not doubled), terminates the result, returns its
  length and writes nothing but these bytes, provided the buffer holds them and does not overlap
  the file name.\<close>

theorem full_path_joins:
  assumes "cstring e m path p" "p \<noteq> []" "cstring e m file_name f"
    and "p' = (if last p = sep then butlast p else p)"
    and "length p' + length f + 2 < 2 ^ 62"
    and "\<forall>i<length p' + length f + 2. accessible e (blocks m) (buf + of_nat i)"
    and "\<forall>i\<le>length p'. \<forall>j<length f. file_name + of_nat j \<noteq> buf + of_nat i"
  shows "\<exists>m'. spr_file_full_path e sep buf path file_name m = Some (of_nat (length p' + length f + 1), m') \<and>
    cstring e m' buf (p' @ [sep] @ f) = (sep \<noteq> 0) \<and> only_changed buf 0 (length p' + length f + 2) m m'"
proof -
  have "0 \<notin> set p'" "0 \<notin> set f" "length p' \<le> length p"
    using assms(1,3) by (auto simp: cstring_def assms(4) dest: in_set_butlastD)
  then show ?thesis using full_path_ok [OF assms] assms(5) by (auto simp: cstring_def)
qed

definition sample_path :: mem where
  "sample_path = sample_text\<lparr>bytes := (\<lambda>_. 0)(4400 := 47, 4401 := 97, 4402 := 47, 4408 := 98)\<rparr>"

theorem full_path_joins_witness:
  "\<exists>m'. spr_file_full_path sample_env 47 4416 4400 4408 sample_path = Some (4, m') \<and>
    cstring sample_env m' 4416 [47, 97, 47, 98]"
proof -
  have "cstring sample_env sample_path 4400 [47, 97, 47]" "cstring sample_env sample_path 4408 [98]"
    by (simp_all add: cstring_def load_byte_def sample_path_def sample_text_def sample_mem1_def
      sample_fields sample_access in_range_def)
  moreover have "\<forall>i<5. accessible sample_env (blocks sample_path) (4416 + of_nat i)"
    using sample_block_access [of 4416] by (simp add: sample_path_def sample_blocks)
  moreover have "\<forall>i\<le>2. \<forall>j<Suc 0. (4408 :: addr) + of_nat j \<noteq> 4416 + of_nat i"
  proof (intro allI impI)
    fix i j :: nat assume "i \<le> 2" "j < Suc 0"
    then have "unat (4416 + of_nat i :: addr) = 4416 + i" "j = 0"
      by (subst unat_add_exact, simp_all add: unat_of_nat_exact)
    moreover from this have "unat (4408 + of_nat j :: addr) = 4408" by simp
    ultimately have "unat (4408 + of_nat j :: addr) \<noteq> unat (4416 + of_nat i :: addr)" by simp
    then show "(4408 :: addr) + of_nat j \<noteq> 4416 + of_nat i" by metis
  qed
  ultimately show ?thesis
    using full_path_joins [of sample_env sample_path 4400 "[47, 97, 47]" 4408 "[98]" "[47, 97]" 47 4416]
    by simp blast
qed

section \<open>Pattern expansion\<close>

text \<open>One call: the result that is next, and what the buffer and the rest of the memory hold then.\<close>

lemma glob_read_one:
  assumes "list_all2 (cstring e m) (gl_pathv gl) ss" "length ss < 2 ^ 64"
    and "\<forall>s\<in>set ss. \<forall>i\<le>length s. accessible e (blocks m) (res + of_nat i)"
  shows "unat (gl_last gl) < length ss \<Longrightarrow>
      \<exists>m'. spr_glob_read e res m gl = Some (SPR_OK, m', gl\<lparr>gl_last := gl_last gl + 1\<rparr>) \<and>
        bytes_at e m' res (ss ! unat (gl_last gl) @ [0]) \<and>
        only_changed res 0 (length (ss ! unat (gl_last gl)) + 1) m m'"
    and "length ss \<le> unat (gl_last gl) \<Longrightarrow> spr_glob_read e res m gl = Some (SPR_DONE, m, gl)"
proof -
  let ?i = "unat (gl_last gl)" and ?n = "of_nat (length (gl_pathv gl)) :: size"
  have len: "length (gl_pathv gl) = length ss" using assms(1) by (rule list_all2_lengthD)
  then have n: "unat ?n = length ss" using assms(2) by (simp add: unat_of_nat_exact)
  have cmp: "?n \<le> gl_last gl \<longleftrightarrow> length ss \<le> ?i" by (simp add: word_le_nat_alt n)
  show "length ss \<le> ?i \<Longrightarrow> spr_glob_read e res m gl = Some (SPR_DONE, m, gl)"
    using cmp by (simp add: spr_glob_read_def Let_def)
  assume less: "?i < length ss"
  let ?s = "ss ! ?i" and ?p = "gl_pathv gl ! ?i"
  have cs: "cstring e m ?p ?s" using assms(1) less len by (simp add: list_all2_nthD)
  have b: "bytes_at e m ?p (?s @ [0])" "length ?s + 1 < 2 ^ 63" using cs by (simp_all add: cstring_def)
  have un: "unat (of_nat (length ?s) + 1 :: size) = length (?s @ [0])"
    using b(2) by (subst unat_add_exact) (simp_all add: unat_of_nat_exact)
  have "\<forall>k<unat (of_nat (length ?s) + 1 :: size). accessible e (blocks m) (res + of_nat k)"
    unfolding un using assms(3) less by (auto simp: less_Suc_eq_le)
  then obtain m' b' where m': "spr_memmove e res ?p (of_nat (length ?s) + 1) m = Some m'" "bytes_at e m' res (?s @ [0])"
    "m' = m\<lparr>bytes := b'\<rparr>"
    "\<forall>x. \<not> unat (x - res) < unat (of_nat (length ?s) + 1 :: size) \<longrightarrow> b' x = bytes m x"
    using memmove_ok [OF b(1) un [symmetric]] by blast
  have "only_changed res 0 (length ?s + 1) m m'"
    unfolding only_changed_def
  proof (intro conjI allI impI)
    show "blocks m' = blocks m" by (simp add: m'(3))
    fix x assume x: "\<forall>k. 0 \<le> k \<and> k < length ?s + 1 \<longrightarrow> x \<noteq> res + of_nat k"
    have "\<not> unat (x - res) < length ?s + 1" using x [rule_format, of "unat (x - res)"] by auto
    then show "bytes m' x = bytes m x" using m'(4) un by (simp add: m'(3))
  qed
  then show "\<exists>m'. spr_glob_read e res m gl = Some (SPR_OK, m', gl\<lparr>gl_last := gl_last gl + 1\<rparr>) \<and>
      bytes_at e m' res (?s @ [0]) \<and> only_changed res 0 (length ?s + 1) m m'"
    using less cmp m'(1,2) by (simp add: spr_glob_read_def Let_def strlen_eq [OF cs])
qed

text \<open>A client that calls \<^verbatim>\<open>spr_glob_read\<close> \<^verbatim>\<open>n\<close> times: the answer and the memory after each call.\<close>

fun glob_reads :: "env \<Rightarrow> addr \<Rightarrow> nat \<Rightarrow> mem \<Rightarrow> spr_glob \<Rightarrow> (err \<times> mem) list option" where
  "glob_reads e res 0 m gl = Some []"
| "glob_reads e res (Suc n) m gl = do {
     (r, m, gl) \<leftarrow> spr_glob_read e res m gl;
     rs \<leftarrow> glob_reads e res n m gl;
     Some ((r, m) # rs) }"

lemma glob_reads_done:
  assumes "list_all2 (cstring e m) (gl_pathv gl) ss" "length ss < 2 ^ 64" "length ss \<le> unat (gl_last gl)"
    and "\<forall>s\<in>set ss. \<forall>i\<le>length s. accessible e (blocks m) (res + of_nat i)"
  shows "glob_reads e res d m gl = Some (replicate d (SPR_DONE, m))"
  by (induction d) (simp_all add: glob_read_one(2) [OF assms(1,2,4,3)])

lemma glob_reads_from:
  assumes "list_all2 (cstring e m) (gl_pathv gl) ss" "length ss < 2 ^ 64"
    and "\<forall>s\<in>set ss. \<forall>i\<le>length s. accessible e (blocks m) (res + of_nat i)"
    and "\<forall>j<length ss. \<forall>i\<le>length (ss ! j). \<forall>s\<in>set ss. \<forall>k\<le>length s. gl_pathv gl ! j + of_nat i \<noteq> res + of_nat k"
    and "unat (gl_last gl) + n = length ss"
  shows "\<exists>rs. glob_reads e res (n + d) m gl = Some rs \<and>
    map fst rs = replicate n SPR_OK @ replicate d SPR_DONE \<and>
    (\<forall>i<n. bytes_at e (snd (rs ! i)) res (ss ! (unat (gl_last gl) + i) @ [0]))"
  using assms
proof (induction n arbitrary: m gl)
  case 0
  then show ?case using glob_reads_done [of e m gl ss res d] by simp
next
  case (Suc n)
  let ?i = "unat (gl_last gl)" and ?gl = "gl\<lparr>gl_last := gl_last gl + 1\<rparr>"
  have less: "?i < length ss" using Suc.prems(5) by simp
  then obtain m' where m': "spr_glob_read e res m gl = Some (SPR_OK, m', ?gl)" "bytes_at e m' res (ss ! ?i @ [0])"
    "only_changed res 0 (length (ss ! ?i) + 1) m m'"
    using glob_read_one(1) [OF Suc.prems(1-3)] by blast
  have "unat (gl_last gl + 1) = ?i + 1" using less Suc.prems(2) by (subst unat_add_exact) simp_all
  then have last: "unat (gl_last ?gl) = ?i + 1" by simp
  have "cstring e m' (gl_pathv gl ! j) (ss ! j)" if j: "j < length ss" for j
  proof -
    have cs: "cstring e m (gl_pathv gl ! j) (ss ! j)" using Suc.prems(1) j by (simp add: list_all2_conv_all_nth)
    have "bytes_at e m' (gl_pathv gl ! j) (ss ! j @ [0])"
    proof (rule only_changed_bytes_at [OF m'(3)])
      show "bytes_at e m (gl_pathv gl ! j) (ss ! j @ [0])" using cs by (simp add: cstring_def)
      show "gl_pathv gl ! j + of_nat l \<noteq> res + of_nat k" if "k < length (ss ! ?i) + 1" "l < length (ss ! j @ [0])" for k l
        using Suc.prems(4) [rule_format, OF j _ nth_mem [OF less], of l k] that by (simp add: less_Suc_eq_le)
    qed
    then show ?thesis using cs by (simp add: cstring_def)
  qed
  then have "list_all2 (cstring e m') (gl_pathv ?gl) ss"
    using Suc.prems(1) by (simp add: list_all2_conv_all_nth)
  moreover have "blocks m' = blocks m" using m'(3) by (simp add: only_changed_def)
  ultimately obtain rs where rs: "glob_reads e res (n + d) m' ?gl = Some rs"
    "map fst rs = replicate n SPR_OK @ replicate d SPR_DONE"
    "\<forall>i<n. bytes_at e (snd (rs ! i)) res (ss ! (unat (gl_last ?gl) + i) @ [0])"
    using Suc.IH [of m' ?gl] Suc.prems(2-5) last by auto
  have "bytes_at e (snd (((SPR_OK, m') # rs) ! i)) res (ss ! (?i + i) @ [0])" if "i < Suc n" for i
    using that rs(3) m'(2) unfolding last by (cases i) simp_all
  then show ?case using m'(1) rs(1,2) by (intro exI [of _ "(SPR_OK, m') # rs"]) simp
qed

text \<open>C33: After a successful \<^verbatim>\<open>spr_glob_open\<close>, whatever the state of the handle before, successive calls
  of \<^verbatim>\<open>spr_glob_read\<close> with a buffer that holds each result and overlaps none deliver the results of the
  system's expansion one by one in their order, each as a terminated string in the buffer, and then
  \<^verbatim>\<open>SPR_DONE\<close> as often as asked; none is skipped or repeated.\<close>

theorem glob_read_enumerates:
  assumes "k_glob K pattern m0 k = (0, pathv, k')"
    and "list_all2 (cstring e m) pathv ss" "length ss < 2 ^ 64"
    and "\<forall>s\<in>set ss. \<forall>i\<le>length s. accessible e (blocks m) (res + of_nat i)"
    and "\<forall>j<length ss. \<forall>i\<le>length (ss ! j). \<forall>s\<in>set ss. \<forall>l\<le>length s. pathv ! j + of_nat i \<noteq> res + of_nat l"
  shows "\<exists>gl' rs. spr_glob_open K pattern m0 (gl, k) = (SPR_OK, gl', k') \<and>
    glob_reads e res (length ss + d) m gl' = Some rs \<and>
    map fst rs = replicate (length ss) SPR_OK @ replicate d SPR_DONE \<and>
    (\<forall>i<length ss. bytes_at e (snd (rs ! i)) res (ss ! i @ [0]))"
proof -
  let ?gl = "gl\<lparr>gl_pathv := pathv, gl_pattern := pattern, gl_last := 0\<rparr>"
  have "spr_glob_open K pattern m0 (gl, k) = (SPR_OK, ?gl, k')"
    using assms(1) by (simp add: spr_glob_open_def Let_def)
  moreover have "list_all2 (cstring e m) (gl_pathv ?gl) ss" using assms(2) by simp
  from glob_reads_from [OF this assms(3,4), of "length ss" d]
  have "\<exists>rs. glob_reads e res (length ss + d) m ?gl = Some rs \<and>
      map fst rs = replicate (length ss) SPR_OK @ replicate d SPR_DONE \<and>
      (\<forall>i<length ss. bytes_at e (snd (rs ! i)) res (ss ! i @ [0]))"
    using assms(5) by simp
  ultimately show ?thesis by blast
qed

theorem glob_read_enumerates_witness:
  "\<exists>gl' rs. spr_glob_open (sample_kernel\<lparr>k_glob := (\<lambda>_ _ k. (0, [4400, 4408], k))\<rparr>) 4400 sample_path
      (\<lparr>gl_pathv = [], gl_pattern = 0, gl_last = 7\<rparr>, (0, [])) = (SPR_OK, gl', (0, [])) \<and>
    glob_reads sample_env 4416 3 sample_path gl' = Some rs \<and> map fst rs = [SPR_OK, SPR_OK, SPR_DONE] \<and>
    bytes_at sample_env (snd (rs ! 0)) 4416 [47, 97, 47, 0] \<and> bytes_at sample_env (snd (rs ! 1)) 4416 [98, 0]"
proof -
  let ?ss = "[[47, 97, 47], [98]] :: byte list list" and ?k = "(0, []) :: nat \<times> byte list"
  let ?K = "sample_kernel\<lparr>k_glob := (\<lambda>_ _ k. (0, [4400, 4408], k))\<rparr>"
  let ?gl = "\<lparr>gl_pathv = [], gl_pattern = 0, gl_last = 7\<rparr>"
  have K: "k_glob ?K 4400 sample_path ?k = (0, [4400, 4408], ?k)" by simp
  have strings: "list_all2 (cstring sample_env sample_path) [4400, 4408] ?ss"
    by (simp_all add: cstring_def load_byte_def sample_path_def sample_text_def sample_mem1_def
      sample_fields sample_access in_range_def)
  have acc: "\<forall>s\<in>set ?ss. \<forall>i\<le>length s. accessible sample_env (blocks sample_path) (4416 + of_nat i)"
    using sample_block_access [of 4416] by (simp add: sample_path_def sample_blocks)
  have apart: "\<forall>j<length ?ss. \<forall>i\<le>length (?ss ! j). \<forall>s\<in>set ?ss. \<forall>l\<le>length s.
      [4400, 4408 :: addr] ! j + of_nat i \<noteq> 4416 + of_nat l"
  proof (intro allI impI ballI)
    fix j i l :: nat and s assume j: "j < length ?ss" "i \<le> length (?ss ! j)" "s \<in> set ?ss" "l \<le> length s"
    have l: "l \<le> 3" using j(3,4) by auto
    have i: "j = 0 \<and> i \<le> 3 \<or> j = 1 \<and> i \<le> 1" using j(1,2) by (cases j) auto
    have "unat (4416 + of_nat l :: addr) = 4416 + l" using l by (subst unat_add_exact) (simp_all add: unat_of_nat_exact)
    moreover have "unat (4400 + of_nat i :: addr) = 4400 + i" "unat (4408 + of_nat i :: addr) = 4408 + i"
      using i by (subst unat_add_exact; auto simp: unat_of_nat_exact)+
    ultimately have "unat ([4400, 4408 :: addr] ! j + of_nat i) \<noteq> unat (4416 + of_nat l :: addr)" using i by auto
    then show "[4400, 4408 :: addr] ! j + of_nat i \<noteq> 4416 + of_nat l" by metis
  qed
  have few: "length ?ss < 2 ^ 64" by simp
  obtain gl' rs where r: "spr_glob_open ?K 4400 sample_path (?gl, ?k) = (SPR_OK, gl', ?k)"
    "glob_reads sample_env 4416 (length ?ss + 1) sample_path gl' = Some rs"
    "map fst rs = replicate (length ?ss) SPR_OK @ replicate 1 SPR_DONE"
    "\<forall>i<length ?ss. bytes_at sample_env (snd (rs ! i)) 4416 (?ss ! i @ [0])"
    using glob_read_enumerates [OF K strings few acc apart, where gl = ?gl and d = 1] by (elim exE conjE) (rule that)
  have n: "length ?ss + 1 = 3" "length ?ss = 2" by simp_all
  have "bytes_at sample_env (snd (rs ! 0)) 4416 [47, 97, 47, 0]" "bytes_at sample_env (snd (rs ! 1)) 4416 [98, 0]"
    using r(4) [rule_format, of 0] r(4) [rule_format, of 1] by simp_all
  moreover have "replicate 2 SPR_OK @ replicate 1 SPR_DONE = [SPR_OK, SPR_OK, SPR_DONE]"
    by (simp add: eval_nat_numeral)
  ultimately show ?thesis using r(1,2,3) unfolding n by (intro exI [of _ gl'] exI [of _ rs]) simp
qed

end
