(* ===== verification/Spr_Filesys_Win32.thy ===== *)
theory Spr_Filesys_Win32
  imports Spr_Filesys_Props
begin

text \<open>
  \<^verbatim>\<open>lib/spr_filesys.c\<close>, the Windows branch: files, directories, pattern expansion and the test for
  absolute paths over the conversion of \<^verbatim>\<open>Spr_Utf8\<close>, and their properties. Definitions whose name
  the POSIX branch has too carry the suffix \<^verbatim>\<open>_win32\<close>.
\<close>

type_synonym handle = "64 word"
type_synonym dword = "32 word"

definition SPR_MAX_PATH_LEN_WIN32 :: nat where "SPR_MAX_PATH_LEN_WIN32 = 260"
definition INVALID_HANDLE_VALUE :: handle where "INVALID_HANDLE_VALUE = - 1"
definition FILE_ATTRIBUTE_DIRECTORY :: dword where "FILE_ATTRIBUTE_DIRECTORY = 0x10"
definition ERROR_NO_MORE_FILES :: err where "ERROR_NO_MORE_FILES = 18"
definition E2BIG :: err where "E2BIG = 7"

section \<open>The system calls\<close>

text \<open>The system is a parameter, as on POSIX. A call that fills a structure answers \<open>None\<close> when it
  fails. A position is the 64-bit number the two halves of an \<open>OVERLAPPED\<close> give, or the current one. The
  directory calls store the name of an entry at the address of the caller's \<open>finddata.cFileName\<close>.\<close>

record file_attributes =
  dwFileAttributes :: dword
  ftCreationTime :: "64 word"
  ftLastAccessTime :: "64 word"
  ftLastWriteTime :: "64 word"
  nFileSizeHigh :: dword
  nFileSizeLow :: dword

record 'k win32 =
  w_last_error :: "'k \<Rightarrow> err"
  w_CreateFileW :: "wchar list \<Rightarrow> dword \<Rightarrow> dword \<Rightarrow> 'k \<Rightarrow> handle \<times> 'k"
  w_ReadFile :: "handle \<Rightarrow> dword \<Rightarrow> 64 word option \<Rightarrow> 'k \<Rightarrow> byte list option \<times> 'k"
  w_WriteFile :: "handle \<Rightarrow> byte list \<Rightarrow> 64 word option \<Rightarrow> 'k \<Rightarrow> dword option \<times> 'k"
  w_GetFileSizeEx :: "handle \<Rightarrow> 'k \<Rightarrow> 64 word option \<times> 'k"
  w_GetFileSize :: "handle \<Rightarrow> 'k \<Rightarrow> dword \<times> 'k"
  w_GetFileAttributesExW :: "wchar list \<Rightarrow> 'k \<Rightarrow> file_attributes option \<times> 'k"
  w_GetFileInformationByHandle :: "handle \<Rightarrow> 'k \<Rightarrow> int \<times> file_attributes \<times> 'k"
  w_CloseHandle :: "handle \<Rightarrow> 'k \<Rightarrow> 'k"
  w_FindFirstFile :: "byte list \<Rightarrow> addr \<Rightarrow> mem \<times> 'k \<Rightarrow> handle \<times> mem \<times> 'k"
  w_FindNextFile :: "handle \<Rightarrow> addr \<Rightarrow> mem \<times> 'k \<Rightarrow> bool \<times> mem \<times> 'k"
  w_FindClose :: "handle \<Rightarrow> 'k \<Rightarrow> 'k"

section \<open>Files\<close>

definition spr_stat_get_file_type_win32 :: "file_attributes \<Rightarrow> file_type" where
  "spr_stat_get_file_type_win32 stat = (
     let type = SPR_FILE_TYPE_UNKFILE own_types;
         type = (if dwFileAttributes stat AND FILE_ATTRIBUTE_DIRECTORY \<noteq> 0 then SPR_FILE_TYPE_DIR own_types else type)
     in if \<not> (dwFileAttributes stat AND FILE_ATTRIBUTE_DIRECTORY \<noteq> 0) then SPR_FILE_TYPE_FILE own_types else type)"

record win_file =
  wf_fd :: handle
  wf_name :: addr
  wf_offset :: "64 word"

record win_info =
  wi_type :: file_type
  wi_access :: access
  wi_stat :: file_attributes

definition zero_win_file :: win_file where
  "zero_win_file = \<lparr>wf_fd = 0, wf_name = NULL, wf_offset = 0\<rparr>"

text \<open>The local array \<open>wpath[SPR_MAX_PATH_LEN]\<close> and its conversion: \<open>garbage\<close> is the old content of the
  array, \<open>sizeof(wpath)\<close> is twice its number of elements, and the result of the conversion is
  ignored.\<close>

definition wide_path :: "env \<Rightarrow> wchar list \<Rightarrow> addr \<Rightarrow> mem \<Rightarrow> wchar list option" where
  "wide_path e garbage path m =
     map_option snd (spr_path_to_wchar e garbage (of_nat (2 * SPR_MAX_PATH_LEN_WIN32)) path m)"

definition spr_file_open_win32 ::
  "'k win32 \<Rightarrow> env \<Rightarrow> wchar list \<Rightarrow> addr \<Rightarrow> 64 word \<Rightarrow> 64 word \<Rightarrow> mem \<Rightarrow> win_file \<times> 'k \<Rightarrow> (err \<times> win_file \<times> 'k) option" where
  "spr_file_open_win32 W e garbage path mode create m = (\<lambda>(fl, k). do {
     let fl = zero_win_file;
     wpath \<leftarrow> wide_path e garbage path m;
     case w_CreateFileW W wpath (ucast mode) (ucast create) k of (fd, k) \<Rightarrow>
       if fd = INVALID_HANDLE_VALUE then Some (w_last_error W k, fl, k)
       else Some (SPR_OK, fl\<lparr>wf_fd := fd, wf_name := path, wf_offset := 0\<rparr>, k) })"

text \<open>The \<open>OVERLAPPED\<close> structure of a read or write: the low half of the position is the offset cut to 32
  bits, the high half is not set and keeps what lay on the stack.\<close>

definition ovlp_position :: "dword \<Rightarrow> 64 word \<Rightarrow> 64 word" where
  "ovlp_position offset_high offset = push_bit 32 (ucast offset_high) OR ucast (ucast offset :: dword)"

definition spr_file_read_win32 ::
  "'k win32 \<Rightarrow> env \<Rightarrow> dword \<Rightarrow> addr \<Rightarrow> size \<Rightarrow> 64 word \<Rightarrow> mem \<Rightarrow> win_file \<times> 'k \<Rightarrow> (int \<times> mem \<times> win_file \<times> 'k) option" where
  "spr_file_read_win32 W e offset_high buf n offset m = (\<lambda>(fl, k).
     case w_ReadFile W (wf_fd fl) (ucast n) (Some (ovlp_position offset_high offset)) k of
       (None, k) \<Rightarrow> Some (-1, m, fl, k)
     | (Some bs, k) \<Rightarrow> do {
         m \<leftarrow> store_bytes e buf bs m;
         Some (int (length bs), m, fl\<lparr>wf_offset := wf_offset fl + of_nat (length bs)\<rparr>, k) })"

definition spr_file_write_win32 ::
  "'k win32 \<Rightarrow> env \<Rightarrow> dword \<Rightarrow> addr \<Rightarrow> size \<Rightarrow> 64 word \<Rightarrow> mem \<Rightarrow> win_file \<times> 'k \<Rightarrow> (int \<times> win_file \<times> 'k) option" where
  "spr_file_write_win32 W e offset_high buf sz offset m = (\<lambda>(fl, k). do {
     bs \<leftarrow> read_bytes e buf (unat (ucast sz :: dword)) m;
     case w_WriteFile W (wf_fd fl) bs (Some (ovlp_position offset_high offset)) k of
       (None, k) \<Rightarrow> Some (-1, fl, k)
     | (Some n, k) \<Rightarrow>
         if ucast n \<noteq> sz then Some (-1, fl, k)
         else Some (int (unat n), fl\<lparr>wf_offset := wf_offset fl + ucast n\<rparr>, k) })"

text \<open>The two versions of \<open>spr_file_size\<close>, for 64-bit and for other pointers.\<close>

definition spr_file_size_win64 :: "'k win32 \<Rightarrow> win_file \<Rightarrow> 'k \<Rightarrow> int \<times> 'k" where
  "spr_file_size_win64 W fl k =
     (case w_GetFileSizeEx W (wf_fd fl) k of
        (None, k) \<Rightarrow> (-1, k)
      | (Some n, k) \<Rightarrow> (sint n, k))"

definition spr_file_size_win32 :: "'k win32 \<Rightarrow> win_file \<Rightarrow> 'k \<Rightarrow> int \<times> 'k" where
  "spr_file_size_win32 W fl k =
     (case w_GetFileSize W (wf_fd fl) k of (n, k) \<Rightarrow>
        if n = 0xffffffff then (-1, k) else (sint n, k))"

definition spr_read_fd_win32 ::
  "'k win32 \<Rightarrow> env \<Rightarrow> handle \<Rightarrow> addr \<Rightarrow> size \<Rightarrow> mem \<Rightarrow> 'k \<Rightarrow> (int \<times> mem \<times> 'k) option" where
  "spr_read_fd_win32 W e fd buf n m k =
     (case w_ReadFile W fd (ucast n) None k of
        (None, k) \<Rightarrow> Some (-1, m, k)
      | (Some bs, k) \<Rightarrow> do { m \<leftarrow> store_bytes e buf bs m; Some (int (length bs), m, k) })"

definition spr_write_fd_win32 ::
  "'k win32 \<Rightarrow> env \<Rightarrow> handle \<Rightarrow> addr \<Rightarrow> size \<Rightarrow> mem \<Rightarrow> 'k \<Rightarrow> (int \<times> 'k) option" where
  "spr_write_fd_win32 W e fd buf sz m k = do {
     bs \<leftarrow> read_bytes e buf (unat (ucast sz :: dword)) m;
     case w_WriteFile W fd bs None k of
       (None, k) \<Rightarrow> Some (-1, k)
     | (Some n, k) \<Rightarrow> Some (int (unat n), k) }"

definition spr_file_stat_by_path_win32 ::
  "'k win32 \<Rightarrow> env \<Rightarrow> wchar list \<Rightarrow> addr \<Rightarrow> mem \<Rightarrow> file_attributes \<times> 'k \<Rightarrow> (err \<times> file_attributes \<times> 'k) option" where
  "spr_file_stat_by_path_win32 W e garbage path m = (\<lambda>(stat, k). do {
     wpath \<leftarrow> wide_path e garbage path m;
     case w_GetFileAttributesExW W wpath k of
       (None, k) \<Rightarrow> Some (w_last_error W k, stat, k)
     | (Some file_attr, k) \<Rightarrow> Some (SPR_OK, stat\<lparr>
         dwFileAttributes := dwFileAttributes file_attr, ftCreationTime := ftCreationTime file_attr,
         ftLastAccessTime := ftLastAccessTime file_attr, ftLastWriteTime := ftLastWriteTime file_attr,
         nFileSizeHigh := nFileSizeHigh file_attr, nFileSizeLow := nFileSizeLow file_attr\<rparr>, k) })"

definition spr_file_info_by_path_win32 ::
  "'k win32 \<Rightarrow> env \<Rightarrow> wchar list \<Rightarrow> addr \<Rightarrow> mem \<Rightarrow> win_info \<times> 'k \<Rightarrow> (err \<times> win_info \<times> 'k) option" where
  "spr_file_info_by_path_win32 W e garbage path m = (\<lambda>(info, k). do {
     (err, stat, k) \<leftarrow> spr_file_stat_by_path_win32 W e garbage path m (wi_stat info, k);
     let info = info\<lparr>wi_stat := stat\<rparr>;
     if err \<noteq> SPR_OK then Some (err, info, k)
     else Some (SPR_OK, info\<lparr>wi_type := spr_stat_get_file_type_win32 stat, wi_access := 0\<rparr>, k) })"

text \<open>The code tests the result of \<open>GetFileInformationByHandle\<close> against -1, which is no result of it: a
  failing call answers 0.\<close>

definition spr_file_info_win32 :: "'k win32 \<Rightarrow> win_file \<Rightarrow> win_info \<times> 'k \<Rightarrow> err \<times> win_info \<times> 'k" where
  "spr_file_info_win32 W fl = (\<lambda>(info, k).
     case w_GetFileInformationByHandle W (wf_fd fl) k of (r, stat, k) \<Rightarrow>
       let info = info\<lparr>wi_stat := stat\<rparr> in
       if r = -1 then (w_last_error W k, info, k)
       else (SPR_OK, info\<lparr>wi_type := spr_stat_get_file_type_win32 stat, wi_access := 0\<rparr>, k))"

definition spr_file_close_win32 :: "'k win32 \<Rightarrow> win_file option \<times> 'k \<Rightarrow> win_file option \<times> 'k" where
  "spr_file_close_win32 W = (\<lambda>(fl, k).
     case fl of
       None \<Rightarrow> (None, k)
     | Some fl \<Rightarrow>
         let k = w_CloseHandle W (wf_fd fl) k in
         (Some (fl\<lparr>wf_fd := INVALID_HANDLE_VALUE, wf_name := NULL, wf_offset := 0\<rparr>), k))"

section \<open>Directories\<close>

record win_dir =
  wd_dir :: handle
  wd_cFileName :: addr
  wd_name :: addr
  wd_type :: byte

text \<open>\<open>wd_cFileName\<close> is the address of the name inside the embedded \<open>finddata\<close>, a \<open>WIN32_FIND_DATAA\<close>: 320
  bytes of which 44 stand before the name. All of them are cleared with the rest of the structure. The local array \<open>str[SPR_MAX_PATH_LEN + 3]\<close> of \<open>spr_dir_open\<close>; a store behind it is undefined.\<close>

definition sizeof_finddata :: size where "sizeof_finddata = 320"
definition cFileName_offset :: addr where "cFileName_offset = 44"

definition put_char :: "nat \<Rightarrow> byte \<Rightarrow> byte list \<Rightarrow> byte list option" where
  "put_char i b str = (if i < length str then Some (str[i := b]) else None)"

definition pattern_of :: "byte list \<Rightarrow> byte list \<Rightarrow> byte list option" where
  "pattern_of str p =
     (if length str < length p then None
      else do {
        let str = p @ drop (length p) str;
        str \<leftarrow> put_char (length p + 0) 92 str;
        str \<leftarrow> put_char (length p + 1) 42 str;
        put_char (length p + 2) 0 str })"

definition spr_dir_open_win32 ::
  "'k win32 \<Rightarrow> env \<Rightarrow> byte list \<Rightarrow> addr \<Rightarrow> mem \<Rightarrow> win_dir \<times> 'k \<Rightarrow> (err \<times> mem \<times> win_dir \<times> 'k) option" where
  "spr_dir_open_win32 W e garbage path m = (\<lambda>(dir, k). do {
     let dir = dir\<lparr>wd_dir := 0, wd_name := NULL, wd_type := 0\<rparr>;
     let m = spr_memzero (wd_cFileName dir - cFileName_offset) sizeof_finddata m;
     len \<leftarrow> spr_strlen e path m;
     if of_nat (SPR_MAX_PATH_LEN_WIN32 + 3) \<le> len then Some (E2BIG, m, dir, k)
     else do {
       p \<leftarrow> read_bytes e path (unat len) m;
       str \<leftarrow> pattern_of garbage p;
       case w_FindFirstFile W (takeWhile (\<lambda>b. b \<noteq> 0) str) (wd_cFileName dir) (m, k) of (h, m, k) \<Rightarrow>
         let dir = dir\<lparr>wd_dir := h\<rparr> in
         if h = INVALID_HANDLE_VALUE
         then Some (if w_last_error W k \<noteq> SPR_OK then w_last_error W k else SPR_DONE, m, dir, k)
         else Some (SPR_OK, m, dir\<lparr>wd_name := path\<rparr>, k) } })"

definition spr_dir_read_win32 ::
  "'k win32 \<Rightarrow> env \<Rightarrow> wchar list \<Rightarrow> addr \<Rightarrow> file_attributes \<Rightarrow> mem \<Rightarrow> win_dir \<times> 'k \<Rightarrow>
   (err \<times> mem \<times> win_dir \<times> 'k) option" where
  "spr_dir_read_win32 W e garbage fullpath fstat m = (\<lambda>(dir, k).
     case w_FindNextFile W (wd_dir dir) (wd_cFileName dir) (m, k) of (found, m, k) \<Rightarrow>
       if \<not> found then
         (let err = w_last_error W k in
          Some (if err \<noteq> SPR_OK \<and> err \<noteq> ERROR_NO_MORE_FILES then err else SPR_DONE, m, dir, k))
       else do {
         (_, m) \<leftarrow> spr_file_full_path e 92 fullpath (wd_name dir) (wd_cFileName dir) m;
         (_, fstat, k) \<leftarrow> spr_file_stat_by_path_win32 W e garbage fullpath m (fstat, k);
         Some (SPR_OK, m, dir\<lparr>wd_type := ucast (spr_stat_get_file_type_win32 fstat)\<rparr>, k) })"

definition spr_dir_close_win32 :: "'k win32 \<Rightarrow> win_dir option \<Rightarrow> 'k \<Rightarrow> 'k" where
  "spr_dir_close_win32 W dir k = (case dir of None \<Rightarrow> k | Some d \<Rightarrow> w_FindClose W (wd_dir d) k)"

definition spr_dir_current_name_win32 :: "win_dir \<Rightarrow> addr" where
  "spr_dir_current_name_win32 dir = wd_cFileName dir"

section \<open>Pattern expansion\<close>

record win_glob =
  wg_dir :: handle
  wg_cFileName :: addr
  wg_pattern :: addr
  wg_done :: bool
  wg_last_res :: addr
  wg_prefix_len :: size

text \<open>The loop of \<open>spr_glob_open\<close> from the end of the pattern to the last backslash.\<close>

function last_backslash :: "env \<Rightarrow> addr \<Rightarrow> int \<Rightarrow> mem \<Rightarrow> size option" where
  "last_backslash e pattern i m =
     (if 0 \<le> i then do {
        c \<leftarrow> load_byte e (pattern + of_int i) m;
        if c = 92 then Some (of_int i) else last_backslash e pattern (i - 1) m }
      else Some 0)"
  by pat_completeness auto
termination
  by (relation "measure (\<lambda>(e, pattern, i, m). nat (i + 1))") auto

declare last_backslash.simps [simp del]

definition spr_glob_open_win32 ::
  "'k win32 \<Rightarrow> env \<Rightarrow> addr \<Rightarrow> mem \<Rightarrow> win_glob \<times> 'k \<Rightarrow> (err \<times> mem \<times> win_glob \<times> 'k) option" where
  "spr_glob_open_win32 W e pattern m = (\<lambda>(gl, k). do {
     n \<leftarrow> spr_strlen e pattern m;
     p \<leftarrow> read_bytes e pattern (unat n) m;
     case w_FindFirstFile W p (wg_cFileName gl) (m, k) of (h, m, k) \<Rightarrow>
       let gl = gl\<lparr>wg_dir := h\<rparr> in
       if h = INVALID_HANDLE_VALUE then Some (SPR_FAILED, m, gl, k)
       else do {
         n \<leftarrow> spr_strlen e pattern m;
         len \<leftarrow> last_backslash e pattern (sint n) m;
         if len = 0 then Some (SPR_ERR_FILESYS_ABS_PATH, m, gl, k)
         else Some (SPR_OK, m, gl\<lparr>wg_prefix_len := len + 1, wg_last_res := wg_cFileName gl,
           wg_pattern := pattern, wg_done := False\<rparr>, k) } })"

definition spr_glob_read_win32 ::
  "'k win32 \<Rightarrow> env \<Rightarrow> addr \<Rightarrow> mem \<Rightarrow> win_glob \<times> 'k \<Rightarrow> (err \<times> mem \<times> win_glob \<times> 'k) option" where
  "spr_glob_read_win32 W e res m = (\<lambda>(gl, k).
     if wg_done gl then Some (SPR_DONE, m, gl, k)
     else do {
       temp \<leftarrow> spr_strlen e (wg_last_res gl) m;
       let len = wg_prefix_len gl + temp + 1;
       if of_nat SPR_MAX_PATH_LEN_WIN32 < len then Some (SPR_ERR_FILESYS_LONG_PATH, m, gl, k)
       else do {
         m \<leftarrow> spr_memmove e res (wg_pattern gl) (wg_prefix_len gl) m;
         m \<leftarrow> spr_memmove e (res + wg_prefix_len gl) (wg_last_res gl) (temp + 1) m;
         case w_FindNextFile W (wg_dir gl) (wg_cFileName gl) (m, k) of (found, m, k) \<Rightarrow>
           if found then
             (let err = w_last_error W k in
              if err \<noteq> SPR_OK \<and> err \<noteq> ERROR_NO_MORE_FILES then Some (err, m, gl\<lparr>wg_done := True\<rparr>, k)
              else Some (SPR_OK, m, gl\<lparr>wg_last_res := wg_cFileName gl\<rparr>, k))
           else Some (SPR_OK, m, gl\<lparr>wg_done := True\<rparr>, k) } })"

definition spr_glob_close_win32 :: "'k win32 \<Rightarrow> win_glob \<Rightarrow> 'k \<Rightarrow> 'k" where
  "spr_glob_close_win32 W gl k = w_FindClose W (wg_dir gl) k"

section \<open>Absolute paths\<close>

text \<open>The tests read a further character only when the ones before have matched.\<close>

definition spr_check_absolute_path_win32 :: "env \<Rightarrow> addr \<Rightarrow> mem \<Rightarrow> err option" where
  "spr_check_absolute_path_win32 e path m = do {
     c0 \<leftarrow> load_byte e path m;
     drive \<leftarrow> (if spr_isalpha (sint c0) then do {
         c1 \<leftarrow> load_byte e (path + 1) m;
         if c1 = 58 then do { c2 \<leftarrow> load_byte e (path + 2) m; Some (c2 = 92) } else Some False }
       else Some False);
     if drive then Some SPR_OK
     else do {
       unc \<leftarrow> (if c0 = 92 then do { c1 \<leftarrow> load_byte e (path + 1) m; Some (c1 = 92) } else Some False);
       Some (if unc then SPR_OK else SPR_ERR_FILESYS_ABS_PATH) } }"

section \<open>Properties\<close>

text \<open>\<^verbatim>\<open>spr_file_open\<close> on Windows hands the system the path in UTF-16 as long as text and terminator
  fit into the 260 units of the local array. For every longer path it writes behind the array,
  because the bound it passes counts bytes: the call has no defined result, where an error was
  meant.\<close>

theorem open_long_path_overflows:
  assumes "bytes_at e m path (concat (map utf8 cs) @ [0])" "\<forall>c\<in>set cs. 0 < c \<and> c \<le> 0x10ffff"
    and "length garbage = SPR_MAX_PATH_LEN_WIN32"
  shows "if length (concat (map utf16 cs)) < SPR_MAX_PATH_LEN_WIN32
    then \<exists>rest. spr_file_open_win32 W e garbage path mode create m (fl, k) =
      (case w_CreateFileW W (concat (map utf16 cs) @ 0 # rest) (ucast mode) (ucast create) k of (fd, k) \<Rightarrow>
         if fd = INVALID_HANDLE_VALUE then Some (w_last_error W k, zero_win_file, k)
         else Some (SPR_OK, zero_win_file\<lparr>wf_fd := fd, wf_name := path, wf_offset := 0\<rparr>, k))
    else spr_file_open_win32 W e garbage path mode create m (fl, k) = None"
proof (cases "length (concat (map utf16 cs)) < SPR_MAX_PATH_LEN_WIN32")
  case True
  have "wchar_loop e 520 0 path garbage m = Some (True, write_at garbage 0 (concat (map utf16 cs) @ [0]))"
    using True assms(3) by (intro wchar_loop_text [OF assms(1,2)]) (simp_all add: SPR_MAX_PATH_LEN_WIN32_def)
  then show ?thesis using True
    by (intro conjI impI exI [of _ "drop (Suc (length (concat (map utf16 cs)))) garbage"] if_bool_eq_conj [THEN iffD2])
      (simp_all add: spr_file_open_win32_def wide_path_def spr_path_to_wchar_def SPR_MAX_PATH_LEN_WIN32_def
        write_at_def Let_def)
next
  case False
  have "wchar_loop e 520 0 path garbage m = None"
    using False assms(3) by (intro wchar_loop_overflow [OF assms(1,2)]) (simp_all add: SPR_MAX_PATH_LEN_WIN32_def)
  then show ?thesis using False
    by (simp add: spr_file_open_win32_def wide_path_def spr_path_to_wchar_def SPR_MAX_PATH_LEN_WIN32_def)
qed

text \<open>The Windows system of the examples: nothing exists.\<close>

definition sample_win32 :: "unit win32" where
  "sample_win32 = \<lparr>w_last_error = (\<lambda>_. 2), w_CreateFileW = (\<lambda>path mode create k. (if hd path = 0xe9 then 5 else -1, k)),
     w_ReadFile = (\<lambda>h n pos k. (None, k)), w_WriteFile = (\<lambda>h bs pos k. (None, k)),
     w_GetFileSizeEx = (\<lambda>h k. (None, k)), w_GetFileSize = (\<lambda>h k. (0xffffffff, k)),
     w_GetFileAttributesExW = (\<lambda>path k. (None, k)),
     w_GetFileInformationByHandle = (\<lambda>h k. (0, \<lparr>dwFileAttributes = 0, ftCreationTime = 0, ftLastAccessTime = 0,
       ftLastWriteTime = 0, nFileSizeHigh = 0, nFileSizeLow = 0\<rparr>, k)),
     w_CloseHandle = (\<lambda>h k. k), w_FindFirstFile = (\<lambda>p a (m, k). (-1, m, k)),
     w_FindNextFile = (\<lambda>h a (m, k). (False, m, k)), w_FindClose = (\<lambda>h k. k)\<rparr>"

theorem open_long_path_overflows_witness:
  "spr_file_open_win32 sample_win32 sample_env (replicate 260 7) 4400 0 0 sample_utf8 (zero_win_file, ())
    = Some (SPR_OK, zero_win_file\<lparr>wf_fd := 5, wf_name := 4400, wf_offset := 0\<rparr>, ())"
  using open_long_path_overflows [OF sample_utf8_text, of "replicate 260 7" sample_win32 0 0 zero_win_file "()"]
  by (auto simp: SPR_MAX_PATH_LEN_WIN32_def utf16_def sample_win32_def INVALID_HANDLE_VALUE_def)

text \<open>A read or write at an offset on Windows reaches the offset the caller asked for exactly when the
  stack happens to hold the high half of the offset: the code sets only the low half of the position,
  so that even an offset below 4 GiB is reached only if the unset half is zero.\<close>

theorem position_depends_on_stack:
  "ovlp_position offset_high offset = offset \<longleftrightarrow> offset_high = ucast (drop_bit 32 offset)"
proof
  have "ucast (drop_bit 32 (ovlp_position offset_high offset)) = offset_high"
    by (rule bit_word_eqI) (auto simp: ovlp_position_def bit_simps)
  then show "ovlp_position offset_high offset = offset \<Longrightarrow> offset_high = ucast (drop_bit 32 offset)" by simp
  show "offset_high = ucast (drop_bit 32 offset) \<Longrightarrow> ovlp_position offset_high offset = offset"
    by (rule bit_word_eqI) (auto simp: ovlp_position_def bit_simps)
qed

lemma pattern_of_eq:
  assumes "length str = 263" "length p < 263"
  shows "pattern_of str p = (if 260 < length p then None
      else Some (p @ [92, 42, 0] @ drop (length p + 3) str))"
proof (cases "260 < length p")
  case True
  then have "length p = 261 \<or> length p = 262" using assms(2) by auto
  then show ?thesis using assms by (auto simp: pattern_of_def put_char_def)
next
  case False
  define n where "n = length p"
  have "drop n str = str ! n # str ! (n + 1) # str ! (n + 2) # drop (n + 3) str"
    using False assms(1) Cons_nth_drop_Suc [of n str] Cons_nth_drop_Suc [of "Suc n" str]
      Cons_nth_drop_Suc [of "Suc (Suc n)" str] by (simp add: n_def numeral_3_eq_3)
  then show ?thesis using False assms
    by (simp add: pattern_of_def put_char_def n_def list_update_append)
qed

text \<open>C35: \<^verbatim>\<open>spr_dir_open\<close> on Windows refuses a path of 263 or more bytes and builds the search pattern
  path, backslash, star for a path of up to 260; for the two lengths in between the test lets the
  path through, but the pattern does not fit the local array: a byte is written behind it.\<close>

theorem dir_open_pattern_bound:
  assumes m': "m' = spr_memzero (wd_cFileName dir - cFileName_offset) sizeof_finddata m"
    and p: "cstring e m' path p" and g: "length garbage = SPR_MAX_PATH_LEN_WIN32 + 3"
    and d: "dir' = dir\<lparr>wd_dir := 0, wd_name := NULL, wd_type := 0\<rparr>"
  shows "spr_dir_open_win32 W e garbage path m (dir, k) =
    (if 263 \<le> length p then Some (E2BIG, m', dir', k)
     else if 260 < length p then None
     else case w_FindFirstFile W (p @ [92, 42]) (wd_cFileName dir) (m', k) of (h, m, k) \<Rightarrow>
       if h = INVALID_HANDLE_VALUE
       then Some (if w_last_error W k \<noteq> SPR_OK then w_last_error W k else SPR_DONE, m, dir'\<lparr>wd_dir := h\<rparr>, k)
       else Some (SPR_OK, m, dir'\<lparr>wd_dir := h, wd_name := path\<rparr>, k))"
proof -
  have b: "bytes_at e m' path p" "0 \<notin> set p" "length p < 2 ^ 63" using p cstring_bytes by (auto simp: cstring_def)
  have un: "unat (of_nat (length p) :: size) = length p" using b(3) by (intro unat_of_nat_exact) simp
  have le: "(263 :: size) \<le> of_nat (length p) \<longleftrightarrow> 263 \<le> length p" using un by (simp add: word_le_nat_alt)
  have rd: "read_bytes e path (unat (of_nat (length p) :: size)) m' = Some p"
    unfolding un by (rule read_bytes_eq [OF b(1)])
  have tw: "takeWhile (\<lambda>b. b \<noteq> 0) (p @ 92 # 42 # 0 # r) = p @ [92, 42]" for r
    using b(2) by (subst takeWhile_append2) auto
  have sl: "spr_strlen e path m' = Some (of_nat (length p))" by (rule strlen_eq [OF p])
  note facts = sl [unfolded m' SPR_MAX_PATH_LEN_WIN32_def, simplified] rd [unfolded m' SPR_MAX_PATH_LEN_WIN32_def, simplified]
  consider "263 \<le> length p" | "260 < length p" "length p < 263" | "length p \<le> 260" by linarith
  then show ?thesis
  proof cases
    case 1
    then show ?thesis unfolding m' d using facts le
      by (simp add: spr_dir_open_win32_def SPR_MAX_PATH_LEN_WIN32_def)
  next
    case 2
    then show ?thesis unfolding m' d using facts le g pattern_of_eq [of garbage p]
      by (simp add: spr_dir_open_win32_def SPR_MAX_PATH_LEN_WIN32_def)
  next
    case 3
    then show ?thesis unfolding m' d using facts le g pattern_of_eq [of garbage p] tw
      by (simp add: spr_dir_open_win32_def SPR_MAX_PATH_LEN_WIN32_def Let_def split: prod.split)
  qed
qed

theorem dir_open_pattern_bound_witness:
  "spr_dir_open_win32 sample_win32 sample_env (replicate 263 7) 4400 sample_path
      (\<lparr>wd_dir = 3, wd_cFileName = 6000, wd_name = 0, wd_type = 1\<rparr>, ())
    = Some (2, spr_memzero 5956 320 sample_path, \<lparr>wd_dir = - 1, wd_cFileName = 6000, wd_name = 0, wd_type = 0\<rparr>, ())"
proof -
  have "cstring sample_env (spr_memzero 5956 320 sample_path) 4400 [47, 97, 47]"
    by (simp add: cstring_def load_byte_def sample_path_def sample_text_def sample_mem1_def
      sample_fields sample_access in_range_def spr_memzero_def)
  then show ?thesis
    using dir_open_pattern_bound [OF refl _ _ refl, where p = "[47, 97, 47]" and e = sample_env and m = sample_path
        and path = 4400 and garbage = "replicate 263 7" and W = sample_win32 and k = "()"
        and dir = "\<lparr>wd_dir = 3, wd_cFileName = 6000, wd_name = 0, wd_type = 1\<rparr>"]
    by (simp add: SPR_MAX_PATH_LEN_WIN32_def cFileName_offset_def sizeof_finddata_def sample_win32_def
      INVALID_HANDLE_VALUE_def SPR_OK_def)
qed

text \<open>\<^verbatim>\<open>spr_check_absolute_path\<close> on Windows accepts exactly the strings that begin with a letter, a
  colon and a backslash or with two backslashes, and never reads behind the terminator, however short
  the string.\<close>

theorem check_absolute_path_win32:
  assumes "bytes_at e m path (p @ [0])" "0 \<notin> set p"
  shows "spr_check_absolute_path_win32 e path m = Some (
    if (\<exists>c r. p = c # 58 # 92 # r \<and> spr_isalpha (sint c)) \<or> (\<exists>r. p = 92 # 92 # r)
    then SPR_OK else SPR_ERR_FILESYS_ABS_PATH)"
proof -
  have na: "\<not> spr_isalpha (sint (0 :: byte))" "\<not> spr_isalpha (sint (92 :: byte))"
    by (simp_all add: spr_isalpha_def)
  consider "p = []" | c where "p = [c]" | c d where "p = [c, d]" | c d f r where "p = c # d # f # r"
    by (metis neq_Nil_conv)
  then show ?thesis
    using assms na by cases (auto simp: spr_check_absolute_path_win32_def add.assoc)
qed

theorem check_absolute_path_win32_witness:
  "spr_check_absolute_path_win32 sample_env 4400 sample_path = Some SPR_ERR_FILESYS_ABS_PATH"
proof -
  have "bytes_at sample_env sample_path 4400 ([47, 97, 47] @ [0])"
    by (simp add: load_byte_def sample_path_def sample_text_def sample_mem1_def
      sample_fields sample_access in_range_def)
  from check_absolute_path_win32 [OF this] show ?thesis by simp
qed

end
