(* ===== verification/Spr_Semaphore.thy ===== *)
theory Spr_Semaphore
  imports Spr_Mutex
begin

text \<open>
  \<^verbatim>\<open>lib/thread/spr_semaphore.c\<close>: the counting semaphores over POSIX, over the dispatch library and
  over Windows. The contract the three versions share is a locale; threads that guard a section
  with a semaphore are a step relation over it.
\<close>

section \<open>The contract\<close>

text \<open>
  What the library promises of a semaphore, whatever the system below: a count that waiting
  lowers by one and posting raises by one. Waiting on a count of zero does not return, or returns
  an error and changes nothing; a failing try changes nothing; posting below the maximum succeeds.
  The operations are partial functions on the semaphore's state: \<open>None\<close> is a call that blocks.
\<close>

locale counting_semaphore =
  fixes val :: "'s \<Rightarrow> nat" and limit :: "'s \<Rightarrow> nat"
    and wait :: "'s \<Rightarrow> (err \<times> 's) option"
    and trywait :: "'s \<Rightarrow> (err \<times> 's) option"
    and post :: "'s \<Rightarrow> err \<times> 's"
  assumes wait_free: "0 < val s \<Longrightarrow> \<exists>s'. wait s = Some (SPR_OK, s') \<and> val s' = val s - 1 \<and> limit s' = limit s"
    and wait_zero: "val s = 0 \<Longrightarrow> wait s = None \<or> (\<exists>err. err \<noteq> SPR_OK \<and> wait s = Some (err, s))"
    and trywait_free: "0 < val s \<Longrightarrow> \<exists>s'. trywait s = Some (SPR_OK, s') \<and> wait s = Some (SPR_OK, s')"
    and trywait_zero: "val s = 0 \<Longrightarrow> trywait s = Some (SPR_BUSY, s)"
    and post_below: "val s < limit s \<Longrightarrow> \<exists>s'. post s = (SPR_OK, s') \<and> val s' = val s + 1 \<and> limit s' = limit s"
    and post_done: "post s = (SPR_OK, s') \<Longrightarrow> val s' = val s + 1 \<and> limit s' = limit s"

text \<open>A semaphore with an enforced maximum refuses the post that would exceed it.\<close>

locale bounded_semaphore = counting_semaphore +
  assumes post_full: "limit s \<le> val s \<Longrightarrow> \<exists>err. err \<noteq> SPR_OK \<and> post s = (err, s)"
begin

lemma post_bounded: "val s \<le> limit s \<Longrightarrow> post s = (err, s') \<Longrightarrow> val s' \<le> limit s' \<and> limit s' = limit s"
  using post_below [of s] post_full [of s] by (cases "val s < limit s") auto

end

text \<open>Threads that use a semaphore around a section of their code, in any interleaving: a thread
  outside enters with a wait or a try that succeeds, a thread inside leaves with a post. Calls that fail
  or block leave the state alone and need no rule. The second component is the set of threads inside.\<close>

inductive guarded ::
  "('s \<Rightarrow> (err \<times> 's) option) \<Rightarrow> ('s \<Rightarrow> (err \<times> 's) option) \<Rightarrow> ('s \<Rightarrow> err \<times> 's) \<Rightarrow> 's \<Rightarrow> 's \<times> tid set \<Rightarrow> bool"
  for wait trywait post s0
where
  start: "guarded wait trywait post s0 (s0, {})"
| enter: "guarded wait trywait post s0 (s, C) \<Longrightarrow> t \<notin> C \<Longrightarrow> wait s = Some (SPR_OK, s') \<Longrightarrow>
    guarded wait trywait post s0 (s', insert t C)"
| try_enter: "guarded wait trywait post s0 (s, C) \<Longrightarrow> t \<notin> C \<Longrightarrow> trywait s = Some (SPR_OK, s') \<Longrightarrow>
    guarded wait trywait post s0 (s', insert t C)"
| leave: "guarded wait trywait post s0 (s, C) \<Longrightarrow> t \<in> C \<Longrightarrow> post s = (SPR_OK, s') \<Longrightarrow>
    guarded wait trywait post s0 (s', C - {t})"

inductive_cases guardedE: "guarded wait trywait post s0 (s, C)"

context counting_semaphore
begin

lemma wait_ok:
  assumes "wait s = Some (SPR_OK, s')"
  shows "0 < val s \<and> val s' = val s - 1 \<and> limit s' = limit s"
proof (cases "0 < val s")
  case True
  then show ?thesis using wait_free [OF True] assms by auto
next
  case False
  then have "val s = 0" by simp
  then show ?thesis using wait_zero [of s] assms by auto
qed

lemma trywait_ok: "trywait s = Some (SPR_OK, s') \<Longrightarrow> wait s = Some (SPR_OK, s')"
  using trywait_free [of s] trywait_zero [of s] by (cases "0 < val s") (auto simp: SPR_OK_def SPR_BUSY_def)

lemma guarded_inv:
  assumes "guarded wait trywait post s0 x"
  shows "finite (snd x) \<and> val (fst x) + card (snd x) = val s0 \<and> limit (fst x) = limit s0"
  using assms
proof (induction rule: guarded.induct)
  case (enter s C t s')
  from wait_ok [OF enter.hyps(3)] have "0 < val s" "val s' = val s - 1" "limit s' = limit s" by auto
  then show ?case using enter.IH enter.hyps(2) by simp
next
  case (try_enter s C t s')
  from wait_ok [OF trywait_ok [OF try_enter.hyps(3)]]
  have "0 < val s" "val s' = val s - 1" "limit s' = limit s" by auto
  then show ?case using try_enter.IH try_enter.hyps(2) by simp
next
  case (leave s C t s')
  then show ?case using post_done [OF leave.hyps(3)] card_Suc_Diff1 [of C t] by auto
qed simp

lemma guarded_progress:
  assumes "guarded wait trywait post s0 (s, C)" "0 < val s0" "val s0 \<le> limit s0"
  shows "(\<exists>s'. wait s = Some (SPR_OK, s')) \<or> C \<noteq> {} \<and> (\<exists>s'. post s = (SPR_OK, s') \<and> 0 < val s')"
proof (cases "0 < val s")
  case False
  have inv: "val s + card C = val s0" "limit s = limit s0" using guarded_inv [OF assms(1)] by auto
  then have "C \<noteq> {}" "val s < limit s" using False assms(2,3) by auto
  then show ?thesis using post_below [of s] by auto
qed (use wait_free [of s] in blast)

end

section \<open>POSIX semaphores\<close>

definition SPR_SEMAPHORE_PRIVATE :: bitfield where "SPR_SEMAPHORE_PRIVATE = 0x1"
definition SPR_SEMAPHORE_SHARED :: bitfield where "SPR_SEMAPHORE_SHARED = 0x2"

text \<open>The state of a semaphore of the system: its count, the largest count, and whether processes share
  it. The calls follow their documentation; \<open>interrupted\<close> says whether a signal ends a blocked wait.\<close>

record sem =
  se_count :: nat
  se_limit :: nat
  se_shared :: bool

definition EINTR :: err where "EINTR = 4"
definition EINVAL :: err where "EINVAL = 22"
definition EOVERFLOW :: err where "EOVERFLOW = 75"

definition sem_init :: "nat \<Rightarrow> bool \<Rightarrow> 32 word \<Rightarrow> err + sem" where
  "sem_init sem_value_max shared v =
     (if unat v \<le> sem_value_max then Inr \<lparr>se_count = unat v, se_limit = sem_value_max, se_shared = shared\<rparr>
      else Inl EINVAL)"

definition sem_wait :: "bool \<Rightarrow> sem \<Rightarrow> (err \<times> sem) option" where
  "sem_wait interrupted s =
     (if 0 < se_count s then Some (0, s\<lparr>se_count := se_count s - 1\<rparr>)
      else if interrupted then Some (EINTR, s) else None)"

definition sem_trywait :: "sem \<Rightarrow> bool \<times> sem" where
  "sem_trywait s = (if 0 < se_count s then (True, s\<lparr>se_count := se_count s - 1\<rparr>) else (False, s))"

definition sem_post :: "sem \<Rightarrow> err \<times> sem" where
  "sem_post s = (if se_count s < se_limit s then (0, s\<lparr>se_count := se_count s + 1\<rparr>) else (EOVERFLOW, s))"

text \<open>The library's operations. The second argument of \<open>sem_init\<close> is an \<open>int\<close>, the third an
  \<open>unsigned int\<close>; the library passes \<open>spr_uint_t\<close> values.\<close>

definition spr_semaphore_init ::
  "nat \<Rightarrow> 64 word \<Rightarrow> 64 word \<Rightarrow> bitfield \<Rightarrow> sem option \<Rightarrow> err \<times> sem option" where
  "spr_semaphore_init sem_value_max value maxval params old =
     (let shared = (if spr_bit_is_set params SPR_SEMAPHORE_SHARED then 1 else 0 :: 64 word) in
      if spr_bit_is_set params SPR_SEMAPHORE_SHARED \<and> params AND SPR_SEMAPHORE_PRIVATE \<noteq> 0
      then (SPR_FAILED, old)
      else case sem_init sem_value_max (shared \<noteq> 0) (ucast value) of
        Inl err \<Rightarrow> (err, old)
      | Inr s \<Rightarrow> (SPR_OK, Some s))"

definition spr_semaphore_wait :: "bool \<Rightarrow> sem \<Rightarrow> (err \<times> sem) option" where
  "spr_semaphore_wait interrupted s =
     (case sem_wait interrupted s of None \<Rightarrow> None
      | Some (err, s) \<Rightarrow> Some (if err \<noteq> 0 then err else SPR_OK, s))"

definition spr_semaphore_trywait :: "sem \<Rightarrow> (err \<times> sem) option" where
  "spr_semaphore_trywait s =
     (case sem_trywait s of (ok, s) \<Rightarrow> Some (if \<not> ok then SPR_BUSY else SPR_OK, s))"

definition spr_semaphore_post :: "sem \<Rightarrow> err \<times> sem" where
  "spr_semaphore_post s = (case sem_post s of (err, s) \<Rightarrow> (if err \<noteq> 0 then err else SPR_OK, s))"

definition spr_semaphore_fini :: "sem option \<Rightarrow> sem option" where
  "spr_semaphore_fini s = None"

lemmas posix_sem_defs = spr_semaphore_wait_def spr_semaphore_trywait_def spr_semaphore_post_def
  sem_wait_def sem_trywait_def sem_post_def SPR_OK_def SPR_BUSY_def EINTR_def EOVERFLOW_def

interpretation posix_sem: bounded_semaphore se_count se_limit "spr_semaphore_wait interrupted"
  spr_semaphore_trywait spr_semaphore_post for interrupted
  by unfold_locales (auto simp: posix_sem_defs split: if_splits)

section \<open>Dispatch semaphores\<close>

text \<open>\<open>dispatch_semaphore_create\<close> takes a \<open>long\<close> and gives null for a negative value; the count has no
  limit below that of \<open>long\<close>. A wait with \<open>DISPATCH_TIME_NOW\<close> on a count of zero times out. Creation
  does not set the error number, so a failed \<open>spr_semaphore_init\<close> returns an old one.\<close>

definition LONG_MAX :: nat where "LONG_MAX = 2 ^ 63 - 1"

definition dispatch_semaphore_create :: "64 word \<Rightarrow> sem option" where
  "dispatch_semaphore_create v =
     (if sint v < 0 then None
      else Some \<lparr>se_count = nat (sint v), se_limit = LONG_MAX, se_shared = False\<rparr>)"

definition dispatch_semaphore_wait :: "bool \<Rightarrow> sem \<Rightarrow> (int \<times> sem) option" where
  "dispatch_semaphore_wait forever s =
     (if 0 < se_count s then Some (0, s\<lparr>se_count := se_count s - 1\<rparr>)
      else if forever then None else Some (1, s))"

definition dispatch_semaphore_signal :: "sem \<Rightarrow> sem" where
  "dispatch_semaphore_signal s = s\<lparr>se_count := se_count s + 1\<rparr>"

definition spr_semaphore_init_gcd ::
  "err \<Rightarrow> 64 word \<Rightarrow> 64 word \<Rightarrow> bitfield \<Rightarrow> sem option \<Rightarrow> err \<times> sem option" where
  "spr_semaphore_init_gcd old_errno value maxval params old =
     (case dispatch_semaphore_create value of
        None \<Rightarrow> (old_errno, old)
      | Some s \<Rightarrow> (SPR_OK, Some s))"

definition spr_semaphore_wait_gcd :: "sem \<Rightarrow> (err \<times> sem) option" where
  "spr_semaphore_wait_gcd s =
     (case dispatch_semaphore_wait True s of None \<Rightarrow> None | Some (_, s) \<Rightarrow> Some (SPR_OK, s))"

definition spr_semaphore_trywait_gcd :: "sem \<Rightarrow> (err \<times> sem) option" where
  "spr_semaphore_trywait_gcd s =
     (case dispatch_semaphore_wait False s of None \<Rightarrow> None
      | Some (r, s) \<Rightarrow> Some (if r \<noteq> 0 then SPR_BUSY else SPR_OK, s))"

definition spr_semaphore_post_gcd :: "sem \<Rightarrow> err \<times> sem" where
  "spr_semaphore_post_gcd s = (SPR_OK, dispatch_semaphore_signal s)"

definition spr_semaphore_fini_gcd :: "sem option \<Rightarrow> sem option" where
  "spr_semaphore_fini_gcd s = s"

lemmas gcd_sem_defs = spr_semaphore_wait_gcd_def spr_semaphore_trywait_gcd_def spr_semaphore_post_gcd_def
  dispatch_semaphore_wait_def dispatch_semaphore_signal_def SPR_OK_def SPR_BUSY_def

interpretation gcd_sem: counting_semaphore se_count se_limit spr_semaphore_wait_gcd
  spr_semaphore_trywait_gcd spr_semaphore_post_gcd
  by unfold_locales (auto simp: gcd_sem_defs)

section \<open>Windows semaphores\<close>

text \<open>\<open>CreateSemaphoreA\<close> takes two \<open>LONG\<close> values of 32 bits and fails unless the first is between zero
  and the second and the second is positive; \<open>ReleaseSemaphore\<close> fails at the maximum. The error
  numbers are those the system documents.\<close>

definition ERROR_INVALID_PARAMETER :: err where "ERROR_INVALID_PARAMETER = 87"
definition ERROR_TOO_MANY_POSTS :: err where "ERROR_TOO_MANY_POSTS = 298"

definition CreateSemaphoreA :: "32 word \<Rightarrow> 32 word \<Rightarrow> err + sem" where
  "CreateSemaphoreA v mx =
     (if 0 \<le> sint v \<and> sint v \<le> sint mx \<and> 0 < sint mx
      then Inr \<lparr>se_count = nat (sint v), se_limit = nat (sint mx), se_shared = True\<rparr>
      else Inl ERROR_INVALID_PARAMETER)"

definition WaitForSingleObject :: "bool \<Rightarrow> sem \<Rightarrow> (bool \<times> sem) option" where
  "WaitForSingleObject forever s =
     (if 0 < se_count s then Some (True, s\<lparr>se_count := se_count s - 1\<rparr>)
      else if forever then None else Some (False, s))"

definition ReleaseSemaphore :: "sem \<Rightarrow> bool \<times> sem" where
  "ReleaseSemaphore s = (if se_count s < se_limit s then (True, s\<lparr>se_count := se_count s + 1\<rparr>) else (False, s))"

definition spr_semaphore_init_win32 ::
  "64 word \<Rightarrow> 64 word \<Rightarrow> bitfield \<Rightarrow> sem option \<Rightarrow> err \<times> sem option" where
  "spr_semaphore_init_win32 value maxval params old =
     (case CreateSemaphoreA (ucast value) (ucast maxval) of
        Inl err \<Rightarrow> (err, old)
      | Inr s \<Rightarrow> (SPR_OK, Some s))"

definition spr_semaphore_wait_win32 :: "err \<Rightarrow> sem \<Rightarrow> (err \<times> sem) option" where
  "spr_semaphore_wait_win32 last_error s =
     (case WaitForSingleObject True s of None \<Rightarrow> None
      | Some (signalled, s) \<Rightarrow> Some (if \<not> signalled then last_error else SPR_OK, s))"

definition spr_semaphore_trywait_win32 :: "sem \<Rightarrow> (err \<times> sem) option" where
  "spr_semaphore_trywait_win32 s =
     (case WaitForSingleObject False s of None \<Rightarrow> None
      | Some (signalled, s) \<Rightarrow> Some (if \<not> signalled then SPR_BUSY else SPR_OK, s))"

definition spr_semaphore_post_win32 :: "sem \<Rightarrow> err \<times> sem" where
  "spr_semaphore_post_win32 s =
     (case ReleaseSemaphore s of (ok, s) \<Rightarrow> (if \<not> ok then ERROR_TOO_MANY_POSTS else SPR_OK, s))"

definition spr_semaphore_fini_win32 :: "sem option \<Rightarrow> sem option" where
  "spr_semaphore_fini_win32 s = None"

lemmas win32_sem_defs = spr_semaphore_wait_win32_def spr_semaphore_trywait_win32_def
  spr_semaphore_post_win32_def WaitForSingleObject_def ReleaseSemaphore_def SPR_OK_def SPR_BUSY_def
  ERROR_TOO_MANY_POSTS_def

interpretation win32_sem: bounded_semaphore se_count se_limit "spr_semaphore_wait_win32 last_error"
  spr_semaphore_trywait_win32 spr_semaphore_post_win32 for last_error
  by unfold_locales (auto simp: win32_sem_defs split: if_splits)

section \<open>Properties\<close>

text \<open>C9: Threads that bracket a section with a semaphore of any of the three systems, in any order and
  with any mixture of waits and tries: in every reachable state the count plus the number of threads
  inside is the initial count. So at most that many threads are ever inside, and with the initial
  count one the sections exclude each other.\<close>

theorem semaphore_bounds_threads_inside:
  "(guarded (spr_semaphore_wait interrupted) spr_semaphore_trywait spr_semaphore_post s0 (s, C) \<longrightarrow>
      finite C \<and> se_count s + card C = se_count s0) \<and>
   (guarded spr_semaphore_wait_gcd spr_semaphore_trywait_gcd spr_semaphore_post_gcd s0 (s, C) \<longrightarrow>
      finite C \<and> se_count s + card C = se_count s0) \<and>
   (guarded (spr_semaphore_wait_win32 last_error) spr_semaphore_trywait_win32 spr_semaphore_post_win32 s0 (s, C) \<longrightarrow>
      finite C \<and> se_count s + card C = se_count s0)"
  using posix_sem.guarded_inv [of interrupted s0 "(s, C)"] gcd_sem.guarded_inv [of s0 "(s, C)"]
    win32_sem.guarded_inv [of last_error s0 "(s, C)"] by auto

lemma sample_guarded:
  "guarded (spr_semaphore_wait False) spr_semaphore_trywait spr_semaphore_post
     \<lparr>se_count = 2, se_limit = 9, se_shared = False\<rparr> (\<lparr>se_count = 1, se_limit = 9, se_shared = False\<rparr>, {4})"
  using guarded.enter [OF guarded.start, of 4 "spr_semaphore_wait False"
      "\<lparr>se_count = 2, se_limit = 9, se_shared = False\<rparr>" "\<lparr>se_count = 1, se_limit = 9, se_shared = False\<rparr>"
      spr_semaphore_trywait spr_semaphore_post]
  by (simp add: posix_sem_defs)

theorem semaphore_bounds_threads_inside_witness:
  "\<exists>s C. guarded (spr_semaphore_wait False) spr_semaphore_trywait spr_semaphore_post
      \<lparr>se_count = 2, se_limit = 9, se_shared = False\<rparr> (s, C) \<and>
    spr_semaphore_wait False \<lparr>se_count = 2, se_limit = 9, se_shared = False\<rparr> = Some (SPR_OK, s) \<and>
    C = {4} \<and> finite C \<and> se_count s + card C = 2"
  using semaphore_bounds_threads_inside [of False "\<lparr>se_count = 2, se_limit = 9, se_shared = False\<rparr>"
      "\<lparr>se_count = 1, se_limit = 9, se_shared = False\<rparr>" "{4}" 0] sample_guarded
  by (intro exI [of _ "\<lparr>se_count = 1, se_limit = 9, se_shared = False\<rparr>"] exI [of _ "{4}"])
    (simp add: posix_sem_defs)

text \<open>C18: No reachable state is stuck: as long as the semaphore started positive and within its limit,
  either a wait returns successfully at once, or some thread is inside and its post succeeds and
  leaves a positive count, after which a wait returns.\<close>

theorem semaphore_never_stuck:
  assumes "guarded (spr_semaphore_wait interrupted) spr_semaphore_trywait spr_semaphore_post s0 (s, C)"
    and "0 < se_count s0" "se_count s0 \<le> se_limit s0"
  shows "(\<exists>s'. spr_semaphore_wait interrupted s = Some (SPR_OK, s')) \<or>
    C \<noteq> {} \<and> (\<exists>s'. spr_semaphore_post s = (SPR_OK, s') \<and> 0 < se_count s' \<and>
      (\<exists>s2. spr_semaphore_wait interrupted s' = Some (SPR_OK, s2)))"
  using posix_sem.guarded_progress [OF assms] posix_sem.wait_free by blast

theorem semaphore_never_stuck_witness:
  "(\<exists>s'. spr_semaphore_wait False \<lparr>se_count = 1, se_limit = 9, se_shared = False\<rparr> = Some (SPR_OK, s')) \<or>
    {4 :: tid} \<noteq> {} \<and> (\<exists>s'. spr_semaphore_post \<lparr>se_count = 1, se_limit = 9, se_shared = False\<rparr> = (SPR_OK, s') \<and>
      0 < se_count s' \<and> (\<exists>s2. spr_semaphore_wait False s' = Some (SPR_OK, s2)))"
  by (rule semaphore_never_stuck [OF sample_guarded]) simp_all

text \<open>Creating a semaphore: with the flags for sharing and for privacy both set the POSIX version
  fails and touches nothing. Otherwise the count is the value modulo 2^32, because the system takes
  an \<^verbatim>\<open>unsigned int\<close>: asking for 2^32 gives a semaphore that blocks at once. The maximum is
  ignored.\<close>

theorem semaphore_init_truncates:
  "(params AND 3 = 3 \<longrightarrow> spr_semaphore_init sem_value_max value maxval params old = (SPR_FAILED, old)) \<and>
   (params AND 3 \<noteq> 3 \<longrightarrow> spr_semaphore_init sem_value_max value maxval params old =
      (if unat value mod 2 ^ 32 \<le> sem_value_max
       then (SPR_OK, Some \<lparr>se_count = unat value mod 2 ^ 32, se_limit = sem_value_max,
         se_shared = (params AND 2 \<noteq> 0)\<rparr>)
       else (EINVAL, old)))"
proof -
  have split: "params AND 3 = 3 \<longleftrightarrow> params AND 1 \<noteq> 0 \<and> params AND 2 \<noteq> 0"
  proof -
    have "(3 :: bitfield) = 1 OR 2" by simp
    then have "params AND 3 = (params AND 1) OR (params AND 2)" by (simp only: bit.conj_disj_distrib)
    then show ?thesis
      using and_single_bit [of params 0] and_single_bit [of params 1]
      by (cases "params AND 1 = 0"; cases "params AND 2 = 0") simp_all
  qed
  have un: "unat (ucast value :: 32 word) = unat value mod 2 ^ 32"
    by (simp add: unsigned_ucast_eq take_bit_eq_mod)
  show ?thesis
    by (auto simp: spr_semaphore_init_def spr_bit_is_set_def SPR_SEMAPHORE_SHARED_def
      SPR_SEMAPHORE_PRIVATE_def sem_init_def un split)
qed

theorem semaphore_init_truncates_witness:
  "spr_semaphore_init 0x7fffffff 0x100000000 1 0 None = (SPR_OK, Some \<lparr>se_count = 0, se_limit = 0x7fffffff, se_shared = False\<rparr>)"
  using semaphore_init_truncates [of 0 2147483647 4294967296 1 None] by simp

end
