(* ===== verification/Spr_Network.thy ===== *)
theory Spr_Network
  imports Spr_Filesys_Props
begin

text \<open>
  \<^verbatim>\<open>lib/network/\<close>: sockets, addresses and socket options. The system is a parameter; the four
  platform versions of the options carry the platform as a suffix.
\<close>

section \<open>The system calls\<close>

text \<open>The system is a parameter over an abstract state: the socket calls answer a descriptor or -1 (on
  Windows \<open>INVALID_SOCKET\<close>, the same bits), the option calls take the option's number and the value
  the option pointer points to, and \<open>ioctl\<close> the value of \<open>FIONBIO\<close>. Addresses stay in the caller's memory.\<close>

type_synonym sockaddr = "byte list"

record 'k network =
  n_errno :: "'k \<Rightarrow> err"
  n_socket :: "int \<Rightarrow> int \<Rightarrow> int \<Rightarrow> 'k \<Rightarrow> int \<times> 'k"
  n_bind :: "int \<Rightarrow> sockaddr \<Rightarrow> nat \<Rightarrow> 'k \<Rightarrow> int \<times> 'k"
  n_listen :: "int \<Rightarrow> int \<Rightarrow> 'k \<Rightarrow> int \<times> 'k"
  n_accept :: "int \<Rightarrow> sockaddr \<times> nat \<Rightarrow> 'k \<Rightarrow> int \<times> (sockaddr \<times> nat) \<times> 'k"
  n_connect :: "int \<Rightarrow> sockaddr \<Rightarrow> nat \<Rightarrow> 'k \<Rightarrow> int \<times> 'k"
  n_shutdown :: "int \<Rightarrow> int \<Rightarrow> 'k \<Rightarrow> int \<times> 'k"
  n_close :: "int \<Rightarrow> 'k \<Rightarrow> 'k"
  n_wsastartup :: "16 word \<Rightarrow> 'k \<Rightarrow> int \<times> 'k"
  n_setsockopt :: "int \<Rightarrow> nat \<Rightarrow> nat \<Rightarrow> 32 word \<Rightarrow> 'k \<Rightarrow> int \<times> 'k"
  n_getfl :: "int \<Rightarrow> 'k \<Rightarrow> 32 word \<times> 'k"
  n_setfl :: "int \<Rightarrow> 32 word \<Rightarrow> 'k \<Rightarrow> int \<times> 'k"
  n_fionbio :: "int \<Rightarrow> 32 word \<Rightarrow> 'k \<Rightarrow> int \<times> 'k"
  n_getnameinfo :: "sockaddr \<Rightarrow> nat \<Rightarrow> size option \<Rightarrow> size option \<Rightarrow> nat \<Rightarrow> byte list option"

section \<open>Sockets (lib/network/spr_socket.c)\<close>

definition SPR_INVALID_SOCKET :: int where "SPR_INVALID_SOCKET = -1"

text \<open>The caller's variable for the new socket is passed and returned.\<close>

definition spr_socket_init :: "'k network \<Rightarrow> int \<Rightarrow> int \<Rightarrow> int \<Rightarrow> int \<times> 'k \<Rightarrow> err \<times> int \<times> 'k" where
  "spr_socket_init N domain type protocol = (\<lambda>(new_sockfd, k).
     case n_socket N domain type protocol k of (sockfd, k) \<Rightarrow>
       if sockfd = SPR_INVALID_SOCKET then (n_errno N k, new_sockfd, k)
       else (SPR_OK, sockfd, k))"

text \<open>The common form of the calls that only answer success or failure.\<close>

definition checked :: "'k network \<Rightarrow> int \<times> 'k \<Rightarrow> err \<times> 'k" where
  "checked N = (\<lambda>(r, k). if r = -1 then (n_errno N k, k) else (SPR_OK, k))"

definition spr_socket_bind :: "'k network \<Rightarrow> int \<Rightarrow> sockaddr \<Rightarrow> nat \<Rightarrow> 'k \<Rightarrow> err \<times> 'k" where
  "spr_socket_bind N sockfd addr addrlen k = checked N (n_bind N sockfd addr addrlen k)"

definition spr_socket_listen :: "'k network \<Rightarrow> int \<Rightarrow> int \<Rightarrow> 'k \<Rightarrow> err \<times> 'k" where
  "spr_socket_listen N sockfd backlog k = checked N (n_listen N sockfd backlog k)"

definition spr_socket_accept ::
  "'k network \<Rightarrow> int \<Rightarrow> int \<times> (sockaddr \<times> nat) \<times> 'k \<Rightarrow> err \<times> int \<times> (sockaddr \<times> nat) \<times> 'k" where
  "spr_socket_accept N sockfd = (\<lambda>(new_sockfd, addr, k).
     case n_accept N sockfd addr k of (sockfd1, addr, k) \<Rightarrow>
       if sockfd1 = SPR_INVALID_SOCKET then (n_errno N k, new_sockfd, addr, k)
       else (SPR_OK, sockfd1, addr, k))"

definition spr_socket_connect :: "'k network \<Rightarrow> int \<Rightarrow> sockaddr \<Rightarrow> nat \<Rightarrow> 'k \<Rightarrow> err \<times> 'k" where
  "spr_socket_connect N sockfd addr addrlen k = checked N (n_connect N sockfd addr addrlen k)"

definition spr_socket_shutdown :: "'k network \<Rightarrow> int \<Rightarrow> int \<Rightarrow> 'k \<Rightarrow> err \<times> 'k" where
  "spr_socket_shutdown N sockfd how k = checked N (n_shutdown N sockfd how k)"

definition spr_socket_close :: "'k network \<Rightarrow> int \<Rightarrow> 'k \<Rightarrow> 'k" where
  "spr_socket_close N sockfd k = n_close N sockfd k"

definition spr_winsock_init_v22 :: "'k network \<Rightarrow> 'k \<Rightarrow> err \<times> 'k" where
  "spr_winsock_init_v22 N k =
     (case n_wsastartup N 0x0202 k of (r, k) \<Rightarrow> (if r \<noteq> 0 then n_errno N k else SPR_OK, k))"

section \<open>Addresses (lib/network/spr_sockaddr.c)\<close>

definition sizeof_sockaddr_storage :: nat where "sizeof_sockaddr_storage = 128"
definition NI_NUMERICHOST :: nat where "NI_NUMERICHOST = 1"
definition NI_NUMERICSERV :: nat where "NI_NUMERICSERV = 2"

text \<open>\<open>getnameinfo\<close> stores the text it finds in the buffer it was given; the result says whether the buffer
  is returned (or null).\<close>

definition spr_sockaddr_get_addr_text ::
  "'k network \<Rightarrow> env \<Rightarrow> sockaddr \<Rightarrow> addr \<Rightarrow> size \<Rightarrow> mem \<Rightarrow> (addr \<times> mem) option" where
  "spr_sockaddr_get_addr_text N e sockaddr buf bufsize m =
     (case n_getnameinfo N sockaddr sizeof_sockaddr_storage (Some bufsize) None NI_NUMERICHOST of
        None \<Rightarrow> Some (NULL, m)
      | Some txt \<Rightarrow> do { m \<leftarrow> store_bytes e buf txt m; Some (buf, m) })"

definition spr_sockaddr_get_port_text ::
  "'k network \<Rightarrow> env \<Rightarrow> sockaddr \<Rightarrow> addr \<Rightarrow> size \<Rightarrow> mem \<Rightarrow> (addr \<times> mem) option" where
  "spr_sockaddr_get_port_text N e sockaddr buf bufsize m =
     (case n_getnameinfo N sockaddr sizeof_sockaddr_storage None (Some bufsize) (NI_NUMERICHOST + NI_NUMERICSERV) of
        None \<Rightarrow> Some (NULL, m)
      | Some txt \<Rightarrow> do { m \<leftarrow> store_bytes e buf txt m; Some (buf, m) })"

section \<open>Options (lib/network/spr_sockopt.c)\<close>

definition SOL_SOCKET :: nat where "SOL_SOCKET = 1"
definition SO_REUSEADDR :: nat where "SO_REUSEADDR = 2"
definition IPPROTO_TCP :: nat where "IPPROTO_TCP = 6"
definition TCP_CORK :: nat where "TCP_CORK = 3"
definition TCP_NOPUSH :: nat where "TCP_NOPUSH = 4"
definition O_NONBLOCK :: "32 word" where "O_NONBLOCK = 0x800"

text \<open>Linux.\<close>

definition spr_socket_nopush_linux :: "'k network \<Rightarrow> int \<Rightarrow> 'k \<Rightarrow> err \<times> 'k" where
  "spr_socket_nopush_linux N sockfd k = (let option = 1 in
     checked N (n_setsockopt N sockfd SOL_SOCKET SO_REUSEADDR option k))"

definition spr_socket_push_linux :: "'k network \<Rightarrow> int \<Rightarrow> 'k \<Rightarrow> err \<times> 'k" where
  "spr_socket_push_linux N sockfd k = (let option = 0 in
     checked N (n_setsockopt N sockfd SOL_SOCKET SO_REUSEADDR option k))"

text \<open>A failing \<open>F_GETFL\<close> answers -1, which is used as the flags.\<close>

definition spr_socket_nonblocking_linux :: "'k network \<Rightarrow> int \<Rightarrow> 'k \<Rightarrow> err \<times> 'k" where
  "spr_socket_nonblocking_linux N sockfd k =
     (case n_getfl N sockfd k of (flags, k) \<Rightarrow> checked N (n_setfl N sockfd (flags OR O_NONBLOCK) k))"

definition spr_socket_blocking_linux :: "'k network \<Rightarrow> int \<Rightarrow> 'k \<Rightarrow> err \<times> 'k" where
  "spr_socket_blocking_linux N sockfd k =
     (case n_getfl N sockfd k of (flags, k) \<Rightarrow> checked N (n_setfl N sockfd (flags AND NOT O_NONBLOCK) k))"

text \<open>FreeBSD: \<open>code_word\<close> is the first word of the machine code of \<open>spr_socket_nopush\<close>, to which the
  option pointer of \<open>spr_socket_push\<close> points.\<close>

definition spr_socket_nopush_freebsd :: "'k network \<Rightarrow> int \<Rightarrow> 'k \<Rightarrow> err \<times> 'k" where
  "spr_socket_nopush_freebsd N sockfd k = (let option = 1 in
     checked N (n_setsockopt N sockfd IPPROTO_TCP TCP_NOPUSH option k))"

definition spr_socket_push_freebsd :: "'k network \<Rightarrow> 32 word \<Rightarrow> int \<Rightarrow> 'k \<Rightarrow> err \<times> 'k" where
  "spr_socket_push_freebsd N code_word sockfd k =
     checked N (n_setsockopt N sockfd IPPROTO_TCP TCP_NOPUSH code_word k)"

definition spr_socket_nonblocking_freebsd :: "'k network \<Rightarrow> int \<Rightarrow> 'k \<Rightarrow> err \<times> 'k" where
  "spr_socket_nonblocking_freebsd N sockfd k = (let nb = 1 in checked N (n_fionbio N sockfd nb k))"

definition spr_socket_blocking_freebsd :: "'k network \<Rightarrow> int \<Rightarrow> 'k \<Rightarrow> err \<times> 'k" where
  "spr_socket_blocking_freebsd N sockfd k = (let nb = 0 in checked N (n_fionbio N sockfd nb k))"

text \<open>Solaris.\<close>

definition spr_socket_nopush_solaris :: "int \<Rightarrow> 'k \<Rightarrow> err \<times> 'k" where
  "spr_socket_nopush_solaris sockfd k = (SPR_OK, k)"

definition spr_socket_push_solaris :: "int \<Rightarrow> 'k \<Rightarrow> err \<times> 'k" where
  "spr_socket_push_solaris sockfd k = (SPR_OK, k)"

definition spr_socket_nonblocking_solaris :: "'k network \<Rightarrow> int \<Rightarrow> 'k \<Rightarrow> err \<times> 'k" where
  "spr_socket_nonblocking_solaris N sockfd k = (let nb = 1 in checked N (n_fionbio N sockfd nb k))"

definition spr_socket_blocking_solaris :: "'k network \<Rightarrow> int \<Rightarrow> 'k \<Rightarrow> err \<times> 'k" where
  "spr_socket_blocking_solaris N sockfd k = (let nb = 0 in checked N (n_fionbio N sockfd nb k))"

text \<open>Windows.\<close>

definition spr_socket_nopush_win32 :: "int \<Rightarrow> 'k \<Rightarrow> err \<times> 'k" where
  "spr_socket_nopush_win32 sockfd k = (SPR_OK, k)"

definition spr_socket_push_win32 :: "int \<Rightarrow> 'k \<Rightarrow> err \<times> 'k" where
  "spr_socket_push_win32 sockfd k = (SPR_OK, k)"

definition spr_socket_nonblocking_win32 :: "'k network \<Rightarrow> int \<Rightarrow> 'k \<Rightarrow> err \<times> 'k" where
  "spr_socket_nonblocking_win32 N sockfd k = (let nb = 1 in
     case n_fionbio N sockfd nb k of (r, k) \<Rightarrow> if r \<noteq> 0 then (n_errno N k, k) else (SPR_OK, k))"

definition spr_socket_blocking_win32 :: "'k network \<Rightarrow> int \<Rightarrow> 'k \<Rightarrow> err \<times> 'k" where
  "spr_socket_blocking_win32 N sockfd k = (let nb = 0 in
     case n_fionbio N sockfd nb k of (r, k) \<Rightarrow> if r \<noteq> 0 then (n_errno N k, k) else (SPR_OK, k))"

section \<open>Properties\<close>

text \<open>What POSIX documents of the status flags of a descriptor, over a view of the system state: reading
  answers them, or -1 when it fails; setting stores them, or fails with an error number and changes
  nothing.\<close>

definition flags_contract :: "'k network \<Rightarrow> int \<Rightarrow> ('k \<Rightarrow> 32 word) \<Rightarrow> bool" where
  "flags_contract N fd flags \<longleftrightarrow> (\<forall>k.
     (case n_getfl N fd k of (r, k') \<Rightarrow> flags k' = flags k \<and> (r = flags k \<or> r = -1)) \<and>
     (\<forall>f. case n_setfl N fd f k of (r, k') \<Rightarrow> r = 0 \<and> flags k' = f \<or> r = -1 \<and> flags k' = flags k \<and> n_errno N k' \<noteq> 0))"

lemma flags_contractD:
  assumes "flags_contract N fd flags"
  shows "flags (snd (n_getfl N fd k)) = flags k"
    "fst (n_getfl N fd k) = flags k \<or> fst (n_getfl N fd k) = -1"
    "fst (n_setfl N fd f k) = 0 \<and> flags (snd (n_setfl N fd f k)) = f \<or>
     fst (n_setfl N fd f k) = -1 \<and> flags (snd (n_setfl N fd f k)) = flags k \<and> n_errno N (snd (n_setfl N fd f k)) \<noteq> 0"
  using assms unfolding flags_contract_def case_prod_beta by blast+

text \<open>On Linux, switching a socket to non-blocking or to blocking either fails with an error and leaves
  the flags alone, or succeeds and changes the non-blocking flag and no other, provided the flags
  could be read. When they could not, the code goes on with -1 as if it were the flags: it reports
  success after turning on every flag, or every flag but the non-blocking one.\<close>

theorem blocking_mode_flags:
  assumes "flags_contract N fd flags"
  shows "(case spr_socket_nonblocking_linux N fd k of (err, k') \<Rightarrow>
      if err \<noteq> SPR_OK then flags k' = flags k
      else flags k' = flags k OR O_NONBLOCK \<or> fst (n_getfl N fd k) = -1 \<and> flags k' = -1) \<and>
    (case spr_socket_blocking_linux N fd k of (err, k') \<Rightarrow>
      if err \<noteq> SPR_OK then flags k' = flags k
      else flags k' = flags k AND NOT O_NONBLOCK \<or> fst (n_getfl N fd k) = -1 \<and> flags k' = NOT O_NONBLOCK)"
proof -
  let ?k = "snd (n_getfl N fd k)" and ?r = "fst (n_getfl N fd k)"
  have c: "fst (n_setfl N fd f ?k) = 0 \<and> flags (snd (n_setfl N fd f ?k)) = f \<or>
      fst (n_setfl N fd f ?k) = -1 \<and> flags (snd (n_setfl N fd f ?k)) = flags k \<and> n_errno N (snd (n_setfl N fd f ?k)) \<noteq> 0" for f
    using flags_contractD(3) [OF assms, of f ?k] flags_contractD(1) [OF assms, of k] by simp
  have ones: "(-1 :: 32 word) OR O_NONBLOCK = -1" "(-1 :: 32 word) AND NOT O_NONBLOCK = NOT O_NONBLOCK"
    by simp_all
  show ?thesis
    using c [of "?r OR O_NONBLOCK"] c [of "?r AND NOT O_NONBLOCK"] flags_contractD(2) [OF assms, of k] ones
    by (auto simp: spr_socket_nonblocking_linux_def spr_socket_blocking_linux_def checked_def case_prod_beta
      SPR_OK_def)
qed

text \<open>The network of the examples: the state is the flags of the one descriptor.\<close>

definition sample_network :: "32 word network" where
  "sample_network = \<lparr>n_errno = (\<lambda>k. 9), n_socket = (\<lambda>d t p k. (-1, k)), n_bind = (\<lambda>s a l k. (0, k)),
     n_listen = (\<lambda>s b k. (0, k)), n_accept = (\<lambda>s a k. (-1, a, k)), n_connect = (\<lambda>s a l k. (-1, k)),
     n_shutdown = (\<lambda>s h k. (0, k)), n_close = (\<lambda>s k. k), n_wsastartup = (\<lambda>v k. (0, k)),
     n_setsockopt = (\<lambda>s l nm v k. (0, k)), n_getfl = (\<lambda>s k. (k, k)), n_setfl = (\<lambda>s f k. (0, f)),
     n_fionbio = (\<lambda>s v k. (0, k)), n_getnameinfo = (\<lambda>a l b1 b2 f. None)\<rparr>"

theorem blocking_mode_flags_witness:
  "case spr_socket_nonblocking_linux sample_network 5 0x2 of (err, k') \<Rightarrow> err \<noteq> SPR_OK \<and> k' = 0x2 \<or> k' = 0x802"
proof -
  have "flags_contract sample_network 5 (\<lambda>k. k)" by (simp add: flags_contract_def sample_network_def)
  from blocking_mode_flags [OF this, of "0x2"]
  show ?thesis by (auto simp: sample_network_def O_NONBLOCK_def split: prod.splits if_splits)
qed

end
