(* ===== verification/Spr_Thread.thy ===== *)
theory Spr_Thread
  imports Spr_Instance
begin

text \<open>
  \<^verbatim>\<open>lib/thread/spr_thread.c\<close> over POSIX and Windows, and the Windows branch of
  \<^verbatim>\<open>lib/thread/spr_mutex.c\<close>.
\<close>

section \<open>Parameters (include/spr_thread.h)\<close>

definition SPR_THREAD_SCOPE_SYSTEM :: bitfield where "SPR_THREAD_SCOPE_SYSTEM = 0x1"
definition SPR_THREAD_SCOPE_PROCESS :: bitfield where "SPR_THREAD_SCOPE_PROCESS = 0x2"
definition SPR_THREAD_CREATE_DETACHED :: bitfield where "SPR_THREAD_CREATE_DETACHED = 0x4"
definition SPR_THREAD_CREATE_JOINABLE :: bitfield where "SPR_THREAD_CREATE_JOINABLE = 0x8"

section \<open>Threads over POSIX\<close>

text \<open>The calls of the thread library are parameters. Each answers an error number, 0 for success, and
  the new state of the system; \<open>th_errno\<close> reads the global error number. The attribute object belongs to
  the state.\<close>

record 'k thread_calls =
  th_errno :: "'k \<Rightarrow> err"
  th_attr_init :: "'k \<Rightarrow> int \<times> 'k"
  th_attr_setscope :: "bool \<Rightarrow> 'k \<Rightarrow> int \<times> 'k"
  th_attr_setdetachstate :: "bool \<Rightarrow> 'k \<Rightarrow> int \<times> 'k"
  th_attr_setstacksize :: "size \<Rightarrow> 'k \<Rightarrow> int \<times> 'k"
  th_create :: "addr \<Rightarrow> addr \<Rightarrow> 'k \<Rightarrow> int \<times> addr \<times> 'k"
  th_attr_destroy :: "'k \<Rightarrow> int \<times> 'k"
  th_join :: "addr \<Rightarrow> 'k \<Rightarrow> int \<times> 'k"
  th_cancel :: "addr \<Rightarrow> 'k \<Rightarrow> int \<times> 'k"

text \<open>The two choices by flags; 0 when neither flag is set and nothing is called. The flag of the calls says
  whether the system scope or the detached state is asked for.\<close>

definition set_scope :: "'k thread_calls \<Rightarrow> bitfield \<Rightarrow> 'k \<Rightarrow> int \<times> 'k" where
  "set_scope T params k =
     (if spr_bit_is_set params SPR_THREAD_SCOPE_SYSTEM then th_attr_setscope T True k
      else if spr_bit_is_set params SPR_THREAD_SCOPE_PROCESS then th_attr_setscope T False k
      else (0, k))"

definition set_detach :: "'k thread_calls \<Rightarrow> bitfield \<Rightarrow> 'k \<Rightarrow> int \<times> 'k" where
  "set_detach T params k =
     (if spr_bit_is_set params SPR_THREAD_CREATE_DETACHED then th_attr_setdetachstate T True k
      else if spr_bit_is_set params SPR_THREAD_CREATE_JOINABLE then th_attr_setdetachstate T False k
      else (0, k))"

definition set_stack :: "'k thread_calls \<Rightarrow> size \<Rightarrow> 'k \<Rightarrow> int \<times> 'k" where
  "set_stack T stack_size k = (if stack_size \<noteq> 0 then th_attr_setstacksize T stack_size k else (0, k))"

text \<open>The caller's structure holds the handle of the thread; it is passed and returned.\<close>

definition spr_thread_init ::
  "'k thread_calls \<Rightarrow> bitfield \<Rightarrow> size \<Rightarrow> int \<Rightarrow> addr \<Rightarrow> addr \<Rightarrow> addr \<times> 'k \<Rightarrow> err \<times> addr \<times> 'k" where
  "spr_thread_init T params stack_size prio start_routine arg = (\<lambda>(thread, k).
     case th_attr_init T k of (r, k) \<Rightarrow>
     if r \<noteq> 0 then (th_errno T k, thread, k)
     else case set_scope T params k of (r, k) \<Rightarrow>
     if r \<noteq> 0 then (th_errno T k, thread, k)
     else case set_detach T params k of (r, k) \<Rightarrow>
     if r \<noteq> 0 then (th_errno T k, thread, k)
     else case set_stack T stack_size k of (r, k) \<Rightarrow>
     if r \<noteq> 0 then (th_errno T k, thread, k)
     else case th_create T start_routine arg k of (r, handle, k) \<Rightarrow>
     if r \<noteq> 0 then (th_errno T k, thread, k)
     else case th_attr_destroy T k of (_, k) \<Rightarrow> (SPR_OK, handle, k))"

definition spr_thread_join :: "'k thread_calls \<Rightarrow> addr \<Rightarrow> 'k \<Rightarrow> err \<times> 'k" where
  "spr_thread_join T thread k =
     (case th_join T thread k of (r, k) \<Rightarrow> (if r \<noteq> 0 then th_errno T k else SPR_OK, k))"

definition spr_thread_cancel :: "'k thread_calls \<Rightarrow> addr \<Rightarrow> 'k \<Rightarrow> err \<times> 'k" where
  "spr_thread_cancel T thread k =
     (case th_cancel T thread k of (r, k) \<Rightarrow> (if r \<noteq> 0 then th_errno T k else SPR_OK, k))"

definition spr_thread_fini :: "addr \<Rightarrow> 'k \<Rightarrow> 'k" where
  "spr_thread_fini thread k = k"

section \<open>Threads over Windows\<close>

record 'k win_threads =
  wt_last_error :: "'k \<Rightarrow> err"
  wt_CreateThread :: "size \<Rightarrow> addr \<Rightarrow> addr \<Rightarrow> 'k \<Rightarrow> addr \<times> 'k"
  wt_SetThreadPriority :: "addr \<Rightarrow> int \<Rightarrow> 'k \<Rightarrow> int \<times> 'k"
  wt_Wait :: "addr \<Rightarrow> 'k \<Rightarrow> bool \<times> 'k"
  wt_Terminate :: "addr \<Rightarrow> 'k \<Rightarrow> int \<times> 'k"
  wt_CloseHandle :: "addr \<Rightarrow> 'k \<Rightarrow> 'k"

definition spr_thread_init_win32 ::
  "'k win_threads \<Rightarrow> bitfield \<Rightarrow> size \<Rightarrow> int \<Rightarrow> addr \<Rightarrow> addr \<Rightarrow> addr \<times> 'k \<Rightarrow> err \<times> addr \<times> 'k" where
  "spr_thread_init_win32 W params stack_size prio start_routine arg = (\<lambda>(thread, k).
     case wt_CreateThread W stack_size start_routine arg k of (t, k) \<Rightarrow>
     if t = NULL then (wt_last_error W k, thread, k)
     else case wt_SetThreadPriority W t prio k of (r, k) \<Rightarrow>
     if r = 0 then (wt_last_error W k, thread, k)
     else (SPR_OK, t, k))"

definition spr_thread_join_win32 :: "'k win_threads \<Rightarrow> addr \<Rightarrow> 'k \<Rightarrow> err \<times> 'k" where
  "spr_thread_join_win32 W thread k =
     (case wt_Wait W thread k of (signalled, k) \<Rightarrow> (if \<not> signalled then wt_last_error W k else SPR_OK, k))"

definition spr_thread_cancel_win32 :: "'k win_threads \<Rightarrow> addr \<Rightarrow> 'k \<Rightarrow> err \<times> 'k" where
  "spr_thread_cancel_win32 W thread k =
     (case wt_Terminate W thread k of (r, k) \<Rightarrow> (if r = 0 then wt_last_error W k else SPR_OK, k))"

definition spr_thread_fini_win32 :: "'k win_threads \<Rightarrow> addr \<Rightarrow> 'k \<Rightarrow> 'k" where
  "spr_thread_fini_win32 W thread k = wt_CloseHandle W thread k"

section \<open>Thread identifiers\<close>

text \<open>The system's answer is a parameter; what remains is the conversion to \<^verbatim>\<open>spr_tid_t\<close>, which is
  \<^verbatim>\<open>pid_t\<close> on Linux, 32 bits wide on FreeBSD and Windows and 64 bits on Darwin. On Darwin the result of
  the call is not looked at: where it fails the answer is what the local variable held.\<close>

definition spr_thread_current_tid_linux :: "64 word \<Rightarrow> 32 word" where
  "spr_thread_current_tid_linux gettid = ucast gettid"

definition spr_thread_current_tid_freebsd :: "32 word \<Rightarrow> 32 word" where
  "spr_thread_current_tid_freebsd getthreadid = getthreadid"

definition spr_thread_current_tid_darwin :: "64 word option \<Rightarrow> 64 word \<Rightarrow> 64 word" where
  "spr_thread_current_tid_darwin threadid tid = (case threadid of Some t \<Rightarrow> t | None \<Rightarrow> tid)"

definition spr_thread_current_tid_win32 :: "32 word \<Rightarrow> 32 word" where
  "spr_thread_current_tid_win32 GetCurrentThreadId = GetCurrentThreadId"

section \<open>Mutexes over Windows (lib/thread/spr_mutex.c)\<close>

text \<open>The structure is a critical section or a handle of a mutex object; both are locked by a thread and
  count its locks, as their documentation says of them. A mutex object whose owner has ended without
  releasing it is free but abandoned: the next wait takes it and answers \<open>WAIT_ABANDONED\<close>. A wait without
  bound on an object of another thread does not return, which is the answer \<open>WAIT_TIMEOUT\<close> of the model;
  \<open>WAIT_FAILED\<close> is the answer for a handle that is no object's and does not occur between creating and
  closing it. A critical section whose owner has ended stays owned. \<open>create_error\<close> is the error number
  when no object can be created. Leaving a critical section one does not own is undefined.\<close>

datatype win_mutex_type = spr_mutex_mutex | spr_mutex_critical_section

record win_lock =
  wl_owner :: "tid option"
  wl_count :: nat
  wl_abandoned :: bool

record win_mutex =
  wm_type :: win_mutex_type
  wm_lock :: win_lock

definition free_lock :: win_lock where "free_lock = \<lparr>wl_owner = None, wl_count = 0, wl_abandoned = False\<rparr>"

definition acquire :: "tid \<Rightarrow> win_lock \<Rightarrow> win_lock option" where
  "acquire t l =
     (if wl_owner l = None \<or> wl_owner l = Some t
      then Some \<lparr>wl_owner = Some t, wl_count = wl_count l + 1, wl_abandoned = False\<rparr> else None)"

datatype wait_result = WAIT_OBJECT_0 | WAIT_ABANDONED | WAIT_TIMEOUT

definition wait_for_object :: "tid \<Rightarrow> win_lock \<Rightarrow> wait_result \<times> win_lock" where
  "wait_for_object t l =
     (case acquire t l of None \<Rightarrow> (WAIT_TIMEOUT, l)
      | Some l' \<Rightarrow> (if wl_abandoned l then WAIT_ABANDONED else WAIT_OBJECT_0, l'))"

definition release :: "tid \<Rightarrow> win_lock \<Rightarrow> win_lock option" where
  "release t l =
     (if wl_owner l = Some t
      then Some (if wl_count l \<le> 1 then free_lock else l\<lparr>wl_count := wl_count l - 1\<rparr>) else None)"

text \<open>What the end of a thread does to the mutexes it owns.\<close>

definition thread_ends :: "tid \<Rightarrow> win_mutex \<Rightarrow> win_mutex" where
  "thread_ends t mutex =
     (if wm_type mutex = spr_mutex_mutex \<and> wl_owner (wm_lock mutex) = Some t
      then mutex\<lparr>wm_lock := free_lock\<lparr>wl_abandoned := True\<rparr>\<rparr> else mutex)"

definition spr_mutex_init_win32 ::
  "err option \<Rightarrow> bitfield \<Rightarrow> win_mutex \<Rightarrow> err \<times> win_mutex" where
  "spr_mutex_init_win32 create_error params mutex =
     (if spr_bit_is_set params SPR_MUTEX_RECURSIVE
      then (SPR_OK, mutex\<lparr>wm_type := spr_mutex_critical_section, wm_lock := free_lock\<rparr>)
      else case create_error of
        Some err \<Rightarrow> (err, mutex)
      | None \<Rightarrow> (SPR_OK, mutex\<lparr>wm_type := spr_mutex_mutex, wm_lock := free_lock\<rparr>))"

definition spr_mutex_lock_win32 :: "err \<Rightarrow> tid \<Rightarrow> win_mutex \<Rightarrow> (err \<times> win_mutex) option" where
  "spr_mutex_lock_win32 last_error t mutex =
     (if wm_type mutex = spr_mutex_critical_section
      then case acquire t (wm_lock mutex) of None \<Rightarrow> None
        | Some l \<Rightarrow> Some (SPR_OK, mutex\<lparr>wm_lock := l\<rparr>)
      else case wait_for_object t (wm_lock mutex) of (r, l) \<Rightarrow>
        if r = WAIT_TIMEOUT then None
        else if r \<noteq> WAIT_OBJECT_0 then Some (last_error, mutex\<lparr>wm_lock := l\<rparr>)
        else Some (SPR_OK, mutex\<lparr>wm_lock := l\<rparr>))"

definition spr_mutex_trylock_win32 :: "tid \<Rightarrow> win_mutex \<Rightarrow> err \<times> win_mutex" where
  "spr_mutex_trylock_win32 t mutex =
     (if wm_type mutex = spr_mutex_critical_section
      then case acquire t (wm_lock mutex) of None \<Rightarrow> (SPR_BUSY, mutex)
        | Some l \<Rightarrow> (SPR_OK, mutex\<lparr>wm_lock := l\<rparr>)
      else case wait_for_object t (wm_lock mutex) of (r, l) \<Rightarrow>
        if r \<noteq> WAIT_OBJECT_0 then (SPR_BUSY, mutex\<lparr>wm_lock := l\<rparr>)
        else (SPR_OK, mutex\<lparr>wm_lock := l\<rparr>))"

definition spr_mutex_unlock_win32 :: "tid \<Rightarrow> err \<Rightarrow> win_mutex \<Rightarrow> (err \<times> win_mutex) option" where
  "spr_mutex_unlock_win32 t last_error mutex =
     (case release t (wm_lock mutex) of
        Some l \<Rightarrow> Some (SPR_OK, mutex\<lparr>wm_lock := l\<rparr>)
      | None \<Rightarrow> if wm_type mutex = spr_mutex_critical_section then None else Some (last_error, mutex))"

text \<open>Deleting the section or closing the handle; the object is gone, which is undefined while a thread is
  inside the section.\<close>

definition spr_mutex_fini_win32 :: "win_mutex \<Rightarrow> win_mutex option option" where
  "spr_mutex_fini_win32 mutex =
     (if wm_type mutex = spr_mutex_critical_section \<and> wl_owner (wm_lock mutex) \<noteq> None then None
      else Some None)"

section \<open>Properties\<close>

text \<open>What POSIX documents of the thread calls: they report errors by their result and leave the error
  number alone.\<close>

definition errno_untouched :: "'k thread_calls \<Rightarrow> bool" where
  "errno_untouched T \<longleftrightarrow> (\<forall>k.
     th_errno T (snd (th_attr_init T k)) = th_errno T k \<and>
     (\<forall>b. th_errno T (snd (th_attr_setscope T b k)) = th_errno T k) \<and>
     (\<forall>b. th_errno T (snd (th_attr_setdetachstate T b k)) = th_errno T k) \<and>
     (\<forall>n. th_errno T (snd (th_attr_setstacksize T n k)) = th_errno T k) \<and>
     (\<forall>f a. th_errno T (snd (snd (th_create T f a k))) = th_errno T k) \<and>
     (\<forall>t. th_errno T (snd (th_join T t k)) = th_errno T k) \<and>
     (\<forall>t. th_errno T (snd (th_cancel T t k)) = th_errno T k))"

lemma errno_untouched_set:
  assumes "errno_untouched T"
  shows "th_errno T (snd (set_scope T params k)) = th_errno T k"
    "th_errno T (snd (set_detach T params k)) = th_errno T k"
    "th_errno T (snd (set_stack T n k)) = th_errno T k"
  using assms by (simp_all add: set_scope_def set_detach_def set_stack_def errno_untouched_def)

text \<open>The thread library does not set the error number, but the thread functions return it when a call
  of the library fails. With an error number of zero every failure is therefore reported as
  success: \<^verbatim>\<open>spr_thread_init\<close> returns \<^verbatim>\<open>SPR_OK\<close> even if no thread was created and the handle is the old one,
  and joining or cancelling a thread that does not exist returns \<^verbatim>\<open>SPR_OK\<close>.\<close>

theorem thread_failures_reported_as_success:
  assumes "errno_untouched T" "th_errno T k = 0"
  shows "fst (spr_thread_init T params stack_size prio f a (thread, k)) = SPR_OK \<and>
    (fst (th_create T f a (snd (set_stack T stack_size (snd (set_detach T params (snd (set_scope T params
        (snd (th_attr_init T k))))))))) \<noteq> 0 \<longrightarrow>
      fst (snd (spr_thread_init T params stack_size prio f a (thread, k))) = thread) \<and>
    fst (spr_thread_join T t k) = SPR_OK \<and> fst (spr_thread_cancel T t k) = SPR_OK"
  using assms errno_untouched_set [OF assms(1)]
  by (simp add: spr_thread_init_def spr_thread_join_def spr_thread_cancel_def case_prod_beta
    SPR_OK_def errno_untouched_def)

text \<open>A thread library in which nothing can be created; its state is the error number.\<close>

definition sample_threads :: "err thread_calls" where
  "sample_threads = \<lparr>th_errno = (\<lambda>k. k), th_attr_init = (\<lambda>k. (0, k)), th_attr_setscope = (\<lambda>b k. (0, k)),
     th_attr_setdetachstate = (\<lambda>b k. (0, k)), th_attr_setstacksize = (\<lambda>n k. (0, k)),
     th_create = (\<lambda>f a k. (11, 0, k)), th_attr_destroy = (\<lambda>k. (0, k)), th_join = (\<lambda>t k. (3, k)),
     th_cancel = (\<lambda>t k. (3, k))\<rparr>"

theorem thread_failures_reported_as_success_witness:
  "fst (spr_thread_init sample_threads 1 0 0 100 0 (77, 0)) = SPR_OK \<and>
    fst (snd (spr_thread_init sample_threads 1 0 0 100 0 (77, 0))) = 77"
proof -
  have "errno_untouched sample_threads" by (simp add: errno_untouched_def sample_threads_def)
  from thread_failures_reported_as_success [OF this, of 0 1 0 0 100 0 77 0]
  show ?thesis by (simp add: sample_threads_def)
qed

text \<open>The flag for recursive mutexes means nothing on Windows: a thread that locks a mutex twice gets it
  twice whatever the flags, and a second unlock is needed to free it. With POSIX the second lock of a
  mutex made without the flag does not return.\<close>

theorem relock_differs_between_systems:
  assumes "spr_mutex_init_win32 None params w = (SPR_OK, w0)"
    and "accessible e (blocks m) a" "mutexes m a = \<lparr>mx_recursive = False, mx_shared = s, mx_owner = None, mx_count = 0\<rparr>"
  shows "(\<exists>w1 w2 w3 w4. spr_mutex_lock_win32 err t w0 = Some (SPR_OK, w1) \<and> spr_mutex_lock_win32 err t w1 = Some (SPR_OK, w2) \<and>
      spr_mutex_unlock_win32 t err w2 = Some (SPR_OK, w3) \<and> wl_owner (wm_lock w3) = Some t \<and>
      spr_mutex_unlock_win32 t err w3 = Some (SPR_OK, w4) \<and> wl_owner (wm_lock w4) = None) \<and>
    (\<exists>m1. spr_mutex_lock e a m = Some (SPR_OK, m1) \<and> spr_mutex_lock e a m1 = None)"
proof -
  have l: "wm_lock w0 = free_lock" using assms(1) by (auto simp: spr_mutex_init_win32_def split: if_splits)
  then show ?thesis using assms(2,3)
    by (simp add: spr_mutex_lock_win32_def spr_mutex_unlock_win32_def wait_for_object_def acquire_def
      release_def free_lock_def mutex_defs)
qed

text \<open>A thread that ends inside a mutex object made by \<^verbatim>\<open>spr_mutex_init\<close> leaves it abandoned. The next thread
  that locks it owns it, but \<^verbatim>\<open>spr_mutex_lock\<close> answers the error number, which the wait has not set, and
  \<^verbatim>\<open>spr_mutex_trylock\<close> answers \<^verbatim>\<open>SPR_BUSY\<close>: a caller that takes the answer for a failure does not unlock, and
  every other thread waits for ever.\<close>

theorem abandoned_mutex_is_owned:
  assumes "\<not> spr_bit_is_set params SPR_MUTEX_RECURSIVE" "spr_mutex_init_win32 None params w = (SPR_OK, w0)"
    and "spr_mutex_lock_win32 err t w0 = Some (SPR_OK, w1)" "v \<noteq> u"
  shows "\<exists>w2. spr_mutex_lock_win32 err u (thread_ends t w1) = Some (err, w2) \<and>
    spr_mutex_trylock_win32 u (thread_ends t w1) = (SPR_BUSY, w2) \<and> wl_owner (wm_lock w2) = Some u \<and>
    spr_mutex_lock_win32 err v w2 = None"
  using assms by (auto simp: spr_mutex_init_win32_def spr_mutex_lock_win32_def spr_mutex_trylock_win32_def
    thread_ends_def wait_for_object_def acquire_def free_lock_def)

theorem abandoned_mutex_is_owned_witness:
  "\<exists>w1 w2. spr_mutex_lock_win32 0 3 \<lparr>wm_type = spr_mutex_mutex, wm_lock = free_lock\<rparr> = Some (SPR_OK, w1) \<and>
    spr_mutex_trylock_win32 4 (thread_ends 3 w1) = (SPR_BUSY, w2) \<and> wl_owner (wm_lock w2) = Some 4"
proof -
  let ?w = "\<lparr>wm_type = spr_mutex_mutex, wm_lock = free_lock\<rparr>"
  have i: "\<not> spr_bit_is_set 0 SPR_MUTEX_RECURSIVE" "spr_mutex_init_win32 None 0 ?w = (SPR_OK, ?w)"
    by (simp_all add: spr_mutex_init_win32_def spr_bit_is_set_def)
  obtain w1 where l: "spr_mutex_lock_win32 0 3 ?w = Some (SPR_OK, w1)"
    by (simp add: spr_mutex_lock_win32_def wait_for_object_def acquire_def free_lock_def)
  show ?thesis using abandoned_mutex_is_owned [OF i l, of 5 4] l by auto
qed

theorem relock_differs_between_systems_witness:
  "\<exists>m1. spr_mutex_lock sample_env 4360 (sample_mem\<lparr>mutexes := (\<lambda>_. zero_mutex)\<rparr>) = Some (SPR_OK, m1) \<and>
    spr_mutex_lock sample_env 4360 m1 = None"
proof -
  have "accessible sample_env (blocks (sample_mem\<lparr>mutexes := (\<lambda>_. zero_mutex)\<rparr>)) 4360"
    by (simp add: sample_fields sample_access in_range_def)
  moreover have "spr_mutex_init_win32 None 0 \<lparr>wm_type = spr_mutex_mutex, wm_lock = free_lock\<rparr>
      = (SPR_OK, \<lparr>wm_type = spr_mutex_mutex, wm_lock = free_lock\<rparr>)"
    by (simp add: spr_mutex_init_win32_def spr_bit_is_set_def)
  ultimately show ?thesis
    using relock_differs_between_systems [where a = 4360 and e = sample_env and s = False
        and m = "sample_mem\<lparr>mutexes := (\<lambda>_. zero_mutex)\<rparr>"] by (simp add: zero_mutex_def)
qed

end
