(* ===== verification/Spr_Lock.thy ===== *)
theory Spr_Lock
  imports Spr_Thread
begin

text \<open>
  Mutual exclusion: the contract of the mutexes of \<^verbatim>\<open>lib/thread/spr_mutex.c\<close> as a locale, threads that
  use one as a step relation, and the POSIX and the Windows functions as its instances.
\<close>

section \<open>The contract\<close>

text \<open>
  What the library promises of a mutex on every system: it has at most one holder, who may hold it
  several times; locking a free mutex succeeds; locking one that another thread holds does not return
  or fails and changes nothing; the holder can always unlock. \<open>good\<close> is the condition on the memory
  under which the operations are defined. \<open>None\<close> is a call that does not return.
\<close>

locale exclusive_lock =
  fixes good :: "'s \<Rightarrow> bool" and holder :: "'s \<Rightarrow> tid option" and depth :: "'s \<Rightarrow> nat"
    and lock trylock unlock :: "tid \<Rightarrow> 's \<Rightarrow> (err \<times> 's) option"
  assumes depth_holder: "good s \<Longrightarrow> depth s = 0 \<longleftrightarrow> holder s = None"
    and lock_free: "good s \<Longrightarrow> holder s = None \<Longrightarrow>
      \<exists>s'. lock t s = Some (SPR_OK, s') \<and> good s' \<and> holder s' = Some t \<and> depth s' = 1"
    and lock_other: "good s \<Longrightarrow> holder s = Some u \<Longrightarrow> u \<noteq> t \<Longrightarrow>
      lock t s = None \<or> (\<exists>err. err \<noteq> SPR_OK \<and> lock t s = Some (err, s))"
    and lock_again: "good s \<Longrightarrow> holder s = Some t \<Longrightarrow>
      lock t s = None \<or> (\<exists>s'. lock t s = Some (SPR_OK, s') \<and> good s' \<and> holder s' = Some t \<and> depth s' = depth s + 1)"
    and trylock_ok: "good s \<Longrightarrow> trylock t s = Some (SPR_OK, s') \<Longrightarrow> lock t s = Some (SPR_OK, s')"
    and trylock_returns: "good s \<Longrightarrow> trylock t s \<noteq> None"
    and unlock_held: "good s \<Longrightarrow> holder s = Some t \<Longrightarrow>
      \<exists>s'. unlock t s = Some (SPR_OK, s') \<and> good s' \<and> depth s' = depth s - 1 \<and>
        (holder s' = (if depth s' = 0 then None else Some t))"

text \<open>Threads that use a mutex, in any interleaving: the second component counts how often each thread
  holds it, by the calls that succeeded. Only a thread that holds the mutex unlocks it.\<close>

inductive locking ::
  "(tid \<Rightarrow> 's \<Rightarrow> (err \<times> 's) option) \<Rightarrow> (tid \<Rightarrow> 's \<Rightarrow> (err \<times> 's) option) \<Rightarrow>
   (tid \<Rightarrow> 's \<Rightarrow> (err \<times> 's) option) \<Rightarrow> 's \<Rightarrow> 's \<times> (tid \<Rightarrow> nat) \<Rightarrow> bool"
  for lock trylock unlock s0
where
  start: "locking lock trylock unlock s0 (s0, \<lambda>_. 0)"
| lock: "locking lock trylock unlock s0 (s, h) \<Longrightarrow> lock t s = Some (SPR_OK, s') \<Longrightarrow>
    locking lock trylock unlock s0 (s', h(t := h t + 1))"
| trylock: "locking lock trylock unlock s0 (s, h) \<Longrightarrow> trylock t s = Some (SPR_OK, s') \<Longrightarrow>
    locking lock trylock unlock s0 (s', h(t := h t + 1))"
| unlock: "locking lock trylock unlock s0 (s, h) \<Longrightarrow> 0 < h t \<Longrightarrow> unlock t s = Some (SPR_OK, s') \<Longrightarrow>
    locking lock trylock unlock s0 (s', h(t := h t - 1))"

inductive_cases lockingE: "locking lock trylock unlock s0 (s, h)"

lemma locking_once:
  assumes "lock t s0 = Some (SPR_OK, s)"
  shows "locking lock trylock unlock s0 (s, (\<lambda>_. 0)(t := 0 + 1))"
  using locking.start assms by (rule locking.lock)

text \<open>The counts of the threads and the state of the mutex agree.\<close>

definition holds :: "('s \<Rightarrow> tid option) \<Rightarrow> ('s \<Rightarrow> nat) \<Rightarrow> 's \<Rightarrow> (tid \<Rightarrow> nat) \<Rightarrow> bool" where
  "holds holder depth s h \<longleftrightarrow> (\<forall>t. h t = (if holder s = Some t then depth s else 0))"

context exclusive_lock
begin

lemma lock_holds:
  assumes "good s" "holds holder depth s h" "lock t s = Some (SPR_OK, s')"
  shows "good s' \<and> holds holder depth s' (h(t := h t + 1))"
proof (cases "holder s")
  case None
  then show ?thesis using lock_free [OF assms(1) None, of t] assms(2,3) by (auto simp: holds_def)
next
  case (Some u)
  show ?thesis
  proof (cases "u = t")
    case True
    then show ?thesis using lock_again [of s t] assms Some by (auto simp: holds_def)
  next
    case False
    then show ?thesis using lock_other [OF assms(1) Some False] assms(3) by auto
  qed
qed

lemma locking_inv:
  assumes "locking lock trylock unlock s0 x" "good s0" "holder s0 = None"
  shows "good (fst x) \<and> holds holder depth (fst x) (snd x)"
  using assms
proof (induction rule: locking.induct)
  case (lock s h t s')
  then have inv: "good s" "holds holder depth s h" by simp_all
  from lock_holds [OF this lock.hyps(2)] show ?case by (simp only: fst_conv snd_conv)
next
  case (trylock s h t s')
  then have inv: "good s" "holds holder depth s h" by simp_all
  from lock_holds [OF this trylock_ok [OF inv(1) trylock.hyps(2)]] show ?case by (simp only: fst_conv snd_conv)
next
  case (unlock s h t s')
  then have inv: "good s" "holds holder depth s h" by simp_all
  then have "holder s = Some t" using unlock.hyps(2) by (auto simp: holds_def split: if_splits)
  with unlock_held [OF inv(1) this] unlock.hyps(3) inv(2) show ?case by (auto simp: holds_def)
qed (simp add: holds_def)

lemma locking_exclusive:
  assumes "locking lock trylock unlock s0 (s, h)" "good s0" "holder s0 = None"
  shows "0 < h t \<Longrightarrow> 0 < h u \<Longrightarrow> t = u" "0 < h t \<Longrightarrow> holder s = Some t \<and> depth s = h t"
  using locking_inv [OF assms] by (auto simp: holds_def split: if_splits)

lemma locking_progress:
  assumes "locking lock trylock unlock s0 (s, h)" "good s0" "holder s0 = None"
  shows "(\<forall>t. \<exists>s'. lock t s = Some (SPR_OK, s')) \<or> (\<exists>t s'. 0 < h t \<and> unlock t s = Some (SPR_OK, s'))"
proof -
  have inv: "good s" "holds holder depth s h" using locking_inv [OF assms] by simp_all
  show ?thesis
  proof (cases "holder s")
    case None
    then show ?thesis using lock_free [OF inv(1) None] by blast
  next
    case (Some t)
    then have "0 < h t" using inv(2) depth_holder [OF inv(1)] by (simp add: holds_def)
    then show ?thesis using unlock_held [OF inv(1) Some] by blast
  qed
qed

end

section \<open>POSIX\<close>

text \<open>The mutex at an address, as the threads call the library's functions.\<close>

definition posix_lock :: "env \<Rightarrow> addr \<Rightarrow> tid \<Rightarrow> mem \<Rightarrow> (err \<times> mem) option" where
  "posix_lock e a t m = spr_mutex_lock (e\<lparr>current_thread := t\<rparr>) a m"

definition posix_trylock :: "env \<Rightarrow> addr \<Rightarrow> tid \<Rightarrow> mem \<Rightarrow> (err \<times> mem) option" where
  "posix_trylock e a t m = spr_mutex_trylock (e\<lparr>current_thread := t\<rparr>) a m"

definition posix_unlock :: "env \<Rightarrow> addr \<Rightarrow> tid \<Rightarrow> mem \<Rightarrow> (err \<times> mem) option" where
  "posix_unlock e a t m = spr_mutex_unlock (e\<lparr>current_thread := t\<rparr>) a m"

definition posix_good :: "env \<Rightarrow> addr \<Rightarrow> mem \<Rightarrow> bool" where
  "posix_good e a m \<longleftrightarrow> accessible e (blocks m) a \<and>
     (mx_count (mutexes m a) = 0 \<longleftrightarrow> mx_owner (mutexes m a) = None) \<and>
     (mx_recursive (mutexes m a) \<or> mx_count (mutexes m a) \<le> 1)"

lemmas posix_lock_defs = posix_lock_def posix_trylock_def posix_unlock_def posix_good_def mutex_defs
  SPR_OK_def SPR_BUSY_def EBUSY_def

interpretation posix_mutex: exclusive_lock "posix_good e a" "\<lambda>m. mx_owner (mutexes m a)"
  "\<lambda>m. mx_count (mutexes m a)" "posix_lock e a" "posix_trylock e a" "posix_unlock e a" for e a
  by unfold_locales (auto simp: posix_lock_defs Let_def split: option.splits if_splits)

section \<open>Windows\<close>

definition win_trylock :: "tid \<Rightarrow> win_mutex \<Rightarrow> (err \<times> win_mutex) option" where
  "win_trylock t w = Some (spr_mutex_trylock_win32 t w)"

definition win_unlock :: "err \<Rightarrow> tid \<Rightarrow> win_mutex \<Rightarrow> (err \<times> win_mutex) option" where
  "win_unlock err t w = spr_mutex_unlock_win32 t err w"

definition win_good :: "win_mutex \<Rightarrow> bool" where
  "win_good w \<longleftrightarrow> (wl_count (wm_lock w) = 0 \<longleftrightarrow> wl_owner (wm_lock w) = None) \<and> \<not> wl_abandoned (wm_lock w)"

lemmas win_lock_defs = spr_mutex_lock_win32_def win_trylock_def spr_mutex_trylock_win32_def
  win_unlock_def spr_mutex_unlock_win32_def win_good_def wait_for_object_def acquire_def release_def
  free_lock_def SPR_OK_def SPR_BUSY_def

interpretation win_mutex: exclusive_lock win_good "\<lambda>w. wl_owner (wm_lock w)" "\<lambda>w. wl_count (wm_lock w)"
  "spr_mutex_lock_win32 lerr" win_trylock "win_unlock err" for lerr err
  by unfold_locales (auto simp: win_lock_defs split: option.splits if_splits)

section \<open>Properties\<close>

text \<open>C17: Threads that lock, try and unlock a mutex in any order, over POSIX and over Windows, never hold it
  at the same time: when the calls of a thread have given it the mutex and not yet taken it back, it is
  the owner and no other thread holds it; and the mutex is never stuck, since it is free for every thread
  or its holder can unlock it. On Windows the mutex is one that no thread has abandoned by ending
  while it held it.\<close>

theorem mutex_excludes:
  assumes "posix_good e a m0" "mx_owner (mutexes m0 a) = None"
    "locking (posix_lock e a) (posix_trylock e a) (posix_unlock e a) m0 (m, h)"
    "win_good w0" "wl_owner (wm_lock w0) = None"
    "locking (spr_mutex_lock_win32 lerr) win_trylock (win_unlock err) w0 (w, g)"
  shows "(\<forall>t u. 0 < h t \<and> 0 < h u \<longrightarrow> t = u) \<and> (\<forall>t. 0 < h t \<longrightarrow> mx_owner (mutexes m a) = Some t) \<and>
    ((\<forall>t. \<exists>m'. posix_lock e a t m = Some (SPR_OK, m')) \<or> (\<exists>t m'. 0 < h t \<and> posix_unlock e a t m = Some (SPR_OK, m'))) \<and>
    (\<forall>t u. 0 < g t \<and> 0 < g u \<longrightarrow> t = u) \<and> (\<forall>t. 0 < g t \<longrightarrow> wl_owner (wm_lock w) = Some t) \<and>
    ((\<forall>t. \<exists>w'. spr_mutex_lock_win32 lerr t w = Some (SPR_OK, w')) \<or> (\<exists>t w'. 0 < g t \<and> win_unlock err t w = Some (SPR_OK, w')))"
  using posix_mutex.locking_exclusive [OF assms(3,1,2)] posix_mutex.locking_progress [OF assms(3,1,2)]
    win_mutex.locking_exclusive [OF assms(6,4,5)] win_mutex.locking_progress [OF assms(6,4,5)]
  by blast

theorem mutex_excludes_witness:
  "\<exists>m w. posix_lock sample_env 4360 3 sample_mem = Some (SPR_OK, m) \<and> mx_owner (mutexes m 4360) = Some 3 \<and>
    spr_mutex_lock_win32 0 3 \<lparr>wm_type = spr_mutex_mutex, wm_lock = free_lock\<rparr> = Some (SPR_OK, w) \<and>
    wl_owner (wm_lock w) = Some 3"
proof -
  let ?w = "\<lparr>wm_type = spr_mutex_mutex, wm_lock = free_lock\<rparr>"
  have g: "posix_good sample_env 4360 sample_mem" "mx_owner (mutexes sample_mem 4360) = None" "win_good ?w" "wl_owner (wm_lock ?w) = None"
    by (simp_all add: posix_good_def win_good_def sample_fields sample_access in_range_def free_lock_def)
  obtain m where m: "posix_lock sample_env 4360 3 sample_mem = Some (SPR_OK, m)"
    using posix_mutex.lock_free [OF g(1,2)] by blast
  obtain w where w: "spr_mutex_lock_win32 0 3 ?w = Some (SPR_OK, w)"
    using win_mutex.lock_free [OF g(3,4)] by blast
  note c = mutex_excludes [OF g(1,2) locking_once [of "posix_lock sample_env 4360" 3, OF m] g(3,4) locking_once [of "spr_mutex_lock_win32 0" 3, OF w]]
  show ?thesis
    using m w c [THEN conjunct2, THEN conjunct1, rule_format, of 3]
      c [THEN conjunct2, THEN conjunct2, THEN conjunct2, THEN conjunct2, THEN conjunct1, rule_format, of 3] by simp
qed

end
