(* ===== verification/Spr_Clock.thy ===== *)
theory Spr_Clock
  imports Spr_Prelude
begin

text \<open>
  \<^verbatim>\<open>lib/spr_time.c\<close>, \<^verbatim>\<open>lib/spr_cpuinfo.c\<close> and \<^verbatim>\<open>lib/spr_version.c\<close>: the clock, the number of
  processors and the version strings.
\<close>

section \<open>Time (lib/spr_time.c)\<close>

record timeval =
  tv_sec :: int
  tv_usec :: int

record tm =
  tm_sec :: int
  tm_min :: int
  tm_hour :: int
  tm_mday :: int
  tm_mon :: int
  tm_year :: int
  tm_wday :: int

text \<open>POSIX: \<open>now\<close> is what the system's clock answers, \<open>local\<close> the broken-down local time the system gives
  for a second. Months are counted from one, years from zero.\<close>

definition spr_gettimeofday :: "timeval \<Rightarrow> timeval" where
  "spr_gettimeofday now = now"

definition spr_localtime :: "(int \<Rightarrow> tm) \<Rightarrow> int \<Rightarrow> tm" where
  "spr_localtime local sec = (let tm = local sec in tm\<lparr>tm_mon := tm_mon tm + 1, tm_year := tm_year tm + 1900\<rparr>)"

text \<open>Windows: the system's clock counts tenths of microseconds since 1601 in two halves; \<open>long\<close> has 32
  bits there.\<close>

record filetime =
  dwLowDateTime :: "32 word"
  dwHighDateTime :: "32 word"

definition epoch_1970 :: "64 word" where "epoch_1970 = 116444736000000000"

definition spr_gettimeofday_win32 :: "filetime \<Rightarrow> timeval" where
  "spr_gettimeofday_win32 ft = (
     let intervals = push_bit 32 (ucast (dwHighDateTime ft)) OR ucast (dwLowDateTime ft) :: 64 word;
         intervals = intervals - epoch_1970
     in \<lparr>tv_sec = sint (ucast (intervals div 10000000) :: 32 word),
         tv_usec = sint (ucast (intervals mod 10000000 div 10) :: 32 word)\<rparr>)"

definition spr_localtime_win32 :: "'t \<Rightarrow> int \<Rightarrow> 't" where
  "spr_localtime_win32 now sec = now"

text \<open>The macros of \<^verbatim>\<open>include/spr_time.h\<close> for an argument of type \<^verbatim>\<open>int\<close>: what is passed to
  \<^verbatim>\<open>usleep\<close> in microseconds and to \<^verbatim>\<open>Sleep\<close> in milliseconds. A product out of the range of
  \<^verbatim>\<open>int\<close> is undefined.\<close>

definition spr_msleep :: "32 word \<Rightarrow> 32 word option" where
  "spr_msleep ms = (if - (2 ^ 31) \<le> sint ms * 1000 \<and> sint ms * 1000 < 2 ^ 31
     then Some (of_int (sint ms * 1000)) else None)"

definition spr_msleep_win32 :: "32 word \<Rightarrow> 32 word" where
  "spr_msleep_win32 ms = ms"

section \<open>Processors (lib/spr_cpuinfo.c)\<close>

text \<open>The answer of \<open>sysconf\<close> where it exists, and of \<open>GetSystemInfo\<close>.\<close>

definition spr_get_number_cpu :: "64 word option \<Rightarrow> 64 word" where
  "spr_get_number_cpu sc_nproc = (
     let ncpus = (case sc_nproc of Some n \<Rightarrow> n | None \<Rightarrow> 1) in
     if sint ncpus \<le> 0 then 1 else ncpus)"

definition spr_get_number_cpu_win32 :: "32 word \<Rightarrow> 64 word" where
  "spr_get_number_cpu_win32 dwNumberOfProcessors = (
     let ncpus = (ucast dwNumberOfProcessors :: 64 word) in
     if sint ncpus \<le> 0 then 1 else ncpus)"

section \<open>Version (lib/spr_version.c)\<close>

datatype spr_version_type = SPR_VERSION | SPR_BUILT_DATE | SPR_PLATFORM | Other_version_type int

definition SPR_VERSION_STR :: string where "SPR_VERSION_STR = ''0.0.4''"
definition SPR_VERSION_DATE :: string where "SPR_VERSION_DATE = ''2020-07-15''"

text \<open>The build date and the name of the platform come from the build; null is \<open>None\<close>.\<close>

fun spr_version :: "string \<Rightarrow> string \<Rightarrow> spr_version_type \<Rightarrow> string option" where
  "spr_version date system_name SPR_VERSION = Some (''SPR '' @ SPR_VERSION_STR @ '' '' @ SPR_VERSION_DATE)"
| "spr_version date system_name SPR_BUILT_DATE = Some date"
| "spr_version date system_name SPR_PLATFORM = Some system_name"
| "spr_version date system_name (Other_version_type _) = None"

section \<open>Properties\<close>

lemma filetime_value:
  "unat (push_bit 32 (ucast hi) OR ucast lo :: 64 word) = unat hi * 2 ^ 32 + unat lo" for hi lo :: "32 word"
proof -
  have "push_bit 32 (ucast hi) OR ucast lo = push_bit 32 (ucast hi) + (ucast lo :: 64 word)"
    by (rule disjunctive_add [symmetric]) (auto simp: bit_simps dest: bit_imp_le_length)
  moreover have "unat (push_bit 32 (ucast hi) :: 64 word) = unat hi * 2 ^ 32"
    using unsigned_less [of hi, where ?'a = nat]
    by (simp add: push_bit_eq_mult unat_word_ariths unsigned_ucast_eq take_bit_nat_eq_self mult.commute)
  moreover have "unat (ucast lo :: 64 word) = unat lo"
    using unsigned_less [of lo, where ?'a = nat] by (simp add: unsigned_ucast_eq take_bit_nat_eq_self)
  ultimately show ?thesis
    using unsigned_less [of hi, where ?'a = nat] unsigned_less [of lo, where ?'a = nat]
    by (simp add: unat_add_exact)
qed

lemma sint_long: "x < 2 ^ 31 \<Longrightarrow> sint (of_nat x :: 32 word) = int x"
proof -
  assume x: "x < 2 ^ 31"
  have "sint (of_int (int x) :: 32 word) = int x"
    unfolding sint_sbintrunc' using x by (intro signed_take_bit_int_eq_self) simp_all
  then show ?thesis by simp
qed

lemma ucast_long: "(ucast w :: 32 word) = of_nat (unat w)" for w :: "64 word"
  by (simp add: word_unat_eq_iff unsigned_ucast_eq unsigned_of_nat)

text \<open>C34: \<^verbatim>\<open>spr_gettimeofday\<close> on Windows converts the system's clock exactly, for every time from 1970
  on: there are fewer than a million microseconds, and the seconds are those passed since 1970, cut to a
  signed number of 32 bits. So until the seconds reach 2^31 (January 2038) seconds and microseconds are the
  whole microseconds passed since 1970, and from then until 2^32 (2106) the seconds are negative.\<close>

theorem gettimeofday_win32_exact:
  assumes "t = unat (dwHighDateTime ft) * 2 ^ 32 + unat (dwLowDateTime ft) - 116444736000000000"
    and "116444736000000000 \<le> unat (dwHighDateTime ft) * 2 ^ 32 + unat (dwLowDateTime ft)"
  shows "0 \<le> tv_usec (spr_gettimeofday_win32 ft) \<and> tv_usec (spr_gettimeofday_win32 ft) < 1000000 \<and>
    tv_usec (spr_gettimeofday_win32 ft) = int (t mod 10000000 div 10) \<and>
    tv_sec (spr_gettimeofday_win32 ft) = (int (t div 10000000) + 2 ^ 31) mod 2 ^ 32 - 2 ^ 31 \<and>
    (t div 10000000 < 2 ^ 31 \<longrightarrow>
      tv_sec (spr_gettimeofday_win32 ft) * 1000000 + tv_usec (spr_gettimeofday_win32 ft) = int (t div 10)) \<and>
    (2 ^ 31 \<le> t div 10000000 \<and> t div 10000000 < 2 ^ 32 \<longrightarrow> tv_sec (spr_gettimeofday_win32 ft) < 0)"
proof -
  let ?w = "push_bit 32 (ucast (dwHighDateTime ft)) OR ucast (dwLowDateTime ft) :: 64 word"
  have w: "unat (?w - epoch_1970) = t"
    using assms by (subst unat_diff_exact) (simp_all add: filetime_value epoch_1970_def)
  have sec: "tv_sec (spr_gettimeofday_win32 ft) = sint (of_nat (t div 10000000) :: 32 word)"
    by (simp add: spr_gettimeofday_win32_def Let_def ucast_long unat_div w)
  have "tv_usec (spr_gettimeofday_win32 ft) = sint (of_nat (t mod 10000000 div 10) :: 32 word)"
    by (simp add: spr_gettimeofday_win32_def Let_def ucast_long unat_div unat_mod w)
  then have usec: "tv_usec (spr_gettimeofday_win32 ft) = int (t mod 10000000 div 10)"
    using sint_long [of "t mod 10000000 div 10"] by simp
  have us: "t mod 10000000 div 10 < 1000000" by (simp add: less_mult_imp_div_less)
  have "t div 10 = t div 10000000 * 1000000 + t mod 10000000 div 10"
  proof -
    have "t = 10 * (t div 10000000 * 1000000) + t mod 10000000" by (simp add: div_mult_mod_eq)
    then have "t div 10 = (10 * (t div 10000000 * 1000000) + t mod 10000000) div 10" by simp
    also have "\<dots> = t div 10000000 * 1000000 + t mod 10000000 div 10" by (subst div_mult_self4) simp_all
    finally show ?thesis .
  qed
  then have sum: "int (t div 10000000) * 1000000 + int (t mod 10000000 div 10) = int (t div 10)"
    by (metis of_nat_add of_nat_mult of_nat_numeral)
  have neg: "sint (of_nat x :: 32 word) < 0" if "2 ^ 31 \<le> x" "x < 2 ^ 32" for x
  proof -
    have "(of_nat x :: 32 word) = of_int (int x - 2 ^ 32)" by simp
    then have "sint (of_nat x :: 32 word) = signed_take_bit 31 (int x - 2 ^ 32)"
      by (simp only: sint_sbintrunc') simp
    also have "\<dots> = int x - 2 ^ 32" using that by (intro signed_take_bit_int_eq_self) simp_all
    finally show ?thesis using that by simp
  qed
  have cut: "sint (of_nat x :: 32 word) = (int x + 2 ^ 31) mod 2 ^ 32 - 2 ^ 31" for x
  proof -
    have "sint (of_int (int x) :: 32 word) = signed_take_bit 31 (int x)"
      by (simp only: sint_sbintrunc') simp
    also have "\<dots> = (int x + 2 ^ 31) mod 2 ^ 32 - 2 ^ 31"
      by (simp add: signed_take_bit_eq_take_bit_shift take_bit_eq_mod)
    finally show ?thesis by simp
  qed
  show ?thesis
    using usec us sum sec cut [of "t div 10000000"] sint_long [of "t div 10000000"] neg [of "t div 10000000"]
    by simp
qed

theorem gettimeofday_win32_exact_witness:
  "0 \<le> tv_usec (spr_gettimeofday_win32 \<lparr>dwLowDateTime = 0xd53e8000 + 10000025, dwHighDateTime = 0x19db1de\<rparr>) \<and>
   tv_sec (spr_gettimeofday_win32 \<lparr>dwLowDateTime = 0xd53e8000 + 10000025, dwHighDateTime = 0x19db1de\<rparr>) * 1000000 +
   tv_usec (spr_gettimeofday_win32 \<lparr>dwLowDateTime = 0xd53e8000 + 10000025, dwHighDateTime = 0x19db1de\<rparr>) = 1000002"
  using gettimeofday_win32_exact [of 10000025 "\<lparr>dwLowDateTime = 0xd53e8000 + 10000025, dwHighDateTime = 0x19db1de\<rparr>"]
  by simp

text \<open>The number of processors is at least one, and the system's answer when that is positive.\<close>

lemma number_cpu_positive: "0 < sint (spr_get_number_cpu n)" "0 < sint (spr_get_number_cpu_win32 k)"
  by (auto simp: spr_get_number_cpu_def spr_get_number_cpu_win32_def Let_def)

text \<open>A sleep is as long as asked for up to 2147483 milliseconds, some 35 minutes; a longer one is
  undefined on POSIX.\<close>

theorem msleep_bound:
  assumes "0 \<le> sint ms"
  shows "if sint ms \<le> 2147483 then \<exists>us. spr_msleep ms = Some us \<and> uint us = sint ms * 1000 else spr_msleep ms = None"
proof (cases "sint ms \<le> 2147483")
  case True
  have exact: "uint (of_int k :: 32 word) = k" if "0 \<le> k" "k < 2 ^ 32" for k
    using that by (simp add: uint_word_of_int_eq take_bit_int_eq_self)
  have "uint (of_int (sint ms * 1000) :: 32 word) = sint ms * 1000" by (rule exact) (use assms True in simp_all)
  moreover have "spr_msleep ms = Some (of_int (sint ms * 1000))"
    using assms True unfolding spr_msleep_def by (intro if_P) simp
  ultimately show ?thesis using True by metis
next
  case False
  then have "\<not> sint ms * 1000 < 2 ^ 31" by simp
  then show ?thesis using False by (simp add: spr_msleep_def)
qed

theorem msleep_bound_witness: "\<exists>us. spr_msleep 1500 = Some us \<and> uint us = 1500000"
  using msleep_bound [of 1500] by simp

end
