(* ===== verification/Spec2Isabelle.thy ===== *)
theory Spec2Isabelle
  imports Spr_Pool_Threads Spr_Array Spr_List_Props Spr_Errno Spr_Filesys_Win32 Spr_Semaphore Spr_Network Spr_Lock Spr_Clock
begin

text \<open>
  Verification of the C library spr: a portable runtime with memory pools, lists, arrays, strings,
  error messages, files, sockets, threads, mutexes and semaphores for POSIX systems and Windows.

  \<^bold>\<open>The program\<close>

  The centre of the library is the pool (\<^verbatim>\<open>lib/memory/spr_pool.c\<close>). It takes whole pages from the system
  (\<^verbatim>\<open>lib/memory/spr_memory.c\<close> or \<^verbatim>\<open>mmap\<close>), cuts requests out of them, sends large requests to \<^verbatim>\<open>malloc\<close>,
  keeps a list of cleanups, and forms a tree of child pools that are cleared and destroyed together; with
  thread safety its operations lock a mutex (\<^verbatim>\<open>lib/thread/spr_mutex.c\<close>) that the tree shares. Lists
  (\<^verbatim>\<open>lib/spr_list.c\<close>), arrays (\<^verbatim>\<open>lib/spr_array.c\<close>) and the copying string functions (\<^verbatim>\<open>lib/spr_string.c\<close>)
  allocate from a pool. Everything else wraps the system: each function is a few calls, the translation
  of flags and results, and the choice of the error number.

  \<^bold>\<open>How the code is modelled\<close>

  Definitions carry the name of the C function. The build is 64-bit (LP64): addresses and \<^verbatim>\<open>size_t\<close> are
  64-bit words, so sums wrap as they do in C; narrower integers are words of their width. The build
  options, the page size, the calling thread and the system allocator are the record \<^verbatim>\<open>env\<close>; the memory is
  the record \<^verbatim>\<open>mem\<close> with one map per structure type and one for plain bytes, so that aliasing is by address.
  A function that may dereference a bad pointer, leave an array or not return is an \<open>option\<close>: \<open>None\<close> is
  no defined result, \<open>Some\<close> carries the returned value and the new memory. A null result, an error code and
  an early return are ordinary values inside \<open>Some\<close>. With \<^verbatim>\<open>strict_mem\<close> an access outside the live blocks is
  undefined, as after \<^verbatim>\<open>free\<close> and \<^verbatim>\<open>munmap\<close>; without it released memory keeps its content, which only
  \<^verbatim>\<open>destroyed_child_is_destroyed_again\<close> supposes, to show that its fault does not hang on this. Where
  a platform has its own version of a function, the Windows one has the suffix \<^verbatim>\<open>_win32\<close>, the dispatch
  one \<^verbatim>\<open>_gcd\<close>, and the versions of the socket options the name of the system.

  \<^bold>\<open>Theories\<close>

  \<^item> \<^verbatim>\<open>Spr_Prelude\<close>: machine types, status codes (\<^verbatim>\<open>include/spr_errno.h\<close>),
    facts on words, linked chains and lists, the collections
    \<^verbatim>\<open>spr_frame\<close> (what an operation leaves alone) and \<^verbatim>\<open>spr_size\<close>.
  \<^item> \<^verbatim>\<open>Spr_Memory\<close>: the structures, the memory, the environment, and \<^verbatim>\<open>spr_memory.c\<close>.
  \<^item> \<^verbatim>\<open>Spr_Mutex\<close>: the POSIX branch of \<^verbatim>\<open>spr_mutex.c\<close> over a mutex with an owner and a count, and
    the bit tests of \<^verbatim>\<open>include/spr_bitfield.h\<close>.
  \<^item> \<^verbatim>\<open>Spr_Pool\<close>: every function of \<^verbatim>\<open>spr_pool.c\<close>. \<^verbatim>\<open>Spr_Pool_Inv\<close>: the invariant \<^verbatim>\<open>pool_inv\<close> of one pool
    (its nodes lie in live blocks and do not overlap, what is handed out and what is free add up, the pool lies
    in one of its own nodes, the cleanup chain and the reserve chain are disjoint and lie in handed-out
    memory, the mutex is usable) and the searches as first fit. \<^verbatim>\<open>Spr_Pool_Create\<close>: creation establishes it.
    \<^verbatim>\<open>Spr_Pool_Cleanup\<close>: the cleanup functions keep it. \<^verbatim>\<open>Spr_Pool_Clear\<close>: the loops of clearing,
    destroying and the sizes. \<^verbatim>\<open>Spr_Instance\<close>: a concrete environment and pool for the witnesses.
    \<^verbatim>\<open>Spr_Pool_Props\<close>: the properties of one pool. \<^verbatim>\<open>Spr_Pool_Tree\<close>: trees of pools and the walk over
    them. \<^verbatim>\<open>Spr_Pool_Child\<close>: creating a child, and the properties of clearing and destroying a tree.
  \<^item> The pools together: \<^verbatim>\<open>Spr_Pool_Step\<close>: what a step of one pool may change, and that the other pools of
    a tree do not notice. \<^verbatim>\<open>Spr_Pool_Good\<close>: good trees (\<^verbatim>\<open>good_tree\<close>: the invariants of all pools, their links,
    the blocks they own and the blocks their cleanups release), and that every operation keeps them.
    \<^verbatim>\<open>Spr_Pool_Held\<close>: the memory a client holds. \<^verbatim>\<open>Spr_Pool_Session\<close>: runs of a client that calls the
    operations in any order (\<^verbatim>\<open>session_run\<close>). \<^verbatim>\<open>Spr_Pool_Threads\<close>: runs of threads that allocate and
    register cleanups at the same time (\<^verbatim>\<open>thread_run\<close>), with the lock, the work and the unlock of
    \<^verbatim>\<open>spr_palloc\<close> and \<^verbatim>\<open>spr_pool_cleanup_add1\<close> as steps.
  \<^item> \<^verbatim>\<open>Spr_Region\<close>: what a client of a pool relies on (below).
  \<^item> \<^verbatim>\<open>Spr_List\<close>, \<^verbatim>\<open>Spr_List_Lemmas\<close>, \<^verbatim>\<open>Spr_List_Props\<close>: \<^verbatim>\<open>spr_list.c\<close>; \<^verbatim>\<open>list_inv\<close> relates the links to
    the HOL lists of the linked and the free nodes, \<^verbatim>\<open>contents\<close> is the abstract list the operations refine.
  \<^item> \<^verbatim>\<open>Spr_Array\<close>: \<^verbatim>\<open>spr_array.c\<close>. \<^verbatim>\<open>Spr_Limits\<close>: \<^verbatim>\<open>include/spr_limits.h\<close>.
  \<^item> \<^verbatim>\<open>Spr_String\<close>, \<^verbatim>\<open>Spr_String_Lemmas\<close>, \<^verbatim>\<open>Spr_String_Props\<close>: \<^verbatim>\<open>spr_string.c\<close> and the macros of
    \<^verbatim>\<open>include/spr_string.h\<close>; \<^verbatim>\<open>cstring\<close> relates an address to the bytes before the terminating zero.
  \<^item> \<^verbatim>\<open>Spr_Errno\<close>: \<^verbatim>\<open>spr_errno.c\<close> and \<^verbatim>\<open>spr_dso.c\<close>.
  \<^item> \<^verbatim>\<open>Spr_Filesys\<close>, \<^verbatim>\<open>Spr_Filesys_Props\<close>: the POSIX branch and the common part of \<^verbatim>\<open>spr_filesys.c\<close>;
    \<^verbatim>\<open>Spr_Utf8\<close>: its decoder and the conversion of paths; \<^verbatim>\<open>Spr_Filesys_Win32\<close>: its Windows branch.
  \<^item> \<^verbatim>\<open>Spr_Semaphore\<close>: the three versions of \<^verbatim>\<open>spr_semaphore.c\<close>. \<^verbatim>\<open>Spr_Thread\<close>: both versions of
    \<^verbatim>\<open>spr_thread.c\<close> and the Windows branch of \<^verbatim>\<open>spr_mutex.c\<close>. \<^verbatim>\<open>Spr_Lock\<close>: mutual exclusion.
  \<^item> \<^verbatim>\<open>Spr_Network\<close>: \<^verbatim>\<open>lib/network/\<close>. \<^verbatim>\<open>Spr_Clock\<close>: \<^verbatim>\<open>spr_time.c\<close>, \<^verbatim>\<open>spr_cpuinfo.c\<close>, \<^verbatim>\<open>spr_version.c\<close>.

  \<^bold>\<open>Interfaces\<close>

  \<^item> \<^verbatim>\<open>region_allocator\<close> (\<^verbatim>\<open>Spr_Region\<close>): a request in range gets aligned memory apart from everything
    in use, or null with an error number and nothing changed. The lemmas about lists, strings and sequences of
    allocations are proved in it; \<^verbatim>\<open>Spr_Pool_Props\<close> interprets it on \<^verbatim>\<open>spr_palloc\<close>.
  \<^item> \<^verbatim>\<open>tree_walk\<close> (\<^verbatim>\<open>Spr_Pool_Tree\<close>): a visit of one pool that works on it and its children is lifted
    to the whole tree; interpreted on clearing and on destroying. Its parameters say what a visit releases
    and which pools it can visit; the shared mutex must be apart from what is released (\<^verbatim>\<open>mutex_apart\<close>).
  \<^item> \<^verbatim>\<open>counting_semaphore\<close> and its extension \<^verbatim>\<open>bounded_semaphore\<close> (\<^verbatim>\<open>Spr_Semaphore\<close>), with threads that
    guard a section as the step relation \<^verbatim>\<open>guarded\<close>; interpreted on the POSIX and the Windows functions,
    and the weaker one on the dispatch functions.
  \<^item> \<^verbatim>\<open>exclusive_lock\<close> (\<^verbatim>\<open>Spr_Lock\<close>), with threads that lock as the step relation \<^verbatim>\<open>locking\<close>;
    interpreted on the POSIX and the Windows mutex.

  \<^bold>\<open>What the theorems show\<close>

  \<^item> Sessions: a client allocates from the pools of a tree, creates children of any pool, registers, runs
    and removes cleanups and asks for sizes, in any order. It keeps to \<^verbatim>\<open>allowed\<close>: sizes that the slots or
    \<^verbatim>\<open>malloc\<close> serve (not 21 pages, not sizes that wrap), and cleanups that are registered. Then a call has
    no result exactly when it is \<^verbatim>\<open>starved\<close>: it registers a cleanup, none is reserved, no node has room and
    the system gives no page, and the code dereferences null. Every other call has a result and runs exactly
    the cleanups it should. The memory the client holds never overlaps. Destroying the root of a
    tree whose pools live in blocks of twenty pages reads no released memory, leaves exactly the
    blocks that were there before and runs exactly the cleanups still registered.
  \<^item> Threads on one tree: in every interleaving of allocations that the slots serve and registrations, the
    log of the work with its results (\<^verbatim>\<open>th_log\<close>) is a run of one client (\<^verbatim>\<open>serial\<close>) that ends in the same
    state; at most one thread is inside; every thread can return by its own steps and those of the thread
    inside. Creating children does not lock, and two threads that do so can lose a child.
  \<^item> Pools: blocks served are aligned, apart from each other and zeroed when asked; creation, allocation
    and registration keep the invariant; large requests are registered for release; cleanups run in
    reverse order and are removed first match first; the three sizes add up; creating a child keeps the tree in
    order; clearing a tree runs every pending cleanup and makes all node memory free again; destroying one
    whose pools live in nodes of the last slot releases every block without using it afterwards. A smaller
    pool is read after its release, which \<^verbatim>\<open>destroy_uses_released_pool\<close> shows for pools of one node.
  \<^item> Lists: pushing, removing and reserving refine the operations on HOL lists, whatever the allocator answers.
  \<^item> Strings: \<^verbatim>\<open>spr_atoi\<close> agrees with the value of the digits and its overflow test, comparison and search
    decide what they should, copies are fresh and equal, concatenation concatenates.
  \<^item> Files: writing ends and writes everything under the contract of \<^verbatim>\<open>write\<close>, reading gives back what was
    written, whatever happens to the descriptor in between as long as the content stays, access bits and paths
    translate back and forth, paths are joined with one separator, opening an expansion and reading it to its
    end enumerates every entry once and in order; a path becomes its UTF-16 encoding.
  \<^item> Threads: at most as many threads are inside as the semaphore admits, and one can always go on; at
    most one thread holds a mutex, and the mutex is never stuck.
  \<^item> Behaviour that clients would not expect is stated as theorems too: the slot number 20, requests that wrap,
    the mutex left locked, the abandoned mutex that is owned but reported as not locked, the pool read after its release, a child destroyed twice, lists broken by a push on
    an empty list or by the removal of the only node, buffers that are overrun, errors reported as success.

  \<^bold>\<open>Bounds and termination\<close>

  Loops over slots and lengths are total functions with a measure. Loops along pointers, which do not end
  on a cyclic chain, are \<^verbatim>\<open>partial_function (option)\<close>; each property that rests on one shows that it returns.
  \<^verbatim>\<open>spr_palloc\<close> and \<^verbatim>\<open>spr_pool_cleanup_add1\<close> call each other: a large request registers a
  cleanup, whose node is a small request, so three levels suffice, and \<^verbatim>\<open>palloc_small_cases\<close> and
  \<^verbatim>\<open>cleanup_add_cases\<close> show that the last one is not reached. \<^verbatim>\<open>spr_pool_clear\<close> and \<^verbatim>\<open>spr_pool_destroy\<close>
  take a bound on the depth of calls and of steps along a list of brothers; the theorems prove that two for every
  pool of the tree are enough. \<^verbatim>\<open>spr_file_write\<close> ends because a call of \<^verbatim>\<open>write\<close> that does not fail makes
  progress, which is part of its contract.

  \<^bold>\<open>What is assumed\<close>

  The system is a parameter: the allocator (\<^verbatim>\<open>alloc_ok\<close>: a new block is apart from the live ones),
  the page size (\<^verbatim>\<open>page_ok\<close>), the calls on files, sockets, threads and the clock as records of functions over
  an abstract state. A theorem that needs more than their types names it as a hypothesis
  (\<^verbatim>\<open>write_contract\<close>, \<^verbatim>\<open>read_contract\<close>), and its witness meets it with a concrete system. POSIX mutexes and
  semaphores are modelled by the behaviour the standard documents; a call that would block forever is
  \<open>None\<close>. A client's cleanup handler has no effect but an entry in \<^verbatim>\<open>calls\<close>, the log of handlers run.

  \<^bold>\<open>Not modelled\<close>

  The compiler barrier of \<^verbatim>\<open>spr_memory.c\<close>, which has no effect in a sequential model; the thread identifier on
  Solaris, whose header lacks the type; the platform headers, which only choose system headers and type names;
  the build files. The messages and texts of the system are parameters. The wait on a Windows mutex object is
  modelled with its answers for a handle in use (\<^verbatim>\<open>WAIT_FAILED\<close> needs a bad handle). Sessions leave out clearing, and
  destroying a pool other than the root: both lead to the faults that \<^verbatim>\<open>clear_frees_tree\<close> and
  \<^verbatim>\<open>destroyed_child_is_destroyed_again\<close> describe, so no invariant survives them. Threads interleave the
  allocations that the slots serve and the registrations of cleanups; a large request changes the blocks
  outside the lock, running one cleanup leaves the lock taken when another thread was first, and the other
  functions do not lock at all. Between lock and unlock the work of a thread is one step, which no other
  thread can see inside because it waits for the same mutex. \<open>errno\<close> is one cell, although threads have one
  each; the steps of threads do not read it.

  \<^bold>\<open>Plan\<close>

  What could follow: large requests of several threads; lists and strings in the memory of a session; the
  socket calls under a contract of the system.
\<close>

end
